(* ===== verification/Prelude.thy ===== *)
theory Prelude
  imports Main "HOL-Library.Word"
begin

text \<open>
  Shared names, automation and arithmetic of the development: the C integer types as words, the
  theorem collections the component theories fill, and the lemmas on 64-bit modular arithmetic
  that the memory model rests on.
\<close>

unbundle bit_operations_syntax

section \<open>C integer types\<close>

type_synonym u8 = "8 word"
type_synonym u16 = "16 word"
type_synonym u32 = "32 word"
type_synonym u64 = "64 word"

text \<open>A pointer is the 64-bit address it holds; \<open>NULL\<close> is address 0.\<close>

type_synonym ptr = u64

abbreviation (input) NULL :: ptr where "NULL \<equiv> 0"

section \<open>Theorem collections\<close>

named_theorems range_intros \<open>facts that discharge address-range side conditions\<close>
named_theorems mem_simps \<open>reads of a memory after a write\<close>
named_theorems frame_simps \<open>state components an operation leaves alone\<close>

section \<open>Unsigned 64-bit arithmetic read as natural numbers\<close>

lemma unat_lt64: "unat (x::u64) < 2 ^ 64"
  using unsigned_less[of x, where ?'a = nat] by simp

lemma unat_plus_small:
  fixes a b :: u64
  assumes "unat a + unat b < 2 ^ 64"
  shows "unat (a + b) = unat a + unat b"
  using assms by (simp add: unat_word_ariths)

lemma unat_minus_le:
  fixes a b :: u64
  assumes "b \<le> a"
  shows "unat (a - b) = unat a - unat b"
  using assms by (simp add: unat_sub)

lemma unat_diff_wrap:
  fixes a b :: u64
  shows "unat (a - b) = (if unat b \<le> unat a then unat a - unat b else unat a + 2 ^ 64 - unat b)"
  using unat_lt64[of b] by (simp add: unat_sub_if')

lemma unat_of_nat_small: "n < 2 ^ 64 \<Longrightarrow> unat (of_nat n :: u64) = n"
  by (simp add: unat_of_nat)

lemma offset_eq_iff: "x = d + i \<longleftrightarrow> unat (x - d) = unat i" for x d i :: u64
proof
  assume "unat (x - d) = unat i"
  then have "x - d = i" by (rule unsigned_word_eqI)
  then show "x = d + i" by (simp add: algebra_simps)
qed simp

lemma offset_clash: "s + p = d + q \<longleftrightarrow> d - s = p - q" for s p d q :: u64
  by (simp add: algebra_simps eq_diff_eq diff_eq_eq) (metis add.commute)

lemma unat_inc:
  fixes i n :: u64
  assumes "i < n"
  shows "unat (i + 1) = Suc (unat i)"
proof -
  have "unat i < unat n" using assms by (simp add: word_less_nat_alt)
  then have "unat i + unat (1::u64) < 2 ^ 64" using unat_lt64[of n] by simp
  then show ?thesis using unat_plus_small[of i 1] by simp
qed

lemma of_char_zero: "(of_char c :: u8) = 0 \<longleftrightarrow> c = CHR 0x00"
proof
  assume "(of_char c :: u8) = 0"
  then have "of_nat (of_char c) = (0 :: u8)" by (simp only: of_nat_of_char)
  then have "(of_char c :: nat) mod 256 = 0" by (simp add: word_of_nat_eq_0_iff dvd_eq_mod_eq_0)
  moreover have "(of_char c :: nat) < 256" by (rule nat_of_char_less_256)
  ultimately have "(of_char c :: nat) = of_char (CHR 0x00)" by simp
  then show "c = CHR 0x00" by (simp only: of_char_eq_iff)
qed simp

end
