(* ===== verification/Memory.thy ===== *)
theory Memory
  imports Prelude
begin

text \<open>
  The memory the kernel dereferences: a function from 64-bit addresses to bytes.  A C object of
  \<open>n\<close> bytes at address \<open>a\<close> is the little-endian run of the bytes \<open>a\<close>, \<open>a + 1\<close>, \dots, \<open>a + n - 1\<close>
  (addresses wrap at \<open>2 ^ 64\<close>, as the machine's do).  \<open>load\<close> and \<open>store\<close> read and write such a run,
  and the lemmas here say when a store can be seen by a load: never outside its own range.
\<close>

type_synonym mem = "ptr \<Rightarrow> u8"

section \<open>Address ranges\<close>

definition in_range :: "ptr \<Rightarrow> nat \<Rightarrow> ptr \<Rightarrow> bool" where
  "in_range a n x \<longleftrightarrow> unat (x - a) < n"

definition disj_range :: "ptr \<Rightarrow> nat \<Rightarrow> ptr \<Rightarrow> nat \<Rightarrow> bool" where
  "disj_range a n b k \<longleftrightarrow> n \<le> unat (b - a) \<and> k \<le> unat (a - b)"

lemma in_range_nowrap:
  assumes "unat a + n \<le> 2 ^ 64"
  shows "in_range a n x \<longleftrightarrow> unat a \<le> unat x \<and> unat x < unat a + n"
  using assms unat_lt64[of x] unat_lt64[of a]
  by (auto simp: in_range_def unat_diff_wrap)

lemma in_range_Suc: "in_range a (Suc n) x \<longleftrightarrow> x = a \<or> in_range (a + 1) n x"
  if "Suc n \<le> 2 ^ 64"
proof (cases "x = a")
  case True
  then show ?thesis by (simp add: in_range_def)
next
  case False
  then have "x - a \<noteq> 0" by simp
  then have "unat (x - a) \<noteq> 0" by (simp only: unat_0_iff not_False_eq_True)
  moreover have "x - (a + 1) = (x - a) - 1" by simp
  ultimately have "unat (x - (a + 1)) = unat (x - a) - 1"
    by (simp only: unat_sub_if') simp
  with False \<open>unat (x - a) \<noteq> 0\<close> show ?thesis by (auto simp: in_range_def)
qed

lemma in_range_self: "0 < n \<Longrightarrow> in_range a n a"
  by (simp add: in_range_def)

lemma disj_range_sym: "disj_range a n b k \<longleftrightarrow> disj_range b k a n"
  by (auto simp: disj_range_def)

lemma disj_rangeD:
  assumes "disj_range a n b k" and "in_range a n x"
  shows "\<not> in_range b k x"
proof
  assume "in_range b k x"
  then have x: "unat (x - a) < n" "unat (x - b) < k"
    using assms(2) by (simp_all add: in_range_def)
  have d: "n \<le> unat (b - a)" "k \<le> unat (a - b)"
    using assms(1) by (simp_all add: disj_range_def)
  show False
    using x d unat_lt64[of a] unat_lt64[of b] unat_lt64[of x]
    by (auto simp: unat_diff_wrap split: if_splits)
qed

text \<open>Disjointness from intervals of natural numbers, the form the invariants use.\<close>

lemma disj_range_nowrap:
  assumes "unat a + n \<le> 2 ^ 64" and "unat b + k \<le> 2 ^ 64" and "0 < n" and "0 < k"
    and "unat a + n \<le> unat b \<or> unat b + k \<le> unat a"
  shows "disj_range a n b k"
  using assms unat_lt64[of a] unat_lt64[of b]
  by (auto simp: disj_range_def unat_diff_wrap)

lemma disj_rangeI:
  assumes "0 < n" and "0 < k" and "\<And>x. in_range a n x \<Longrightarrow> \<not> in_range b k x"
  shows "disj_range a n b k"
proof -
  have "\<not> in_range a n b" using assms(2,3) in_range_self by blast
  moreover have "\<not> in_range b k a" using assms(1,3) in_range_self by blast
  ultimately show ?thesis by (simp add: disj_range_def in_range_def not_less)
qed

lemma in_range_shift:
  assumes "in_range a' n' x" and "unat (a' - a) + n' \<le> n"
  shows "in_range a n x"
proof -
  have "x - a = (x - a') + (a' - a)" by simp
  then have "unat (x - a) \<le> unat (x - a') + unat (a' - a)"
    by (simp only: unat_word_ariths) (rule mod_less_eq_dividend)
  with assms show ?thesis by (simp add: in_range_def)
qed

lemma disj_range_subset:
  assumes "disj_range a n b k" and "unat (a' - a) + n' \<le> n" and "unat (b' - b) + k' \<le> k"
    and "0 < n'" and "0 < k'"
  shows "disj_range a' n' b' k'"
  using assms by (meson disj_rangeI disj_rangeD in_range_shift)

text \<open>Fields of one object: ranges at constant offsets of a common base.\<close>

lemma disj_range_shift [mem_simps]:
  "disj_range (p + a) n (p + b) k = disj_range a n b k"
  "disj_range p n (p + b) k = disj_range 0 n b k"
  "disj_range (p + a) n p k = disj_range a n 0 k"
  by (simp_all add: disj_range_def)

lemma disj_range_iff:
  "disj_range a n b k \<longleftrightarrow>
     n \<le> (if unat a \<le> unat b then unat b - unat a else unat b + 2 ^ 64 - unat a)
     \<and> k \<le> (if unat b \<le> unat a then unat a - unat b else unat a + 2 ^ 64 - unat b)"
  by (simp only: disj_range_def unat_diff_wrap)

lemmas disj_range_numeral [mem_simps] =
  disj_range_iff[of "numeral x" n "numeral y" k for x n y k]
  disj_range_iff[of 0 n "numeral y" k for n y k]
  disj_range_iff[of "numeral x" n 0 k for x n k]

lemma disj_range_fields:
  assumes "disj_range p n q k" and "unat a + i \<le> n" and "unat b + j \<le> k" and "0 < i" and "0 < j"
  shows "disj_range (p + a) i (q + b) j"
  using disj_range_subset[OF assms(1), of "p + a" i "q + b" j] assms by simp

lemma disj_range_field:
  assumes "disj_range a n b k" and "unat d + j \<le> k" and "0 < n" and "0 < j"
  shows "disj_range a n (b + d) j"
  using disj_range_fields[OF assms(1), of 0 n d j] assms by simp

text \<open>A write confined to a range is invisible to reads outside of it.\<close>

definition same_outside :: "ptr \<Rightarrow> nat \<Rightarrow> mem \<Rightarrow> mem \<Rightarrow> bool" where
  "same_outside a n m m' \<longleftrightarrow> (\<forall>x. \<not> in_range a n x \<longrightarrow> m' x = m x)"

lemma same_outside_refl [simp]: "same_outside a n m m"
  by (simp add: same_outside_def)

lemma same_outside_trans: "same_outside a n m m' \<Longrightarrow> same_outside a n m' m'' \<Longrightarrow> same_outside a n m m''"
  by (simp add: same_outside_def)

section \<open>Pages\<close>

text \<open>Addresses that are multiples of the page size: their pages end inside the address space, and
two of them are the same page or do not meet.\<close>

lemma page_index:
  assumes "unat (p::u64) mod 4096 = 0"
  obtains i where "unat p = i * 4096"
  using div_mult_mod_eq[of "unat p" 4096] assms that[of "unat p div 4096"] by simp

lemma aligned_le:
  assumes "unat p mod 4096 = 0"
  shows "unat (p::u64) + 4096 \<le> 2 ^ 64"
proof -
  obtain i where i: "unat p = i * 4096" using assms by (rule page_index)
  with unat_lt64[of p] have "i * 4096 < 2 ^ 52 * 4096" by simp
  then have "Suc i \<le> 2 ^ 52" by (simp only: mult_less_cancel2 Suc_le_eq)
  then have "Suc i * 4096 \<le> 2 ^ 52 * 4096" by (rule mult_le_mono1)
  with i show ?thesis by simp
qed

lemma page_clash:
  assumes "unat p mod 4096 = 0" and "unat q mod 4096 = 0"
    and "unat p \<le> x" "x < unat p + 4096" "unat q \<le> x" "x < unat q + 4096"
  shows "p = (q::u64)"
proof -
  obtain i j where ij: "unat p = i * 4096" "unat q = j * 4096"
    using assms(1,2) by (metis page_index)
  with assms(3-) have "i * 4096 < Suc j * 4096" "j * 4096 < Suc i * 4096" by simp_all
  then have "i = j" by (simp only: mult_less_cancel2) simp
  with ij have "unat p = unat q" by simp
  then show ?thesis by (rule unsigned_word_eqI)
qed

lemma page_disj:
  assumes "unat a mod 4096 = 0" and "unat b mod 4096 = 0" and "a \<noteq> b"
  shows "disj_range a 4096 b 4096"
proof -
  have "\<not> (unat a < unat b + 4096 \<and> unat b < unat a + 4096)"
  proof
    assume "unat a < unat b + 4096 \<and> unat b < unat a + 4096"
    then show False
      using page_clash[of a b "unat a"] page_clash[of a b "unat b"] assms by (cases "a \<le> b") (auto simp: word_le_nat_alt)
  qed
  then have "unat a + 4096 \<le> unat b \<or> unat b + 4096 \<le> unat a" by auto
  with aligned_le[OF assms(1)] aligned_le[OF assms(2)] show ?thesis
    by (intro disj_range_nowrap) auto
qed

section \<open>Reading and writing runs of bytes\<close>

fun load :: "mem \<Rightarrow> ptr \<Rightarrow> nat \<Rightarrow> nat" where
  "load m a 0 = 0"
| "load m a (Suc n) = unat (m a) + 256 * load m (a + 1) n"

fun store :: "mem \<Rightarrow> ptr \<Rightarrow> nat \<Rightarrow> nat \<Rightarrow> mem" where
  "store m a 0 v = m"
| "store m a (Suc n) v = (store m (a + 1) n (v div 256))(a := of_nat (v mod 256))"

lemma load_bound: "load m a n < 256 ^ n"
proof (induction n arbitrary: a)
  case 0
  then show ?case by simp
next
  case (Suc n)
  have "unat (m a) < 256" using unsigned_less[of "m a", where ?'a = nat] by simp
  with Suc[of "a + 1"] show ?case by simp
qed

lemma load_cong:
  assumes "n \<le> 2 ^ 64" and "\<And>x. in_range a n x \<Longrightarrow> m x = m' x"
  shows "load m a n = load m' a n"
  using assms
proof (induction n arbitrary: a)
  case 0
  then show ?case by simp
next
  case (Suc n)
  have "load m (a + 1) n = load m' (a + 1) n"
    using Suc.prems by (intro Suc.IH) (auto simp: in_range_Suc)
  moreover have "m a = m' a" using Suc.prems by (simp add: in_range_self)
  ultimately show ?case by simp
qed

lemma store_other: "n \<le> 2 ^ 64 \<Longrightarrow> \<not> in_range a n x \<Longrightarrow> store m a n v x = m x"
  by (induction n arbitrary: a v) (simp_all add: in_range_Suc)

lemma not_in_range_next: "n < 2 ^ 64 \<Longrightarrow> \<not> in_range (a + 1) n a"
proof -
  have "a - (a + 1) = (18446744073709551615 :: u64)" by simp
  moreover assume "n < 2 ^ 64"
  ultimately show ?thesis by (simp only: in_range_def) simp
qed

lemma load_store_same: "n \<le> 2 ^ 64 \<Longrightarrow> load (store m a n v) a n = v mod 256 ^ n"
proof (induction n arbitrary: a v)
  case 0
  then show ?case by simp
next
  case (Suc n)
  have "load (store m a (Suc n) v) (a + 1) n = load (store m (a + 1) n (v div 256)) (a + 1) n"
    using Suc.prems not_in_range_next[of n a] by (intro load_cong) auto
  also have "\<dots> = (v div 256) mod 256 ^ n" using Suc by simp
  finally have tl: "load (store m a (Suc n) v) (a + 1) n = (v div 256) mod 256 ^ n" .
  have hd: "unat (store m a (Suc n) v a) = v mod 256" by (simp add: unat_of_nat)
  have "load (store m a (Suc n) v) a (Suc n) = v mod 256 + 256 * ((v div 256) mod 256 ^ n)"
    by (simp only: load.simps hd tl)
  then show ?case by (simp only: power_Suc mod_mult2_eq add.commute)
qed

lemma load_store_disj:
  assumes "n \<le> 2 ^ 64" and "k \<le> 2 ^ 64" and "disj_range a n b k"
  shows "load (store m a n v) b k = load m b k"
proof (rule load_cong[OF assms(2)])
  fix x assume "in_range b k x"
  then have "\<not> in_range a n x" using assms(3) by (meson disj_rangeD)
  then show "store m a n v x = m x" using assms(1) by (rule store_other[rotated])
qed

section \<open>The C integer types in memory\<close>

definition load64 :: "mem \<Rightarrow> ptr \<Rightarrow> u64" where
  "load64 m a = of_nat (load m a 8)"

definition store64 :: "mem \<Rightarrow> ptr \<Rightarrow> u64 \<Rightarrow> mem" where
  "store64 m a v = store m a 8 (unat v)"

definition load32 :: "mem \<Rightarrow> ptr \<Rightarrow> u32" where
  "load32 m a = of_nat (load m a 4)"

definition store32 :: "mem \<Rightarrow> ptr \<Rightarrow> u32 \<Rightarrow> mem" where
  "store32 m a v = store m a 4 (unat v)"

text \<open>A C \<open>bool\<close> is one byte; any non-zero byte reads as true.\<close>

definition load_bool :: "mem \<Rightarrow> ptr \<Rightarrow> bool" where
  "load_bool m a \<longleftrightarrow> m a \<noteq> 0"

definition store_bool :: "mem \<Rightarrow> ptr \<Rightarrow> bool \<Rightarrow> mem" where
  "store_bool m a b = m(a := (if b then 1 else 0))"

lemma load64_store64_same [simp, mem_simps]: "load64 (store64 m a v) a = v"
proof -
  have "unat v mod 256 ^ 8 = unat v" using unat_lt64[of v] by simp
  then show ?thesis by (simp add: load64_def store64_def load_store_same)
qed

lemma load32_store32_same [simp, mem_simps]: "load32 (store32 m a v) a = v"
proof -
  have "unat v < 256 ^ 4" using unsigned_less[of v, where ?'a = nat] by simp
  then show ?thesis by (simp add: load32_def store32_def load_store_same)
qed

lemma load_bool_store_bool_same [simp, mem_simps]: "load_bool (store_bool m a b) a = b"
  by (simp add: load_bool_def store_bool_def)

lemma load64_cong: "(\<And>x. in_range a 8 x \<Longrightarrow> m x = m' x) \<Longrightarrow> load64 m a = load64 m' a"
  unfolding load64_def by (subst load_cong[of 8 a m m']) simp_all

lemma load32_cong: "(\<And>x. in_range a 4 x \<Longrightarrow> m x = m' x) \<Longrightarrow> load32 m a = load32 m' a"
  unfolding load32_def by (subst load_cong[of 4 a m m']) simp_all

lemma store64_other: "\<not> in_range a 8 x \<Longrightarrow> store64 m a v x = m x"
  by (simp add: store64_def store_other)

lemma store32_other: "\<not> in_range a 4 x \<Longrightarrow> store32 m a v x = m x"
  by (simp add: store32_def store_other)

lemma store_bool_other: "\<not> in_range a 1 x \<Longrightarrow> store_bool m a b x = m x"
  by (auto simp: store_bool_def in_range_def)

lemma load64_store64_disj [mem_simps]:
  "disj_range a 8 b 8 \<Longrightarrow> load64 (store64 m a v) b = load64 m b"
  by (rule load64_cong) (meson disj_rangeD store64_other)

lemma load64_store32_disj [mem_simps]:
  "disj_range a 4 b 8 \<Longrightarrow> load64 (store32 m a v) b = load64 m b"
  by (rule load64_cong) (meson disj_rangeD store32_other)

lemma load64_store_bool_disj [mem_simps]:
  "disj_range a 1 b 8 \<Longrightarrow> load64 (store_bool m a v) b = load64 m b"
  by (rule load64_cong) (meson disj_rangeD store_bool_other)

lemma load32_store64_disj [mem_simps]:
  "disj_range a 8 b 4 \<Longrightarrow> load32 (store64 m a v) b = load32 m b"
  by (rule load32_cong) (meson disj_rangeD store64_other)

lemma load32_store32_disj [mem_simps]:
  "disj_range a 4 b 4 \<Longrightarrow> load32 (store32 m a v) b = load32 m b"
  by (rule load32_cong) (meson disj_rangeD store32_other)

lemma load_bool_store64_disj [mem_simps]:
  "disj_range a 8 b 1 \<Longrightarrow> load_bool (store64 m a v) b = load_bool m b"
proof -
  assume "disj_range a 8 b 1"
  then have "\<not> in_range a 8 b" by (auto simp: in_range_def disj_range_def)
  then show ?thesis by (simp add: load_bool_def store64_other)
qed

lemma load_bool_store_bool_disj [mem_simps]:
  "a \<noteq> b \<Longrightarrow> load_bool (store_bool m a v) b = load_bool m b"
  by (simp add: load_bool_def store_bool_def)

section \<open>Stores inside one object\<close>

lemma same_outside_store64:
  "same_outside p n m m' \<Longrightarrow> unat (a - p) + 8 \<le> n \<Longrightarrow> same_outside p n m (store64 m' a v)"
  unfolding same_outside_def by (metis in_range_shift store64_other)

lemma same_outside_store32:
  "same_outside p n m m' \<Longrightarrow> unat (a - p) + 4 \<le> n \<Longrightarrow> same_outside p n m (store32 m' a v)"
  unfolding same_outside_def by (metis in_range_shift store32_other)

lemma same_outside_store_bool:
  "same_outside p n m m' \<Longrightarrow> unat (a - p) + 1 \<le> n \<Longrightarrow> same_outside p n m (store_bool m' a v)"
  unfolding same_outside_def by (metis in_range_shift store_bool_other)

lemma load64_same_outside:
  "same_outside p n m m' \<Longrightarrow> disj_range p n a 8 \<Longrightarrow> load64 m' a = load64 m a"
  unfolding same_outside_def by (rule load64_cong) (meson disj_rangeD disj_range_sym)

lemma load32_same_outside:
  "same_outside p n m m' \<Longrightarrow> disj_range p n a 4 \<Longrightarrow> load32 m' a = load32 m a"
  unfolding same_outside_def by (rule load32_cong) (meson disj_rangeD disj_range_sym)

lemma load_bool_same_outside:
  "same_outside p n m m' \<Longrightarrow> disj_range p n a 1 \<Longrightarrow> load_bool m' a = load_bool m a"
  unfolding same_outside_def load_bool_def
  by (metis disj_rangeD disj_range_sym in_range_self zero_less_one)

end
