(* ===== verification/MemOp.thy ===== *)
theory MemOp
  imports Memory
begin

text \<open>
  The freestanding memory routines of \<^verbatim>\<open>kernel/src/mm/memop.c\<close> and the string length of
  \<^verbatim>\<open>kernel/src/sys/string.c\<close>, as loops over the byte memory with their 64-bit counters.
\<close>

section \<open>The loops\<close>

function memcpy_loop :: "mem \<Rightarrow> ptr \<Rightarrow> ptr \<Rightarrow> u64 \<Rightarrow> u64 \<Rightarrow> mem" where
  "memcpy_loop m pdest psrc i n =
     (if i < n then memcpy_loop (m(pdest + i := m (psrc + i))) pdest psrc (i + 1) n else m)"
  by pat_completeness auto
termination
  by (relation "measure (\<lambda>(m, pdest, psrc, i, n). unat n - unat i)")
     (auto simp: unat_inc word_less_nat_alt)

definition memcpy :: "ptr \<Rightarrow> ptr \<Rightarrow> u64 \<Rightarrow> mem \<Rightarrow> ptr \<times> mem" where
  "memcpy dest src n m = (dest, memcpy_loop m dest src 0 n)"

text \<open>\<open>c\<close> is a C \<open>int\<close>; the cast to \<open>uint8_t\<close> keeps its low byte.\<close>

function memset_loop :: "mem \<Rightarrow> ptr \<Rightarrow> u32 \<Rightarrow> u64 \<Rightarrow> u64 \<Rightarrow> mem" where
  "memset_loop m p c i n =
     (if i < n then memset_loop (m(p + i := ucast c)) p c (i + 1) n else m)"
  by pat_completeness auto
termination
  by (relation "measure (\<lambda>(m, p, c, i, n). unat n - unat i)")
     (auto simp: unat_inc word_less_nat_alt)

definition memset :: "ptr \<Rightarrow> u32 \<Rightarrow> u64 \<Rightarrow> mem \<Rightarrow> ptr \<times> mem" where
  "memset s c n m = (s, memset_loop m s c 0 n)"

function memmove_back :: "mem \<Rightarrow> ptr \<Rightarrow> ptr \<Rightarrow> u64 \<Rightarrow> mem" where
  "memmove_back m pdest psrc i =
     (if 0 < i then memmove_back (m(pdest + (i - 1) := m (psrc + (i - 1)))) pdest psrc (i - 1) else m)"
  by pat_completeness auto
termination
  by (relation "measure (\<lambda>(m, pdest, psrc, i). unat i)") (auto simp: unat_minus_one unat_gt_0)

definition memmove :: "ptr \<Rightarrow> ptr \<Rightarrow> u64 \<Rightarrow> mem \<Rightarrow> ptr \<times> mem" where
  "memmove dest src n m =
     (dest,
      if src > dest then memcpy_loop m dest src 0 n
      else if src < dest then memmove_back m dest src n
      else m)"

function memcmp_loop :: "mem \<Rightarrow> ptr \<Rightarrow> ptr \<Rightarrow> u64 \<Rightarrow> u64 \<Rightarrow> int" where
  "memcmp_loop m p1 p2 i n =
     (if i < n
      then if m (p1 + i) \<noteq> m (p2 + i)
           then (if m (p1 + i) < m (p2 + i) then -1 else 1)
           else memcmp_loop m p1 p2 (i + 1) n
      else 0)"
  by pat_completeness auto
termination
  by (relation "measure (\<lambda>(m, p1, p2, i, n). unat n - unat i)")
     (auto simp: unat_inc word_less_nat_alt)

definition memcmp :: "ptr \<Rightarrow> ptr \<Rightarrow> u64 \<Rightarrow> mem \<Rightarrow> int" where
  "memcmp s1 s2 n m = memcmp_loop m s1 s2 0 n"

text \<open>
  \<open>strlen\<close> counts in a C \<open>int\<close> that is incremented by every test.  Incrementing it past
  \<open>INT_MAX\<close> is undefined, which the model shows as \<open>None\<close>.
\<close>

definition INT_MAX :: nat where "INT_MAX = 2 ^ 31 - 1"

function strlen_loop :: "mem \<Rightarrow> ptr \<Rightarrow> nat \<Rightarrow> nat option" where
  "strlen_loop m str i =
     (if i < INT_MAX
      then if m (str + of_nat i) \<noteq> 0 then strlen_loop m str (i + 1) else Some (i + 1)
      else None)"
  by pat_completeness auto
termination
  by (relation "measure (\<lambda>(m, str, i). INT_MAX - i)") auto

definition strlen :: "ptr \<Rightarrow> mem \<Rightarrow> nat option" where
  "strlen str m = strlen_loop m str 0"

declare memcpy_loop.simps [simp del] memset_loop.simps [simp del] memmove_back.simps [simp del]
  memcmp_loop.simps [simp del] strlen_loop.simps [simp del]

lemmas memop_defs = memcpy_def memset_def memmove_def memcmp_def strlen_def

section \<open>What the loops compute\<close>

text \<open>
  The ascending copy is right whenever the destination does not start inside the source, past its
  first byte.  The theorem below is about the memory at any stage of the loop.
\<close>

lemma memcpy_loop_eq:
  assumes "d = s \<or> unat n \<le> unat (d - s)"
  shows "memcpy_loop m d s i n x =
    (if unat i \<le> unat (x - d) \<and> unat (x - d) < unat n then m (s + (x - d)) else m x)"
  using assms
proof (induction m d s i n rule: memcpy_loop.induct)
  case (1 m d s i n)
  show ?case
  proof (cases "i < n")
    case False
    then show ?thesis by (auto simp: memcpy_loop.simps[of m d s i n] word_less_nat_alt)
  next
    case True
    let ?m = "m(d + i := m (s + i))" and ?o = "x - d"
    have suc: "unat (i + 1) = Suc (unat i)" using True by (rule unat_inc)
    have step: "memcpy_loop m d s i n x = memcpy_loop ?m d s (i + 1) n x"
      using True by (simp add: memcpy_loop.simps[of m d s i n])
    have IH: "memcpy_loop ?m d s (i + 1) n x =
        (if unat (i + 1) \<le> unat ?o \<and> unat ?o < unat n then ?m (s + ?o) else ?m x)"
      using True "1.prems" by (rule "1.IH")
    have keep: "?m (s + ?o) = m (s + ?o)" if "Suc (unat i) \<le> unat ?o" "unat ?o < unat n"
    proof -
      have "s + ?o \<noteq> d + i"
      proof
        assume "s + ?o = d + i"
        then have eq: "d - s = ?o - i" by (simp only: offset_clash)
        have "unat (?o - i) = unat ?o - unat i"
          using that by (intro unat_minus_le) (simp add: word_le_nat_alt)
        then have "unat (d - s) = unat ?o - unat i" by (simp only: eq)
        with that have "unat (d - s) < unat n" and "unat (d - s) \<noteq> 0" by linarith+
        with "1.prems" show False by auto
      qed
      then show ?thesis by simp
    qed
    have hit: "x = d + i \<longleftrightarrow> unat ?o = unat i"
      by (rule offset_eq_iff)
    show ?thesis
      using step IH keep suc hit True by (auto simp: word_less_nat_alt not_less_eq_eq le_Suc_eq)
  qed
qed

lemma memmove_back_eq:
  assumes "unat i \<le> unat (s - d)"
  shows "memmove_back m d s i x = (if unat (x - d) < unat i then m (s + (x - d)) else m x)"
  using assms
proof (induction m d s i rule: memmove_back.induct)
  case (1 m d s i)
  show ?case
  proof (cases "0 < i")
    case False
    then have "i = 0" by (simp add: word_gt_0)
    then show ?thesis by (simp add: memmove_back.simps[of m d s 0])
  next
    case True
    let ?j = "i - 1" and ?o = "x - d"
    let ?m = "m(d + ?j := m (s + ?j))"
    have pre: "unat ?j = unat i - 1" "0 < unat i"
      using True by (auto simp: unat_minus_one unat_gt_0)
    have step: "memmove_back m d s i x = memmove_back ?m d s ?j x"
      using True by (simp add: memmove_back.simps[of m d s i])
    have IH: "memmove_back ?m d s ?j x = (if unat ?o < unat ?j then ?m (s + ?o) else ?m x)"
      using True "1.prems" pre by (intro "1.IH") auto
    have keep: "?m (s + ?o) = m (s + ?o)" if "unat ?o < unat ?j"
    proof -
      have "s + ?o \<noteq> d + ?j"
      proof
        assume "s + ?o = d + ?j"
        then have eq: "s - d = ?j - ?o" by (metis offset_clash)
        have "unat (?j - ?o) = unat ?j - unat ?o"
          using that by (intro unat_minus_le) (simp add: word_le_nat_alt)
        then have "unat (s - d) = unat ?j - unat ?o" by (simp only: eq)
        with pre have "unat (s - d) < unat i" by linarith
        with "1.prems" show False by simp
      qed
      then show ?thesis by simp
    qed
    have hit: "x = d + ?j \<longleftrightarrow> unat ?o = unat ?j"
      by (rule offset_eq_iff)
    show ?thesis using step IH keep pre hit by auto
  qed
qed

lemma memset_loop_eq:
  "memset_loop m p c i n x =
    (if unat i \<le> unat (x - p) \<and> unat (x - p) < unat n then ucast c else m x)"
proof (induction m p c i n rule: memset_loop.induct)
  case (1 m p c i n)
  have hit: "x = p + i \<longleftrightarrow> unat (x - p) = unat i" by (rule offset_eq_iff)
  show ?case
  proof (cases "i < n")
    case False
    then show ?thesis by (auto simp: memset_loop.simps[of m p c i n] word_less_nat_alt)
  next
    case True
    then have "memset_loop m p c i n x = memset_loop (m(p + i := ucast c)) p c (i + 1) n x"
      by (simp add: memset_loop.simps[of m p c i n])
    then show ?thesis
      using "1.IH"[OF True] True unat_inc[OF True] hit
      by (auto simp: word_less_nat_alt le_Suc_eq not_less_eq_eq)
  qed
qed

lemma memset_apply: "snd (memset p c n m) x = (if in_range p (unat n) x then ucast c else m x)"
  by (simp add: memset_def memset_loop_eq in_range_def)

lemma memset_fst [simp]: "fst (memset p c n m) = p"
  by (simp add: memset_def)

lemma memcpy_apply:
  assumes "d = s \<or> unat n \<le> unat (d - s)"
  shows "snd (memcpy d s n m) x = (if in_range d (unat n) x then m (s + (x - d)) else m x)"
  using memcpy_loop_eq[OF assms, of m 0 x] by (simp add: memcpy_def in_range_def)

lemma memcpy_fst [simp]: "fst (memcpy d s n m) = d"
  by (simp add: memcpy_def)

lemma memcpy_outside:
  assumes "\<not> in_range d (unat n) x"
  shows "snd (memcpy d s n m) x = m x"
proof -
  have "unat i \<le> unat n \<Longrightarrow> \<not> in_range d (unat n) x \<Longrightarrow> memcpy_loop m d s i n x = m x" for i m
  proof (induction m d s i n rule: memcpy_loop.induct)
    case (1 m d s i n)
    show ?case
    proof (cases "i < n")
      case True
      then have "x \<noteq> d + i" using "1.prems" by (auto simp: in_range_def word_less_nat_alt)
      moreover have "unat (i + 1) \<le> unat n" using True unat_inc[OF True] by (simp add: word_less_nat_alt)
      ultimately have "memcpy_loop (m(d + i := m (s + i))) d s (i + 1) n x = (m(d + i := m (s + i))) x"
        using True "1.prems"(2) by (intro "1.IH")
      with \<open>x \<noteq> d + i\<close> True show ?thesis by (simp add: memcpy_loop.simps[of m d s i n])
    qed (simp add: memcpy_loop.simps[of m d s i n])
  qed
  from this[of 0 m] assms show ?thesis by (simp add: memcpy_def)
qed

section \<open>Copying between overlapping ranges\<close>

text \<open>
  C37. \<open>memmove\<close> is a simultaneous copy for every overlap: as long as neither range runs past the
  end of the address space, each destination byte afterwards is the source byte of the memory
  before the call, and no other byte of memory changes.
\<close>

theorem memmove_correct:
  assumes "unat src + unat n \<le> 2 ^ 64" and "unat dest + unat n \<le> 2 ^ 64"
  shows "snd (memmove dest src n m) x =
    (if in_range dest (unat n) x then m (src + (x - dest)) else m x)"
proof -
  consider (up) "src > dest" | (down) "src < dest" | (same) "src = dest" by fastforce
  then show ?thesis
  proof cases
    case up
    then have "unat n \<le> unat (dest - src)"
      using assms(1) unat_lt64[of dest] by (auto simp: unat_diff_wrap word_less_nat_alt)
    with up show ?thesis
      using memcpy_loop_eq[of dest src n m 0 x] by (simp add: memmove_def in_range_def)
  next
    case down
    then have "unat n \<le> unat (src - dest)"
      using assms(2) unat_lt64[of src] by (auto simp: unat_diff_wrap word_less_nat_alt)
    with down show ?thesis
      using memmove_back_eq[of n src dest m x] by (auto simp: memmove_def in_range_def)
  qed (simp add: memmove_def)
qed

theorem memmove_correct_witness:
  "snd (memmove 101 100 3 (\<lambda>a. ucast a)) 102 = (101 :: u8)"
proof -
  have "snd (memmove 101 100 3 (\<lambda>a. ucast a)) (102 :: ptr) =
      (if in_range (101 :: ptr) (unat (3 :: u64)) 102 then ucast (100 + (102 - 101) :: ptr)
       else ucast (102 :: ptr) :: u8)"
    by (rule memmove_correct) simp_all
  then show ?thesis by (simp add: in_range_def)
qed

section \<open>Comparing\<close>

text \<open>The bytes of a range as a list, and the lexicographic comparison of two byte strings.\<close>

definition bytes_at :: "mem \<Rightarrow> ptr \<Rightarrow> nat \<Rightarrow> u8 list" where
  "bytes_at m a n = map (\<lambda>i. m (a + of_nat i)) [0..<n]"

fun lex_compare :: "u8 list \<Rightarrow> u8 list \<Rightarrow> int" where
  "lex_compare (x # xs) (y # ys) = (if x = y then lex_compare xs ys else if x < y then -1 else 1)"
| "lex_compare _ _ = 0"

lemma length_bytes_at [simp]: "length (bytes_at m a n) = n"
  by (simp add: bytes_at_def)

lemma drop_bytes_at:
  assumes "i < n"
  shows "drop i (bytes_at m a n) = m (a + of_nat i) # drop (Suc i) (bytes_at m a n)"
  using assms Cons_nth_drop_Suc[of i "bytes_at m a n"] by (simp add: bytes_at_def)

lemma memcmp_loop_eq:
  "memcmp_loop m p1 p2 i n =
     lex_compare (drop (unat i) (bytes_at m p1 (unat n))) (drop (unat i) (bytes_at m p2 (unat n)))"
proof (induction m p1 p2 i n rule: memcmp_loop.induct)
  case (1 m p1 p2 i n)
  show ?case
  proof (cases "i < n")
    case True
    then have "unat i < unat n" by (simp add: word_less_nat_alt)
    then show ?thesis
      using 1 True
      by (simp add: memcmp_loop.simps[of m p1 p2 i n] drop_bytes_at unat_inc)
  next
    case False
    then show ?thesis by (simp add: memcmp_loop.simps[of m p1 p2 i n] word_less_nat_alt)
  qed
qed

text \<open>
  \<open>memcmp\<close> is the lexicographic comparison of the two byte strings as unsigned bytes: it
  returns -1, 0 or 1 as the first is smaller, equal or larger, reading exactly \<open>n\<close> bytes of each.
\<close>

theorem memcmp_lexicographic:
  "memcmp s1 s2 n m = lex_compare (bytes_at m s1 (unat n)) (bytes_at m s2 (unat n))"
  by (simp add: memcmp_def memcmp_loop_eq)

section \<open>String length\<close>

text \<open>A NUL-terminated string \<open>cs\<close> in memory at \<open>a\<close>.\<close>

definition cstr_at :: "mem \<Rightarrow> ptr \<Rightarrow> u8 list \<Rightarrow> bool" where
  "cstr_at m a cs \<longleftrightarrow> 0 \<notin> set cs \<and> bytes_at m a (Suc (length cs)) = cs @ [0]"

lemma cstr_at_nth:
  assumes "cstr_at m a cs" and "i \<le> length cs"
  shows "m (a + of_nat i) = (if i < length cs then cs ! i else 0)"
proof -
  have "bytes_at m a (Suc (length cs)) ! i = (cs @ [0]) ! i" using assms(1) by (simp add: cstr_at_def)
  with assms(2) show ?thesis by (auto simp: bytes_at_def nth_append simp del: upt_Suc)
qed

lemma strlen_loop_cstr:
  assumes "cstr_at m a cs" and "length cs < INT_MAX" and "i \<le> length cs"
  shows "strlen_loop m a i = Some (Suc (length cs))"
  using assms
proof (induction m a i rule: strlen_loop.induct)
  case (1 m a i)
  show ?case
  proof (cases "i < length cs")
    case True
    then have "m (a + of_nat i) \<noteq> 0" using "1.prems" by (auto simp: cstr_at_nth cstr_at_def) (metis nth_mem)
    with True "1.prems" "1.IH" show ?thesis by (subst strlen_loop.simps) auto
  next
    case False
    then have "i = length cs" and "m (a + of_nat i) = 0" using "1.prems" by (auto simp: cstr_at_nth)
    with "1.prems" show ?thesis by (subst strlen_loop.simps) auto
  qed
qed

text \<open>
  On a NUL-terminated string the kernel's \<open>strlen\<close> returns one more than the number of
  characters before the terminator: the post-increment in its loop test counts the terminator, so
  every caller that copies or prints \<open>strlen\<close> bytes takes the NUL along.
\<close>

theorem strlen_counts_terminator:
  assumes "cstr_at m a cs" and "length cs < INT_MAX"
  shows "strlen a m = Some (length cs + 1)"
  using strlen_loop_cstr[OF assms] by (simp add: strlen_def)

theorem strlen_counts_terminator_witness:
  "strlen 16 ((\<lambda>_. 0)(16 := 107, 17 := 101)) = Some 3"
proof -
  have "cstr_at ((\<lambda>_. 0)(16 := 107, 17 := 101)) 16 [107, 101]"
    by (simp add: cstr_at_def bytes_at_def)
  from strlen_counts_terminator[OF this] show ?thesis by (simp add: INT_MAX_def)
qed

section \<open>Bulk facts for the other components\<close>

lemma load64_memset_zero:
  assumes "unat (a - p) + 8 \<le> unat n"
  shows "load64 (snd (memset p 0 n m)) a = 0"
proof -
  have "load (snd (memset p 0 n m)) a 8 = load (\<lambda>_. 0) a 8"
    using assms by (intro load_cong) (auto simp: memset_apply intro: in_range_shift)
  also have "\<dots> = 0"
    by (simp add: numeral_eq_Suc)
  finally show ?thesis by (simp add: load64_def)
qed

lemma load64_memset_disj:
  assumes "disj_range p (unat n) a 8"
  shows "load64 (snd (memset p c n m)) a = load64 m a"
  using assms by (intro load64_cong) (metis disj_rangeD memset_apply)

lemma load64_memcpy_disj:
  assumes "disj_range d (unat n) a 8"
  shows "load64 (snd (memcpy d s n m)) a = load64 m a"
  using assms by (intro load64_cong) (metis disj_rangeD memcpy_outside)

end
