(* ===== verification/Machine.thy ===== *)
theory Machine
  imports MemOp
begin

text \<open>
  The machine every component runs on: the byte memory, the ordered trace of the effects the
  kernel has on the outside (port writes, privileged instructions, calls of the kernel logger), and
  the devices.  \<^verbatim>\<open>kernel/src/arch/x86_64/io.c\<close> is the port interface.

  A device is an arbitrary function of everything that happened before: \<open>dev s h p\<close> is the byte
  that port \<open>p\<close> delivers after the history \<open>h\<close>.  The kernel's components extend this record.
\<close>

datatype logtype = Lg_warn | Lg_info | Lg_panic_lg | Lg_err | Lg_progress

text \<open>
  One event per effect.  \<open>Logln lt cmp msg args\<close> is a call of the logger with its variadic
  arguments as machine words, \<open>Tty_print bs\<close> and \<open>Tty_enable\<close> are calls of \<open>tty_print\<close> and
  \<open>tty_enable\<close>; the console theories say what these do.  The \<open>Term\<close> events are calls of the terminal emulator (a git submodule).
\<close>

datatype event =
    Outb u16 u8
  | Inb u16 u8
  | Cli
  | Sti
  | Hlt
  | Lgdt u16 ptr
  | Ltr u16
  | Lidt u16 ptr
  | Load_cr3 u64
  | Logln logtype string string "u64 list"
  | Tty_print "u8 list"
  | Tty_enable
  | Term_init ptr
  | Term_clear
  | Term_write "u8 list"
  | Term_fg u32
  | Term_bg u32
  | Term_default_fg
  | Term_default_bg

record machine =
  mem :: mem
  trace :: "event list"
  dev :: "event list \<Rightarrow> u16 \<Rightarrow> u8"

definition emit :: "event \<Rightarrow> 'a machine_scheme \<Rightarrow> 'a machine_scheme" where
  "emit e s = s\<lparr>trace := trace s @ [e]\<rparr>"

abbreviation logln :: "logtype \<Rightarrow> string \<Rightarrow> string \<Rightarrow> u64 list \<Rightarrow> 'a machine_scheme \<Rightarrow> 'a machine_scheme"
  where "logln lt cmp msg args \<equiv> emit (Logln lt cmp msg args)"

text \<open>The calls of the logger in a trace, and those of \<open>tty_enable\<close>, in order.\<close>

fun log_calls :: "event list \<Rightarrow> event list" where
  "log_calls [] = []"
| "log_calls (Logln lt cmp msg args # es) = Logln lt cmp msg args # log_calls es"
| "log_calls (Tty_enable # es) = Tty_enable # log_calls es"
| "log_calls (_ # es) = log_calls es"

lemma log_calls_append [simp]: "log_calls (es @ fs) = log_calls es @ log_calls fs"
  by (induction es rule: log_calls.induct) auto

section \<open>Port input and output\<close>

definition inb :: "u16 \<Rightarrow> 'a machine_scheme \<Rightarrow> u8 \<times> 'a machine_scheme" where
  "inb port s = (let v = dev s (trace s) port in (v, emit (Inb port v) s))"

definition outb :: "u16 \<Rightarrow> u8 \<Rightarrow> 'a machine_scheme \<Rightarrow> 'a machine_scheme" where
  "outb port val s = emit (Outb port val) s"

definition io_wait :: "'a machine_scheme \<Rightarrow> 'a machine_scheme" where
  "io_wait s = outb 0x80 0 s"

lemmas io_defs = inb_def outb_def io_wait_def emit_def Let_def

lemma emit_frame [simp, frame_simps]:
  "mem (emit e s) = mem s" "dev (emit e s) = dev s" "trace (emit e s) = trace s @ [e]"
  "machine.more (emit e s) = machine.more s"
  by (simp_all add: emit_def)

lemma outb_frame [simp, frame_simps]:
  "mem (outb p v s) = mem s" "dev (outb p v s) = dev s"
  by (simp_all add: outb_def)

lemma inb_frame [simp, frame_simps]:
  "mem (snd (inb p s)) = mem s" "dev (snd (inb p s)) = dev s"
  by (simp_all add: inb_def Let_def)

end
