(* ===== verification/PageAllocator.thy ===== *)
theory PageAllocator
  imports Prelude
begin

text \<open>
  The contract of a page allocator: a stack of free pages, taken from and put back at its top, with
  a fixed capacity.  The physical memory manager provides it (theory Pmm); the heap, the page
  tables and the scheduler rely on it.
\<close>

section \<open>Sequences of requests\<close>

fun alloc_many :: "('s \<Rightarrow> ptr \<times> 's) \<Rightarrow> nat \<Rightarrow> 's \<Rightarrow> ptr list \<times> 's" where
  "alloc_many alloc 0 s = ([], s)"
| "alloc_many alloc (Suc n) s =
     (let (p, s1) = alloc s; (ps, s2) = alloc_many alloc n s1 in (p # ps, s2))"

text \<open>
  A client of the allocator, with the set of pages it holds: it may ask for a page, and it may
  return one it holds.
\<close>

inductive page_step ::
  "('s \<Rightarrow> ptr \<times> 's) \<Rightarrow> (ptr \<Rightarrow> 's \<Rightarrow> 's) \<Rightarrow> 's \<times> ptr set \<Rightarrow> 's \<times> ptr set \<Rightarrow> bool"
  for alloc :: "'s \<Rightarrow> ptr \<times> 's" and free :: "ptr \<Rightarrow> 's \<Rightarrow> 's" where
  take: "alloc s = (p, s') \<Longrightarrow> p \<noteq> NULL \<Longrightarrow> page_step alloc free (s, H) (s', insert p H)"
| fail: "alloc s = (NULL, s') \<Longrightarrow> page_step alloc free (s, H) (s', H)"
| give: "p \<in> H \<Longrightarrow> page_step alloc free (s, H) (free p s, H - {p})"

inductive_cases page_stepE: "page_step alloc free sH tH"

section \<open>The contract\<close>

locale page_allocator =
  fixes alloc :: "'s \<Rightarrow> ptr \<times> 's"
    and free :: "ptr \<Rightarrow> 's \<Rightarrow> 's"
    and pages :: "'s \<Rightarrow> ptr list"
    and inv :: "'s \<Rightarrow> bool"
    and capacity :: nat
  assumes alloc_empty: "inv s \<Longrightarrow> pages s = [] \<Longrightarrow> alloc s = (NULL, s)"
    and alloc_top: "inv s \<Longrightarrow> pages s = p # ps \<Longrightarrow> fst (alloc s) = p"
    and alloc_pages: "inv s \<Longrightarrow> pages s = p # ps \<Longrightarrow> pages (snd (alloc s)) = ps"
    and free_push: "inv s \<Longrightarrow> length (pages s) < capacity \<Longrightarrow> pages (free p s) = p # pages s"
    and free_full: "inv s \<Longrightarrow> length (pages s) = capacity \<Longrightarrow> free p s = s"
    and inv_alloc: "inv s \<Longrightarrow> inv (snd (alloc s))"
    and inv_free: "inv s \<Longrightarrow> inv (free p s)"
    and pages_bound: "inv s \<Longrightarrow> length (pages s) \<le> capacity"
begin

lemma pages_alloc: "inv s \<Longrightarrow> pages (snd (alloc s)) = tl (pages s)"
  by (cases "pages s") (auto simp: alloc_empty alloc_pages)

lemma fst_alloc: "inv s \<Longrightarrow> fst (alloc s) = (if pages s = [] then NULL else hd (pages s))"
  by (cases "pages s") (auto simp: alloc_empty alloc_top)

text \<open>Freeing a page and allocating at once gives it back, and restores the free pages.\<close>

lemma alloc_free:
  assumes "inv s" and "length (pages s) < capacity"
  shows "fst (alloc (free p s)) = p" and "pages (snd (alloc (free p s))) = pages s"
  using assms by (simp_all add: fst_alloc pages_alloc inv_free free_push)

lemma alloc_many_pages:
  assumes "inv s" and "n \<le> length (pages s)"
  shows "fst (alloc_many alloc n s) = take n (pages s)
    \<and> pages (snd (alloc_many alloc n s)) = drop n (pages s) \<and> inv (snd (alloc_many alloc n s))"
  using assms
proof (induction n arbitrary: s)
  case 0
  then show ?case by simp
next
  case (Suc n)
  then obtain p ps where ps: "pages s = p # ps" by (cases "pages s") auto
  obtain q s1 where q: "alloc s = (q, s1)" by fastforce
  have "q = p" and s1: "pages s1 = ps" "inv s1"
    using alloc_top[OF Suc.prems(1) ps] alloc_pages[OF Suc.prems(1) ps] inv_alloc[OF Suc.prems(1)] q
    by simp_all
  then show ?case
    using Suc.IH[of s1] Suc.prems q ps by (auto simp: split_beta Let_def)
qed

lemma free_many_pages:
  assumes "inv s"
  shows "pages (fold free ps s) = rev (take (capacity - length (pages s)) ps) @ pages s
    \<and> inv (fold free ps s)"
  using assms
proof (induction ps arbitrary: s)
  case Nil
  then show ?case by simp
next
  case (Cons p ps)
  show ?case
  proof (cases "length (pages s) < capacity")
    case True
    then have "capacity - length (pages s) = Suc (capacity - length (pages (free p s)))"
      using Cons.prems by (simp add: free_push)
    with True Cons show ?thesis by (simp add: free_push inv_free)
  next
    case False
    then have "length (pages s) = capacity" using pages_bound[OF Cons.prems] by simp
    with Cons show ?thesis by (simp add: free_full)
  qed
qed

text \<open>
  Exclusive ownership: the free pages and the pages the client holds stay disjoint and together
  make up the same set of pages, so the allocator never hands out a page that is already held.
\<close>

definition owns :: "ptr set \<Rightarrow> 's \<times> ptr set \<Rightarrow> bool" where
  "owns P sH \<longleftrightarrow> inv (fst sH) \<and> distinct (pages (fst sH)) \<and> NULL \<notin> P \<and> finite P \<and> card P \<le> capacity
     \<and> set (pages (fst sH)) \<inter> snd sH = {} \<and> set (pages (fst sH)) \<union> snd sH = P"

lemma owns_step:
  assumes "page_step alloc free sH tH" and "owns P sH"
  shows "owns P tH"
  using assms
proof (induction rule: page_step.induct)
  case (take s p s' H)
  then have ne: "pages s \<noteq> []" using alloc_empty[of s] by (auto simp: owns_def)
  then obtain ps where "pages s = p # ps"
    using take fst_alloc[of s] by (cases "pages s") (auto simp: owns_def)
  with take show ?case
    using pages_alloc[of s] inv_alloc[of s] by (auto simp: owns_def)
next
  case (fail s s' H)
  then have "pages s = []"
    using fst_alloc[of s] by (cases "pages s") (auto simp: owns_def)
  with fail show ?case using alloc_empty[of s] by (auto simp: owns_def)
next
  case (give p H s)
  have fin: "finite H" using give by (auto simp: owns_def intro: finite_subset)
  have "card (set (pages s)) + card H = card P"
    using give fin by (auto simp: owns_def card_Un_disjoint[symmetric])
  moreover have "card (set (pages s)) = length (pages s)"
    using give by (simp add: owns_def distinct_card)
  moreover have "0 < card H" using give fin by (auto simp: card_gt_0_iff)
  ultimately have "length (pages s) < capacity" using give by (auto simp: owns_def)
  then show ?case using give by (auto simp: owns_def free_push inv_free)
qed

lemma owns_reachable: "(page_step alloc free)\<^sup>*\<^sup>* sH tH \<Longrightarrow> owns P sH \<Longrightarrow> owns P tH"
  by (induction rule: rtranclp_induct) (auto intro: owns_step)

lemma alloc_not_held:
  assumes "owns P (s, H)" and "alloc s = (p, s')" and "p \<noteq> NULL"
  shows "p \<in> P - H"
  using assms fst_alloc[of s] by (cases "pages s") (auto simp: owns_def)

end

end
