(* ===== verification/Pmm.thy ===== *)
theory Pmm
  imports Machine PageAllocator
begin

text \<open>
  The page level of the physical memory manager, \<^verbatim>\<open>kernel/src/mm/pmm.c\<close>: a stack of the
  addresses of free 4 KiB pages, filled from the boot loader's memory map.  The block heap built on
  it is in theory PmmHeap.
\<close>

section \<open>State\<close>

definition PMM_BLOCK_SIZE :: u64 where "PMM_BLOCK_SIZE = 4096"
definition PMM_MAX_BLOCKS :: nat where "PMM_MAX_BLOCKS = 32768"
definition STACK_SIZE :: nat where "STACK_SIZE = PMM_MAX_BLOCKS"

definition MEMMAP_USABLE :: u64 where "MEMMAP_USABLE = 0"
definition MEMMAP_RESERVED :: u64 where "MEMMAP_RESERVED = 1"

record memmap_entry =
  me_base :: u64
  me_length :: u64
  me_type :: u64

text \<open>The globals of \<^verbatim>\<open>pmm.c\<close>; \<open>memmap_ptr\<close> is the entry array the boot loader supplies.\<close>

record pmm = machine +
  pmm_stack :: "ptr list"
  pmm_stack_top :: u32
  pmm_free_blocks :: ptr
  memmap_ptr :: "memmap_entry list"
  pmm_initialized :: bool
  pmm_used_mem :: u64
  pmm_free_mem :: u64
  pmm_total_mem :: u64

definition log_uninitialized :: "'a pmm_scheme \<Rightarrow> 'a pmm_scheme" where
  "log_uninitialized =
     logln Lg_err ''pmm'' ''Cannot use PMM functions before PMM initialization.\<newline>'' []"

section \<open>Operations\<close>

definition pmm_freepage :: "ptr \<Rightarrow> 'a pmm_scheme \<Rightarrow> 'a pmm_scheme" where
  "pmm_freepage block s =
     (if \<not> pmm_initialized s then log_uninitialized s
      else if pmm_stack_top s = of_nat STACK_SIZE then s
      else s\<lparr>pmm_free_mem := pmm_free_mem s + PMM_BLOCK_SIZE,
             pmm_used_mem := pmm_used_mem s - PMM_BLOCK_SIZE,
             pmm_stack := (pmm_stack s)[unat (pmm_stack_top s) := block],
             pmm_stack_top := pmm_stack_top s + 1\<rparr>)"

definition pmm_allocpage :: "'a pmm_scheme \<Rightarrow> ptr \<times> 'a pmm_scheme" where
  "pmm_allocpage s =
     (if \<not> pmm_initialized s then (NULL, log_uninitialized s)
      else if pmm_stack_top s = 0 then (NULL, s)
      else let top = pmm_stack_top s - 1
           in (pmm_stack s ! unat top,
               s\<lparr>pmm_free_mem := pmm_free_mem s - PMM_BLOCK_SIZE,
                 pmm_used_mem := pmm_used_mem s + PMM_BLOCK_SIZE,
                 pmm_stack_top := top\<rparr>))"

text \<open>The two inner loops of \<open>pmm_init\<close>: count a region, and push its pages.\<close>

lemma length_loop_decreases:
  "PMM_BLOCK_SIZE \<le> l \<Longrightarrow> unat (l - PMM_BLOCK_SIZE) < unat l"
  by (simp add: unat_minus_le PMM_BLOCK_SIZE_def word_le_nat_alt)

function count_loop :: "u64 \<Rightarrow> 'a pmm_scheme \<Rightarrow> 'a pmm_scheme" where
  "count_loop l s =
     (if l \<ge> PMM_BLOCK_SIZE
      then count_loop (l - PMM_BLOCK_SIZE) (s\<lparr>pmm_total_mem := pmm_total_mem s + PMM_BLOCK_SIZE\<rparr>)
      else s)"
  by pat_completeness auto
termination
  by (relation "measure (\<lambda>(l, s). unat l)") (auto simp: length_loop_decreases)

function free_loop :: "ptr \<Rightarrow> u64 \<Rightarrow> 'a pmm_scheme \<Rightarrow> 'a pmm_scheme" where
  "free_loop addr l s =
     (if l \<ge> PMM_BLOCK_SIZE
      then free_loop (addr + PMM_BLOCK_SIZE) (l - PMM_BLOCK_SIZE) (pmm_freepage addr s)
      else s)"
  by pat_completeness auto
termination
  by (relation "measure (\<lambda>(addr, l, s). unat l)") (auto simp: length_loop_decreases)

declare count_loop.simps [simp del] free_loop.simps [simp del]

definition pmm_init_entry :: "memmap_entry \<Rightarrow> 'a pmm_scheme \<Rightarrow> 'a pmm_scheme" where
  "pmm_init_entry mentry s =
     (let s1 = (if me_type mentry \<noteq> MEMMAP_RESERVED then count_loop (me_length mentry) s else s)
      in if me_type mentry = MEMMAP_USABLE
         then free_loop (me_base mentry) (me_length mentry)
                (logln Lg_info ''pmm'' ''Found an usable memory range: %p-%p\<newline>''
                   [me_base mentry, me_base mentry + me_length mentry] s1)
         else s1)"

definition pmm_init :: "'a pmm_scheme \<Rightarrow> 'a pmm_scheme" where
  "pmm_init s =
     logln Lg_progress ''pmm'' ''Initialized!\<newline>'' []
       (fold pmm_init_entry (memmap_ptr s) (s\<lparr>pmm_stack_top := 0, pmm_initialized := True\<rparr>))"

section \<open>The page stack as an allocator\<close>

definition free_pages :: "'a pmm_scheme \<Rightarrow> ptr list" where
  "free_pages s = rev (take (unat (pmm_stack_top s)) (pmm_stack s))"

definition pmm_ok :: "'a pmm_scheme \<Rightarrow> bool" where
  "pmm_ok s \<longleftrightarrow> pmm_initialized s \<and> length (pmm_stack s) = STACK_SIZE
     \<and> unat (pmm_stack_top s) \<le> STACK_SIZE"

lemma STACK_SIZE_numeral: "STACK_SIZE = 32768"
  by (simp add: STACK_SIZE_def PMM_MAX_BLOCKS_def)

lemma unat_stack_top_inc:
  fixes t :: u32
  assumes "unat t < STACK_SIZE"
  shows "unat (t + 1) = Suc (unat t)"
  using assms by (simp add: unat_word_ariths STACK_SIZE_numeral)

lemma stack_full_iff: "t = of_nat STACK_SIZE \<longleftrightarrow> unat t = STACK_SIZE" for t :: u32
  by (auto simp: STACK_SIZE_numeral intro: unsigned_word_eqI)

lemma length_free_pages: "pmm_ok s \<Longrightarrow> length (free_pages s) = unat (pmm_stack_top s)"
  by (simp add: free_pages_def pmm_ok_def)

interpretation pg: page_allocator pmm_allocpage pmm_freepage free_pages pmm_ok STACK_SIZE
proof unfold_locales
  fix s :: "'a pmm_scheme" and p ps
  assume ok: "pmm_ok s"
  note len = length_free_pages[OF ok]
  have stk: "length (pmm_stack s) = STACK_SIZE" "unat (pmm_stack_top s) \<le> STACK_SIZE"
    "pmm_initialized s"
    using ok by (simp_all add: pmm_ok_def)
  show "length (free_pages s) \<le> STACK_SIZE" using len stk by simp
  show "pmm_allocpage s = (NULL, s)" if "free_pages s = []"
    using that len stk by (simp add: pmm_allocpage_def unat_0_iff[symmetric])
  have nz: "pmm_stack_top s \<noteq> 0" if "free_pages s \<noteq> []"
    using that len by auto
  have dec: "unat (pmm_stack_top s - 1) = unat (pmm_stack_top s) - 1" if "free_pages s \<noteq> []"
    using nz[OF that] by (simp add: unat_minus_one)
  have top: "free_pages s = pmm_stack s ! (unat (pmm_stack_top s) - 1)
      # rev (take (unat (pmm_stack_top s) - 1) (pmm_stack s))" if "free_pages s \<noteq> []"
    using that len stk take_Suc_conv_app_nth[of "unat (pmm_stack_top s) - 1" "pmm_stack s"]
    by (auto simp: free_pages_def unat_gt_0[symmetric])
  show "fst (pmm_allocpage s) = p" if "free_pages s = p # ps"
    using that top dec nz stk by (auto simp: pmm_allocpage_def Let_def)
  show "free_pages (snd (pmm_allocpage s)) = ps" if "free_pages s = p # ps"
    using that top dec nz stk by (auto simp: pmm_allocpage_def free_pages_def Let_def)
  show "free_pages (pmm_freepage p s) = p # free_pages s" if "length (free_pages s) < STACK_SIZE"
    using that len stk unat_stack_top_inc[of "pmm_stack_top s"]
    by (simp add: pmm_freepage_def free_pages_def stack_full_iff take_Suc_conv_app_nth)
  show "pmm_freepage p s = s" if "length (free_pages s) = STACK_SIZE"
    using that len stk by (simp add: pmm_freepage_def stack_full_iff)
  show "pmm_ok (snd (pmm_allocpage s))"
    using ok dec len unat_0_iff[of "pmm_stack_top s"] by (cases "free_pages s = []")
      (auto simp: pmm_allocpage_def pmm_ok_def Let_def)
  show "pmm_ok (pmm_freepage p s)"
    using ok unat_stack_top_inc[of "pmm_stack_top s"]
    by (auto simp: pmm_freepage_def pmm_ok_def stack_full_iff)
qed

section \<open>What initialisation builds\<close>

text \<open>The pages of a region, in ascending order, and those of all usable regions.\<close>

definition region_pages :: "ptr \<Rightarrow> u64 \<Rightarrow> ptr list" where
  "region_pages addr l =
     map (\<lambda>i. addr + of_nat i * PMM_BLOCK_SIZE) [0..<unat l div unat PMM_BLOCK_SIZE]"

definition usable_pages :: "memmap_entry list \<Rightarrow> ptr list" where
  "usable_pages mm =
     concat (map (\<lambda>e. region_pages (me_base e) (me_length e))
       (filter (\<lambda>e. me_type e = MEMMAP_USABLE) mm))"

definition counted_pages :: "memmap_entry list \<Rightarrow> nat" where
  "counted_pages mm =
     sum_list (map (\<lambda>e. unat (me_length e) div 4096) (filter (\<lambda>e. me_type e \<noteq> MEMMAP_RESERVED) mm))"

lemma unat_block_size [simp]: "unat PMM_BLOCK_SIZE = 4096"
  by (simp add: PMM_BLOCK_SIZE_def)

lemma div_block_step:
  assumes "PMM_BLOCK_SIZE \<le> l"
  shows "unat l div 4096 = Suc (unat (l - PMM_BLOCK_SIZE) div 4096)"
proof -
  have "4096 \<le> unat l" using assms by (simp add: word_le_nat_alt)
  moreover have "unat (l - PMM_BLOCK_SIZE) = unat l - 4096" using assms by (simp add: unat_minus_le)
  ultimately show ?thesis by (simp add: le_div_geq)
qed

lemma div_block_zero: "\<not> PMM_BLOCK_SIZE \<le> l \<Longrightarrow> unat l div 4096 = 0"
  by (simp add: word_le_nat_alt)

lemma region_pages_step:
  assumes "PMM_BLOCK_SIZE \<le> l"
  shows "region_pages addr l = addr # region_pages (addr + PMM_BLOCK_SIZE) (l - PMM_BLOCK_SIZE)"
  using div_block_step[OF assms]
  by (simp add: region_pages_def map_upt_Suc algebra_simps del: upt_Suc)

lemma free_loop_fold: "free_loop addr l s = fold pmm_freepage (region_pages addr l) s"
proof (induction addr l s rule: free_loop.induct)
  case (1 addr l s)
  show ?case
  proof (cases "PMM_BLOCK_SIZE \<le> l")
    case True
    with 1 show ?thesis by (simp add: free_loop.simps[of addr l s] region_pages_step)
  next
    case False
    then show ?thesis
      by (simp add: free_loop.simps[of addr l s] region_pages_def div_block_zero)
  qed
qed

lemma count_loop_total:
  "count_loop l s = s\<lparr>pmm_total_mem := pmm_total_mem s + of_nat (unat l div 4096) * PMM_BLOCK_SIZE\<rparr>"
proof (induction l s rule: count_loop.induct)
  case (1 l s)
  show ?case
  proof (cases "PMM_BLOCK_SIZE \<le> l")
    case True
    with 1 show ?thesis
      by (simp add: count_loop.simps[of l s] div_block_step[OF True] algebra_simps)
  next
    case False
    then show ?thesis by (simp add: count_loop.simps[of l s] div_block_zero)
  qed
qed

lemma pmm_ok_emit [simp]: "pmm_ok (emit e s) = pmm_ok s"
  and free_pages_emit [simp]: "free_pages (emit e s) = free_pages s"
  by (simp_all add: pmm_ok_def free_pages_def emit_def)

lemma pmm_ok_total [simp]: "pmm_ok (s\<lparr>pmm_total_mem := x\<rparr>) = pmm_ok s"
  and free_pages_total [simp]: "free_pages (s\<lparr>pmm_total_mem := x\<rparr>) = free_pages s"
  by (simp_all add: pmm_ok_def free_pages_def)

lemma pmm_init_entry_pages:
  assumes "pmm_ok s"
  shows "pmm_ok (pmm_init_entry e s) \<and> free_pages (pmm_init_entry e s) =
    rev (take (STACK_SIZE - length (free_pages s)) (usable_pages [e])) @ free_pages s"
  using pg.free_many_pages[of "emit ev (count_loop (me_length e) s)" for ev] assms
  by (auto simp: pmm_init_entry_def Let_def free_loop_fold usable_pages_def count_loop_total
      MEMMAP_USABLE_def MEMMAP_RESERVED_def)

lemma usable_pages_Cons: "usable_pages (e # mm) = usable_pages [e] @ usable_pages mm"
  by (simp add: usable_pages_def)

lemma pmm_init_entries_pages:
  assumes "pmm_ok s"
  shows "pmm_ok (fold pmm_init_entry mm s) \<and> free_pages (fold pmm_init_entry mm s) =
    rev (take (STACK_SIZE - length (free_pages s)) (usable_pages mm)) @ free_pages s"
  using assms
proof (induction mm arbitrary: s)
  case Nil
  then show ?case by (simp add: usable_pages_def)
next
  case (Cons e mm)
  let ?t = "pmm_init_entry e s" and ?k = "STACK_SIZE - length (free_pages s)"
  have t: "pmm_ok ?t" "free_pages ?t = rev (take ?k (usable_pages [e])) @ free_pages s"
    using pmm_init_entry_pages[OF Cons.prems] by simp_all
  then have "STACK_SIZE - length (free_pages ?t) = ?k - length (usable_pages [e])" by simp
  with Cons.IH[OF t(1)] t show ?case by (simp add: usable_pages_Cons[of e mm])
qed

lemma pmm_init_free_pages:
  assumes "length (pmm_stack s) = STACK_SIZE"
  shows "pmm_ok (pmm_init s)
    \<and> free_pages (pmm_init s) = rev (take STACK_SIZE (usable_pages (memmap_ptr s)))"
proof -
  let ?s = "s\<lparr>pmm_stack_top := 0, pmm_initialized := True\<rparr>"
  have "pmm_ok ?s" "free_pages ?s = []" using assms by (simp_all add: pmm_ok_def free_pages_def)
  with pmm_init_entries_pages[of ?s "memmap_ptr s"] show ?thesis by (simp add: pmm_init_def)
qed

definition boot_pmm :: "memmap_entry list \<Rightarrow> pmm" where
  "boot_pmm mm = \<lparr>mem = \<lambda>_. 0, trace = [], dev = \<lambda>_ _. 0,
     pmm_stack = replicate STACK_SIZE 0, pmm_stack_top = 0, pmm_free_blocks = NULL,
     memmap_ptr = mm, pmm_initialized = False, pmm_used_mem = 0, pmm_free_mem = 0,
     pmm_total_mem = 0\<rparr>"

definition sample_memmap :: "memmap_entry list" where
  "sample_memmap =
     [\<lparr>me_base = 0x1000, me_length = 0x2800, me_type = MEMMAP_USABLE\<rparr>,
      \<lparr>me_base = 0x4000, me_length = 0x1000, me_type = MEMMAP_RESERVED\<rparr>,
      \<lparr>me_base = 0x8000, me_length = 0x1000, me_type = MEMMAP_USABLE\<rparr>]"

lemma usable_sample: "usable_pages sample_memmap = [0x1000, 0x2000, 0x8000]"
  by (simp add: usable_pages_def sample_memmap_def region_pages_def MEMMAP_USABLE_def
      MEMMAP_RESERVED_def PMM_BLOCK_SIZE_def upt_rec)

section \<open>No page is handed out twice\<close>

text \<open>
  What the boot protocol documents of the memory map: usable entries come in ascending order, do
  not overlap, and do not run past the end of the address space; page 0 is not usable.
\<close>

definition memmap_ok :: "memmap_entry list \<Rightarrow> bool" where
  "memmap_ok mm \<longleftrightarrow>
     (let us = filter (\<lambda>e. me_type e = MEMMAP_USABLE) mm in
      (\<forall>e \<in> set us. 0 < unat (me_base e) \<and> unat (me_base e) + unat (me_length e) \<le> 2 ^ 64)
      \<and> sorted_wrt (\<lambda>e f. unat (me_base e) + unat (me_length e) \<le> unat (me_base f)) us)"

lemma unat_region_page:
  assumes "unat addr + unat l \<le> 2 ^ 64" and "i < unat l div 4096"
  shows "unat (addr + of_nat i * PMM_BLOCK_SIZE) = unat addr + i * 4096"
proof -
  have "i * 4096 + 4096 \<le> unat l" using assms(2) by linarith
  then have small: "unat addr + i * 4096 < 2 ^ 64" using assms(1) by linarith
  have "of_nat i * PMM_BLOCK_SIZE = of_nat (i * 4096)" by (simp add: PMM_BLOCK_SIZE_def)
  moreover have "unat (of_nat (i * 4096) :: u64) = i * 4096"
    using small by (intro unat_of_nat_small) simp
  ultimately show ?thesis using small by (simp add: unat_plus_small)
qed

lemma region_pages_range:
  assumes "unat addr + unat l \<le> 2 ^ 64" and "p \<in> set (region_pages addr l)"
  shows "unat addr \<le> unat p \<and> unat p < unat addr + unat l"
  using assms by (auto simp: region_pages_def unat_region_page)

lemma distinct_region_pages:
  assumes "unat addr + unat l \<le> 2 ^ 64"
  shows "distinct (region_pages addr l)"
proof -
  have "inj_on (\<lambda>i. addr + of_nat i * PMM_BLOCK_SIZE) {..<unat l div 4096}"
  proof (rule inj_onI)
    fix i j assume "i \<in> {..<unat l div 4096}" "j \<in> {..<unat l div 4096}"
      and "addr + of_nat i * PMM_BLOCK_SIZE = addr + of_nat j * PMM_BLOCK_SIZE"
    then have "unat addr + i * 4096 = unat addr + j * 4096"
      using unat_region_page[OF assms] by (metis lessThan_iff)
    then show "i = j" by simp
  qed
  then show ?thesis by (simp add: region_pages_def distinct_map lessThan_atLeast0)
qed

lemma memmap_ok_Cons:
  "memmap_ok (e # mm) \<Longrightarrow> memmap_ok mm \<and> (me_type e = MEMMAP_USABLE \<longrightarrow>
     0 < unat (me_base e) \<and> unat (me_base e) + unat (me_length e) \<le> 2 ^ 64
     \<and> (\<forall>f \<in> set mm. me_type f = MEMMAP_USABLE \<longrightarrow>
          unat (me_base e) + unat (me_length e) \<le> unat (me_base f)))"
  by (auto simp: memmap_ok_def Let_def split: if_splits)

lemma usable_pages_range:
  assumes "memmap_ok mm" and "p \<in> set (usable_pages mm)"
  obtains e where "e \<in> set mm" "me_type e = MEMMAP_USABLE" "0 < unat (me_base e)"
    "unat (me_base e) \<le> unat p" "unat p < unat (me_base e) + unat (me_length e)"
proof -
  from assms(2) obtain e where e: "e \<in> set mm" "me_type e = MEMMAP_USABLE"
    and p: "p \<in> set (region_pages (me_base e) (me_length e))"
    by (auto simp: usable_pages_def)
  have "0 < unat (me_base e)" "unat (me_base e) + unat (me_length e) \<le> 2 ^ 64"
    using assms(1) e by (auto simp: memmap_ok_def Let_def)
  with e region_pages_range[OF _ p] show ?thesis using that by blast
qed

lemma distinct_usable_pages: "memmap_ok mm \<Longrightarrow> distinct (usable_pages mm)"
proof (induction mm)
  case Nil
  then show ?case by (simp add: usable_pages_def)
next
  case (Cons e mm)
  have rest: "memmap_ok mm" and ue: "me_type e = MEMMAP_USABLE \<Longrightarrow>
      unat (me_base e) + unat (me_length e) \<le> 2 ^ 64
     \<and> (\<forall>f \<in> set mm. me_type f = MEMMAP_USABLE \<longrightarrow>
          unat (me_base e) + unat (me_length e) \<le> unat (me_base f))"
    using memmap_ok_Cons[OF Cons.prems] by auto
  show ?case
  proof (cases "me_type e = MEMMAP_USABLE")
    case True
    have "p \<notin> set (usable_pages mm)" if "p \<in> set (region_pages (me_base e) (me_length e))" for p
    proof
      assume "p \<in> set (usable_pages mm)"
      with rest obtain f where "f \<in> set mm" "me_type f = MEMMAP_USABLE" "unat (me_base f) \<le> unat p"
        by (rule usable_pages_range)
      with ue[OF True] region_pages_range[OF _ that] show False by force
    qed
    with True ue[OF True] Cons.IH[OF rest] show ?thesis
      by (auto simp: usable_pages_Cons[of e mm] usable_pages_def[of "[e]"] distinct_region_pages)
  next
    case False
    with Cons.IH[OF rest] show ?thesis by (simp add: usable_pages_def)
  qed
qed

lemma NULL_not_usable: "memmap_ok mm \<Longrightarrow> 0 \<notin> set (usable_pages mm)"
  by (auto elim: usable_pages_range)

lemma pmm_init_owns:
  assumes "memmap_ok (memmap_ptr s)" and "length (pmm_stack s) = STACK_SIZE"
  shows "pg.owns (set (take STACK_SIZE (usable_pages (memmap_ptr s)))) (pmm_init s, {})"
proof -
  let ?ps = "take STACK_SIZE (usable_pages (memmap_ptr s))"
  have d: "distinct ?ps" using distinct_usable_pages[OF assms(1)] by simp
  have "card (set ?ps) = length ?ps" using d by (rule distinct_card)
  then have "card (set ?ps) \<le> STACK_SIZE" by simp
  moreover have "NULL \<notin> set ?ps" using NULL_not_usable[OF assms(1)] in_set_takeD by fastforce
  ultimately show ?thesis using pmm_init_free_pages[OF assms(2)] d by (simp add: pg.owns_def)
qed

section \<open>Accounting\<close>

text \<open>
  The counters after any history: the free counter is the size of the free stack, and the used
  counter is its negation, modulo \<open>2 ^ 64\<close>.
\<close>

definition counters_ok :: "'a pmm_scheme \<Rightarrow> bool" where
  "counters_ok s \<longleftrightarrow> pmm_free_mem s = of_nat (length (free_pages s)) * PMM_BLOCK_SIZE
     \<and> pmm_used_mem s = - pmm_free_mem s"

lemma counters_freepage:
  assumes "pmm_ok s" and "counters_ok s"
  shows "counters_ok (pmm_freepage p s)"
proof (cases "length (free_pages s) < STACK_SIZE")
  case True
  with assms show ?thesis
    using pg.free_push[OF assms(1) True, of p]
    by (auto simp: counters_ok_def pmm_freepage_def pmm_ok_def algebra_simps)
next
  case False
  then have "length (free_pages s) = STACK_SIZE" using pg.pages_bound[OF assms(1)] by simp
  with assms show ?thesis by (simp add: pg.free_full)
qed

lemma counters_allocpage:
  assumes "pmm_ok s" and "counters_ok s"
  shows "counters_ok (snd (pmm_allocpage s))"
proof (cases "free_pages s")
  case Nil
  with assms show ?thesis by (simp add: pg.alloc_empty)
next
  case (Cons p ps)
  then have "pmm_stack_top s \<noteq> 0" using length_free_pages[OF assms(1)] by auto
  then have "pmm_free_mem (snd (pmm_allocpage s)) = pmm_free_mem s - PMM_BLOCK_SIZE"
    "pmm_used_mem (snd (pmm_allocpage s)) = pmm_used_mem s + PMM_BLOCK_SIZE"
    using assms(1) by (simp_all add: pmm_allocpage_def pmm_ok_def Let_def)
  with Cons assms show ?thesis by (simp add: counters_ok_def pg.pages_alloc algebra_simps)
qed

lemma counters_free_many:
  "pmm_ok s \<Longrightarrow> counters_ok s \<Longrightarrow> counters_ok (fold pmm_freepage ps s)"
  by (induction ps arbitrary: s) (simp_all add: counters_freepage pg.inv_free)

lemma counters_emit [simp]: "counters_ok (emit e s) = counters_ok s"
  by (simp add: counters_ok_def) (simp add: emit_def)

lemma counters_total [simp]: "counters_ok (s\<lparr>pmm_total_mem := x\<rparr>) = counters_ok s"
  by (simp add: counters_ok_def)

lemma counters_init_entry:
  "pmm_ok s \<Longrightarrow> counters_ok s \<Longrightarrow> counters_ok (pmm_init_entry e s)"
  by (auto simp: pmm_init_entry_def Let_def count_loop_total free_loop_fold intro!: counters_free_many)

lemma counters_init_entries:
  "pmm_ok s \<Longrightarrow> counters_ok s \<Longrightarrow> counters_ok (fold pmm_init_entry mm s)"
  by (induction mm arbitrary: s) (simp_all add: counters_init_entry pmm_init_entry_pages)

lemma counters_step:
  assumes "page_step pmm_allocpage pmm_freepage sH tH"
  shows "pmm_ok (fst sH) \<and> counters_ok (fst sH) \<Longrightarrow> pmm_ok (fst tH) \<and> counters_ok (fst tH)"
  using assms
proof (induction rule: page_step.induct)
  case (take s p s' H)
  then show ?case using pg.inv_alloc[of s] counters_allocpage[of s] by simp
next
  case (fail s s' H)
  then show ?case using pg.inv_alloc[of s] counters_allocpage[of s] by simp
next
  case (give p H s)
  then show ?case by (simp add: pg.inv_free counters_freepage)
qed

lemma counters_reachable:
  "(page_step pmm_allocpage pmm_freepage)\<^sup>*\<^sup>* sH tH
    \<Longrightarrow> pmm_ok (fst sH) \<and> counters_ok (fst sH) \<Longrightarrow> pmm_ok (fst tH) \<and> counters_ok (fst tH)"
  by (induction rule: rtranclp_induct) (auto dest: counters_step)

lemma total_init_entry:
  "pmm_total_mem (fold pmm_freepage ps s) = pmm_total_mem s"
  by (induction ps arbitrary: s) (simp_all add: pmm_freepage_def log_uninitialized_def emit_def)

lemma total_emit [simp]: "pmm_total_mem (emit e s) = pmm_total_mem s"
  by (simp add: emit_def)

lemma total_init_entries:
  "pmm_total_mem (fold pmm_init_entry mm s) =
     pmm_total_mem s + of_nat (counted_pages mm) * PMM_BLOCK_SIZE"
proof (induction mm arbitrary: s)
  case Nil
  then show ?case by (simp add: counted_pages_def)
next
  case (Cons e mm)
  have "pmm_total_mem (pmm_init_entry e s) =
      pmm_total_mem s + of_nat (counted_pages [e]) * PMM_BLOCK_SIZE"
    by (simp add: pmm_init_entry_def Let_def count_loop_total free_loop_fold total_init_entry
        counted_pages_def MEMMAP_RESERVED_def MEMMAP_USABLE_def)
  moreover have "counted_pages (e # mm) = counted_pages [e] + counted_pages mm"
    by (simp add: counted_pages_def)
  ultimately show ?case using Cons[of "pmm_init_entry e s"] by (simp add: algebra_simps)
qed

section \<open>Properties of the page allocator\<close>

text \<open>
  C25. \<open>pmm_init\<close> leaves on the free stack the first 32768 of the 4 KiB pages of the usable regions of the memory
  map, as many as the stack can hold, the last of them to be handed out next; usable pages beyond the 128 MiB of
  these are dropped without a word.  It adds to the total one page for every page of every region that is
  not reserved.
\<close>

theorem pmm_init_pages:
  assumes "length (pmm_stack s) = STACK_SIZE"
  shows "pmm_ok (pmm_init s)
    \<and> free_pages (pmm_init s) = rev (take STACK_SIZE (usable_pages (memmap_ptr s)))
    \<and> pmm_total_mem (pmm_init s) =
        pmm_total_mem s + of_nat (counted_pages (memmap_ptr s)) * PMM_BLOCK_SIZE"
  using pmm_init_free_pages[OF assms] by (simp add: pmm_init_def total_init_entries)

theorem pmm_init_pages_witness:
  "free_pages (pmm_init (boot_pmm sample_memmap)) = [0x8000, 0x2000, 0x1000]"
  using pmm_init_pages[of "boot_pmm sample_memmap"]
  by (simp add: boot_pmm_def usable_sample STACK_SIZE_numeral)

text \<open>
  C10. Exclusive ownership: start from \<open>pmm_init\<close> on a memory map that meets the boot protocol and
  let clients allocate pages and free pages they hold, in any order.  Whatever page
  \<open>pmm_allocpage\<close> then returns is a page of the usable memory that no client holds, and free and held
  pages together are still all the pages of initialisation: none is lost and none is duplicated.
\<close>

theorem pmm_exclusive_ownership:
  assumes "memmap_ok (memmap_ptr s)" and "length (pmm_stack s) = STACK_SIZE"
    and "(page_step pmm_allocpage pmm_freepage)\<^sup>*\<^sup>* (pmm_init s, {}) (t, H)"
    and "pmm_allocpage t = (p, t')" and "p \<noteq> NULL"
  shows "p \<in> set (take STACK_SIZE (usable_pages (memmap_ptr s))) \<and> p \<notin> H
    \<and> set (free_pages t) \<union> H = set (take STACK_SIZE (usable_pages (memmap_ptr s)))
    \<and> distinct (free_pages t)"
proof -
  have "pg.owns (set (take STACK_SIZE (usable_pages (memmap_ptr s)))) (t, H)"
    using assms(3) pmm_init_owns[OF assms(1,2)] by (rule pg.owns_reachable)
  with pg.alloc_not_held[OF this assms(4,5)] show ?thesis by (simp add: pg.owns_def)
qed

theorem pmm_exclusive_ownership_witness:
  "fst (pmm_allocpage (pmm_init (boot_pmm sample_memmap))) \<in> {0x1000, 0x2000, 0x8000}"
proof -
  let ?s = "boot_pmm sample_memmap"
  have ok: "pmm_ok (pmm_init ?s)" "free_pages (pmm_init ?s) = [0x8000, 0x2000, 0x1000]"
    using pmm_init_free_pages[of ?s] by (simp_all add: boot_pmm_def usable_sample STACK_SIZE_numeral)
  have p: "pmm_allocpage (pmm_init ?s) = (0x8000, snd (pmm_allocpage (pmm_init ?s)))"
    using pg.fst_alloc[OF ok(1)] ok(2) by (simp add: prod_eq_iff)
  have "memmap_ok sample_memmap"
    by (simp add: memmap_ok_def sample_memmap_def MEMMAP_USABLE_def MEMMAP_RESERVED_def)
  then have "0x8000 \<in> set (take STACK_SIZE (usable_pages sample_memmap))"
    using pmm_exclusive_ownership[OF _ _ rtranclp.rtrancl_refl p]
    by (simp add: boot_pmm_def)
  then show ?thesis using p by (simp add: usable_sample STACK_SIZE_numeral prod_eq_iff)
qed

text \<open>
  C38. Accounting: in every state reached from \<open>pmm_init\<close> (counters at zero before it) by
  allocations and frees, \<open>pmm_free_mem\<close> is the number of bytes on the free stack.
  \<open>pmm_used_mem\<close> is its negation modulo \<open>2 ^ 64\<close>: initialisation frees pages that were never
  counted as used, so the counter starts by wrapping below zero.
\<close>

theorem pmm_accounting:
  assumes "length (pmm_stack s) = STACK_SIZE" and "pmm_free_mem s = 0" and "pmm_used_mem s = 0"
    and "(page_step pmm_allocpage pmm_freepage)\<^sup>*\<^sup>* (pmm_init s, {}) (t, H)"
  shows "pmm_free_mem t = of_nat (length (free_pages t)) * 4096
    \<and> pmm_used_mem t = - (of_nat (length (free_pages t)) * 4096)"
proof -
  let ?s = "s\<lparr>pmm_stack_top := 0, pmm_initialized := True\<rparr>"
  have "pmm_ok ?s" "counters_ok ?s"
    using assms(1-3) by (simp_all add: pmm_ok_def counters_ok_def free_pages_def)
  then have "pmm_ok (pmm_init s) \<and> counters_ok (pmm_init s)"
    by (simp add: pmm_init_def counters_init_entries pmm_init_entries_pages)
  with counters_reachable[OF assms(4)] show ?thesis
    by (simp add: counters_ok_def PMM_BLOCK_SIZE_def)
qed

theorem pmm_accounting_witness:
  "pmm_used_mem (pmm_init (boot_pmm sample_memmap)) = - 12288"
proof -
  have "free_pages (pmm_init (boot_pmm sample_memmap)) = [0x8000, 0x2000, 0x1000]"
    using pmm_init_free_pages[of "boot_pmm sample_memmap"]
    by (simp add: boot_pmm_def usable_sample STACK_SIZE_numeral)
  then show ?thesis
    using pmm_accounting[of "boot_pmm sample_memmap", OF _ _ _ rtranclp.rtrancl_refl]
    by (simp add: boot_pmm_def)
qed

end
