(* ===== verification/PmmHeap.thy ===== *)
theory PmmHeap
  imports Pmm
begin

text \<open>
  The block heap of \<^verbatim>\<open>kernel/src/mm/pmm.c\<close>: \<open>pmm_alloc\<close>, \<open>pmm_free\<close> and \<open>pmm_realloc\<close>.
  A block starts with a 24-byte header in memory (size, next pointer, free flag); the headers form
  a linked list from \<open>pmm_free_blocks\<close>.  The loops that chase \<open>next\<close> pointers end only if the list
  does, so they are partial functions: \<open>None\<close> is "does not return".
\<close>

section \<open>Block headers\<close>

text \<open>\<open>struct pmm_memblk\<close>: \<open>size\<close> at offset 0, \<open>next\<close> at 8, \<open>is_free\<close> at 16; 24 bytes with padding.\<close>

definition sizeof_memblk :: u64 where "sizeof_memblk = 24"

definition blk_size :: "mem \<Rightarrow> ptr \<Rightarrow> u64" where "blk_size m b = load64 m b"
definition blk_next :: "mem \<Rightarrow> ptr \<Rightarrow> ptr" where "blk_next m b = load64 m (b + 8)"
definition blk_is_free :: "mem \<Rightarrow> ptr \<Rightarrow> bool" where "blk_is_free m b = load_bool m (b + 16)"

definition set_blk_size :: "ptr \<Rightarrow> u64 \<Rightarrow> mem \<Rightarrow> mem" where "set_blk_size b v m = store64 m b v"
definition set_blk_next :: "ptr \<Rightarrow> ptr \<Rightarrow> mem \<Rightarrow> mem" where "set_blk_next b v m = store64 m (b + 8) v"
definition set_blk_is_free :: "ptr \<Rightarrow> bool \<Rightarrow> mem \<Rightarrow> mem" where
  "set_blk_is_free b v m = store_bool m (b + 16) v"

lemmas blk_defs = blk_size_def blk_next_def blk_is_free_def
  set_blk_size_def set_blk_next_def set_blk_is_free_def

section \<open>Operations\<close>

partial_function (option) find_block :: "mem \<Rightarrow> u64 \<Rightarrow> ptr \<Rightarrow> ptr \<Rightarrow> (ptr \<times> ptr) option" where
  "find_block m sz block prev_block =
     (if block = NULL then Some (NULL, prev_block)
      else if blk_is_free m block \<and> blk_size m block \<ge> sz then Some (block, prev_block)
      else find_block m sz (blk_next m block) block)"

definition use_block :: "u64 \<Rightarrow> ptr \<Rightarrow> mem \<Rightarrow> mem" where
  "use_block sz block m0 =
     (let m1 = set_blk_is_free block False m0 in
      if blk_size m1 block > sz + sizeof_memblk then
        let new_block = block + sz;
            m2 = set_blk_size new_block (blk_size m1 block - sz) m1;
            m3 = set_blk_next new_block (blk_next m2 block) m2;
            m4 = set_blk_is_free new_block True m3;
            m5 = set_blk_size block sz m4
        in set_blk_next block new_block m5
      else m1)"

definition pmm_alloc :: "u64 \<Rightarrow> 'a pmm_scheme \<Rightarrow> (ptr \<times> 'a pmm_scheme) option" where
  "pmm_alloc size0 s =
     (if \<not> pmm_initialized s then Some (NULL, log_uninitialized s)
      else if size0 = 0 then Some (NULL, s)
      else let sz = size0 + sizeof_memblk in
        case find_block (mem s) sz (pmm_free_blocks s) NULL of
          None \<Rightarrow> None
        | Some (block, prev_block) \<Rightarrow>
            if block \<noteq> NULL
            then Some (block + sizeof_memblk, s\<lparr>mem := use_block sz block (mem s)\<rparr>)
            else let (block, s1) = pmm_allocpage s in
              if block = NULL then Some (NULL, s1)
              else let m1 = set_blk_size block sz (mem s1);
                       m2 = set_blk_is_free block False m1;
                       m3 = set_blk_next block NULL m2
                in if prev_block \<noteq> NULL
                   then Some (block + sizeof_memblk, s1\<lparr>mem := set_blk_next prev_block block m3\<rparr>)
                   else Some (block + sizeof_memblk, s1\<lparr>mem := m3, pmm_free_blocks := block\<rparr>))"

partial_function (option) coalesce :: "mem \<Rightarrow> ptr \<Rightarrow> mem option" where
  "coalesce m block =
     (let nx = blk_next m block in
      if nx \<noteq> NULL \<and> blk_is_free m nx then
        let m1 = set_blk_size block (blk_size m block + blk_size m nx) m
        in coalesce (set_blk_next block (blk_next m1 (blk_next m1 block)) m1) block
      else Some m)"

definition pmm_free :: "ptr \<Rightarrow> 'a pmm_scheme \<Rightarrow> 'a pmm_scheme option" where
  "pmm_free ptr s =
     (if \<not> pmm_initialized s then Some (log_uninitialized s)
      else if ptr = NULL then Some s
      else let block = ptr - sizeof_memblk in
        map_option (\<lambda>m. s\<lparr>mem := m\<rparr>) (coalesce (set_blk_is_free block True (mem s)) block))"

text \<open>
  \<open>pmm_realloc\<close> measures the old block by scanning its contents for a NUL byte.
\<close>

partial_function (option) scan_nul :: "mem \<Rightarrow> ptr \<Rightarrow> u64 \<Rightarrow> u64 option" where
  "scan_nul m temp_ptr old_size =
     (if m temp_ptr \<noteq> 0 then scan_nul m (temp_ptr + 1) (old_size + 1) else Some old_size)"

definition pmm_realloc :: "ptr \<Rightarrow> u64 \<Rightarrow> 'a pmm_scheme \<Rightarrow> (ptr \<times> 'a pmm_scheme) option" where
  "pmm_realloc ptr sz s =
     (if \<not> pmm_initialized s then Some (NULL, log_uninitialized s)
      else if sz = 0 then map_option (\<lambda>s'. (NULL, s')) (pmm_free ptr s)
      else case pmm_alloc sz s of
          None \<Rightarrow> None
        | Some (new_ptr, s1) \<Rightarrow>
            if new_ptr = NULL then Some (NULL, s1)
            else (case (if ptr \<noteq> NULL
                        then (case scan_nul (mem s1) ptr 0 of
                                None \<Rightarrow> None
                              | Some n \<Rightarrow> Some (s1\<lparr>mem := memcpy_loop (mem s1) new_ptr ptr 0 (n + 1)\<rparr>))
                        else Some s1) of
                    None \<Rightarrow> None
                  | Some s2 \<Rightarrow> map_option (\<lambda>s3. (new_ptr, s3)) (pmm_free ptr s2)))"

section \<open>The list of blocks\<close>

text \<open>A block as the specification sees it: where it starts, how long it is, whether it is free.\<close>

datatype blk = Blk (b_addr: ptr) (b_size: u64) (b_free: bool)

primrec heap_list :: "mem \<Rightarrow> ptr \<Rightarrow> blk list \<Rightarrow> bool" where
  "heap_list m p [] \<longleftrightarrow> p = NULL"
| "heap_list m p (b # bs) \<longleftrightarrow> p \<noteq> NULL \<and> p = b_addr b \<and> blk_size m p = b_size b
     \<and> blk_is_free m p = b_free b \<and> heap_list m (blk_next m p) bs"

definition blk_apart :: "blk \<Rightarrow> blk \<Rightarrow> bool" where
  "blk_apart b c \<longleftrightarrow> unat (b_addr b) + unat (b_size b) \<le> unat (b_addr c)
     \<or> unat (b_addr c) + unat (b_size c) \<le> unat (b_addr b)"

definition blk_valid :: "blk \<Rightarrow> bool" where
  "blk_valid b \<longleftrightarrow> 24 < unat (b_size b) \<and> unat (b_addr b) + unat (b_size b) \<le> 2 ^ 64"

definition blocks_ok :: "blk list \<Rightarrow> bool" where
  "blocks_ok bs \<longleftrightarrow> (\<forall>b \<in> set bs. blk_valid b) \<and> sorted_wrt blk_apart bs"

lemma blk_apart_sym: "blk_apart b c \<longleftrightarrow> blk_apart c b"
  by (auto simp: blk_apart_def)

lemma blocks_ok_Cons:
  "blocks_ok (b # bs) \<longleftrightarrow> blk_valid b \<and> (\<forall>c \<in> set bs. blk_apart b c) \<and> blocks_ok bs"
  by (auto simp: blocks_ok_def)

lemma blocks_ok_Nil [simp]: "blocks_ok []"
  by (simp add: blocks_ok_def)

lemma blocks_ok_snoc:
  "blocks_ok (bs @ [b]) \<longleftrightarrow> blocks_ok bs \<and> blk_valid b \<and> (\<forall>c \<in> set bs. blk_apart c b)"
  by (auto simp: blocks_ok_def sorted_wrt_append)

lemma header_apart:
  assumes "blk_apart b c" and "blk_valid b" and "blk_valid c"
  shows "disj_range (b_addr b) 24 (b_addr c) 24"
  using assms by (intro disj_range_nowrap) (auto simp: blk_apart_def blk_valid_def)

text \<open>Headers seen through a store elsewhere.\<close>

lemma header_same_outside:
  assumes "same_outside q n m m'" and "disj_range q n p 24" and "0 < n"
  shows "blk_size m' p = blk_size m p" "blk_next m' p = blk_next m p"
    "blk_is_free m' p = blk_is_free m p"
proof -
  have "disj_range q n p 8" "disj_range q n (p + 8) 8" "disj_range q n (p + 16) 1"
    using disj_range_subset[OF assms(2), of q n p 8] disj_range_subset[OF assms(2), of q n "p + 8" 8]
      disj_range_subset[OF assms(2), of q n "p + 16" 1] assms(3) by simp_all
  note d = this
  show "blk_size m' p = blk_size m p"
    unfolding blk_size_def by (rule load64_same_outside[OF assms(1) d(1)])
  show "blk_next m' p = blk_next m p"
    unfolding blk_next_def by (rule load64_same_outside[OF assms(1) d(2)])
  show "blk_is_free m' p = blk_is_free m p"
    unfolding blk_is_free_def by (rule load_bool_same_outside[OF assms(1) d(3)])
qed

lemma heap_list_same_outside:
  assumes "same_outside q n m m'" and "0 < n" and "\<forall>b \<in> set bs. disj_range q n (b_addr b) 24"
  shows "heap_list m' p bs = heap_list m p bs"
  using assms(3)
proof (induction bs arbitrary: p)
  case (Cons b bs)
  then have "disj_range q n (b_addr b) 24" by simp
  note same = header_same_outside[OF assms(1) this assms(2)]
  have "\<forall>c \<in> set bs. disj_range q n (b_addr c) 24" using Cons.prems by simp
  then have "heap_list m' r bs = heap_list m r bs" for r by (rule Cons.IH)
  with same show ?case by (cases "p = b_addr b") simp_all
qed simp

text \<open>Writes to the fields of one header, read back.\<close>

lemma blk_get_set [mem_simps]:
  "blk_size (set_blk_size b v m) b = v"
  "blk_next (set_blk_next b v m) b = v"
  "blk_is_free (set_blk_is_free b f m) b = f"
  "blk_next (set_blk_size b v m) b = blk_next m b"
  "blk_is_free (set_blk_size b v m) b = blk_is_free m b"
  "blk_size (set_blk_next b v m) b = blk_size m b"
  "blk_is_free (set_blk_next b v m) b = blk_is_free m b"
  "blk_size (set_blk_is_free b f m) b = blk_size m b"
  "blk_next (set_blk_is_free b f m) b = blk_next m b"
  by (simp_all add: blk_defs mem_simps)

lemma set_blk_local:
  assumes "same_outside b 24 m m'"
  shows "same_outside b 24 m (set_blk_size b v m')" "same_outside b 24 m (set_blk_next b v m')"
    "same_outside b 24 m (set_blk_is_free b f m')"
  using assms by (simp_all add: blk_defs same_outside_store64 same_outside_store_bool)

section \<open>First fit, abstractly\<close>

definition fits :: "u64 \<Rightarrow> blk \<Rightarrow> bool" where
  "fits sz b \<longleftrightarrow> b_free b \<and> sz \<le> b_size b"

text \<open>Carve \<open>sz\<close> bytes (header included) out of a block; the rest becomes a free block.\<close>

definition carve :: "u64 \<Rightarrow> blk \<Rightarrow> blk list" where
  "carve sz b =
     (if b_size b > sz + 24
      then [Blk (b_addr b) sz False, Blk (b_addr b + sz) (b_size b - sz) True]
      else [Blk (b_addr b) (b_size b) False])"

fun heap_take :: "u64 \<Rightarrow> blk list \<Rightarrow> (ptr \<times> blk list) option" where
  "heap_take sz [] = None"
| "heap_take sz (b # bs) =
     (if fits sz b then Some (b_addr b, carve sz b @ bs)
      else map_option (\<lambda>(r, bs'). (r, b # bs')) (heap_take sz bs))"

lemma heap_take_None: "heap_take sz bs = None \<longleftrightarrow> (\<forall>b \<in> set bs. \<not> fits sz b)"
  by (induction bs) auto

lemma heap_take_member:
  "heap_take sz bs = Some (r, bs') \<Longrightarrow> \<exists>c \<in> set bs. b_addr c = r \<and> fits sz c"
  by (induction bs arbitrary: bs') (auto split: if_splits)

lemma heap_list_member:
  "heap_list m p bs \<Longrightarrow> c \<in> set bs \<Longrightarrow> blk_size m (b_addr c) = b_size c \<and> b_addr c \<noteq> NULL"
  by (induction bs arbitrary: p) auto

lemma find_block_hit:
  "heap_list m p bs \<Longrightarrow> heap_take sz bs = Some (r, bs') \<Longrightarrow>
     \<exists>pv. find_block m sz p prev = Some (r, pv)"
proof (induction bs arbitrary: p prev bs')
  case (Cons b bs)
  then show ?case
    by (subst find_block.simps) (auto simp: fits_def split: if_splits)
qed simp

lemma find_block_miss:
  "heap_list m p bs \<Longrightarrow> heap_take sz bs = None \<Longrightarrow>
     find_block m sz p prev = Some (NULL, last (prev # map b_addr bs))"
proof (induction bs arbitrary: p prev)
  case Nil
  then show ?case by (subst find_block.simps) simp
next
  case (Cons b bs)
  then show ?case by (subst find_block.simps) (auto simp: fits_def split: if_splits)
qed

section \<open>Taking a block\<close>

lemma use_block_nosplit:
  assumes "\<not> blk_size m b > sz + 24"
  shows "use_block sz b m = set_blk_is_free b False m"
  using assms by (simp add: use_block_def Let_def sizeof_memblk_def mem_simps)

lemma use_block_split:
  assumes big: "blk_size m b > sz + 24" and no_ovf: "unat sz + 24 < 2 ^ 64" and "24 \<le> unat sz"
    and valid: "unat b + unat (blk_size m b) \<le> 2 ^ 64"
  shows "let m' = use_block sz b m in
     same_outside b (unat (blk_size m b)) m m'
     \<and> blk_size m' b = sz \<and> blk_next m' b = b + sz \<and> \<not> blk_is_free m' b
     \<and> blk_size m' (b + sz) = blk_size m b - sz \<and> blk_next m' (b + sz) = blk_next m b
     \<and> blk_is_free m' (b + sz)"
proof -
  let ?n = "b + sz" and ?z = "blk_size m b"
  have lt: "unat sz + 24 < unat ?z"
    using big no_ovf unat_plus_small[of sz 24] by (simp add: word_less_nat_alt)
  have un: "unat ?n = unat b + unat sz"
    using lt valid by (intro unat_plus_small) linarith
  have dn: "disj_range ?n 24 b 24" and dn': "disj_range b 24 ?n 24"
    using un lt valid assms(3) by (auto intro!: disj_range_nowrap)
  define m1 where "m1 = set_blk_is_free b False m"
  define m4 where "m4 = set_blk_is_free ?n True (set_blk_next ?n (blk_next m b) (set_blk_size ?n (?z - sz) m1))"
  define m6 where "m6 = set_blk_next b ?n (set_blk_size b sz m4)"
  have loc1: "same_outside b 24 m m1" unfolding m1_def by (intro set_blk_local) simp
  have loc4: "same_outside ?n 24 m1 m4" unfolding m4_def by (intro set_blk_local) simp
  have loc6: "same_outside b 24 m4 m6" unfolding m6_def by (intro set_blk_local) simp
  note h1 = header_same_outside[OF loc4 dn] and h2 = header_same_outside[OF loc6 dn']
  have m1: "blk_size m1 b = ?z" "blk_next m1 b = blk_next m b" "\<not> blk_is_free m1 b"
    by (simp_all add: m1_def mem_simps)
  have "blk_next (set_blk_size ?n (?z - sz) m1) b = blk_next m b"
    using header_same_outside(2)[OF set_blk_local(1)[OF same_outside_refl] dn] m1(2) by simp
  then have eq: "use_block sz b m = m6"
    using big m1 by (simp add: use_block_def Let_def sizeof_memblk_def m1_def[symmetric] m4_def m6_def)
  have "same_outside b (unat ?z) m m6"
    unfolding same_outside_def
  proof (intro allI impI)
    fix x assume x: "\<not> in_range b (unat ?z) x"
    have "\<not> in_range b 24 x" using x lt by (auto simp: in_range_def)
    moreover have "\<not> in_range ?n 24 x"
      using x lt in_range_shift[of ?n 24 x b "unat ?z"] by auto
    ultimately show "m6 x = m x" using loc1 loc4 loc6 by (simp add: same_outside_def)
  qed
  then show ?thesis
    unfolding eq Let_def using m1 h1 h2
    by (simp add: m6_def m4_def mem_simps)
qed

text \<open>The request sizes the proofs cover: the additions of \<open>pmm_alloc\<close> do not wrap.\<close>

definition size_ok :: "u64 \<Rightarrow> bool" where
  "size_ok sz \<longleftrightarrow> 24 < unat sz \<and> unat sz + 24 < 2 ^ 64"

lemma carve_split_iff:
  assumes "size_ok sz"
  shows "z > sz + 24 \<longleftrightarrow> unat sz + 24 < unat z"
  using assms unat_plus_small[of sz 24] by (simp add: size_ok_def word_less_nat_alt)

text \<open>Every part of a carved block lies inside it.\<close>

lemma carve_inside:
  assumes "size_ok sz" and "blk_valid b" and "c \<in> set (carve sz b)"
  shows "blk_valid c \<and> unat (b_addr b) \<le> unat (b_addr c)
    \<and> unat (b_addr c) + unat (b_size c) \<le> unat (b_addr b) + unat (b_size b)"
proof (cases "b_size b > sz + 24")
  case True
  then have lt: "unat sz + 24 < unat (b_size b)" using carve_split_iff[OF assms(1)] by simp
  then have "unat (b_addr b + sz) = unat (b_addr b) + unat sz"
    using assms(2) by (intro unat_plus_small) (auto simp: blk_valid_def)
  moreover have "unat (b_size b - sz) = unat (b_size b) - unat sz"
    using lt by (intro unat_minus_le) (simp add: word_le_nat_alt)
  ultimately show ?thesis
    using assms lt True by (auto simp: carve_def blk_valid_def size_ok_def)
next
  case False
  with assms show ?thesis by (simp add: carve_def blk_valid_def)
qed

lemma carve_apart:
  assumes "size_ok sz" and "blk_valid b" and "blk_apart d b" and "c \<in> set (carve sz b)"
  shows "blk_apart d c"
  using carve_inside[OF assms(1,2,4)] assms(3) by (auto simp: blk_apart_def)

lemma carve_blocks_ok:
  assumes "size_ok sz" and "blk_valid b"
  shows "blocks_ok (carve sz b)"
proof (cases "b_size b > sz + 24")
  case True
  then have lt: "unat sz + 24 < unat (b_size b)" using carve_split_iff[OF assms(1)] by simp
  then have "unat (b_addr b + sz) = unat (b_addr b) + unat sz"
    using assms(2) by (intro unat_plus_small) (auto simp: blk_valid_def)
  then show ?thesis
    using True carve_inside[OF assms] by (auto simp: carve_def blocks_ok_def blk_apart_def)
next
  case False
  then show ?thesis using carve_inside[OF assms] by (auto simp: carve_def blocks_ok_def)
qed

lemma blocks_ok_append:
  "blocks_ok (xs @ ys) \<longleftrightarrow> blocks_ok xs \<and> blocks_ok ys \<and> (\<forall>x \<in> set xs. \<forall>y \<in> set ys. blk_apart x y)"
  by (auto simp: blocks_ok_def sorted_wrt_append)

lemma heap_take_apart:
  assumes "size_ok sz" and "heap_take sz bs = Some (r, bs')"
  shows "\<forall>b \<in> set bs. blk_valid b \<and> blk_apart d b \<Longrightarrow> \<forall>c \<in> set bs'. blk_apart d c"
  using assms(2)
proof (induction bs arbitrary: bs')
  case (Cons b bs)
  then show ?case
    using carve_apart[OF assms(1), of b d] by (auto split: if_splits)
qed simp

lemma heap_take_blocks_ok:
  assumes "size_ok sz"
  shows "heap_take sz bs = Some (r, bs') \<Longrightarrow> blocks_ok bs \<Longrightarrow> blocks_ok bs'"
proof (induction bs arbitrary: bs')
  case (Cons b bs)
  show ?case
  proof (cases "fits sz b")
    case True
    have b: "blk_valid b" "\<forall>y \<in> set bs. blk_apart b y" "blocks_ok bs"
      using Cons.prems(2) by (simp_all add: blocks_ok_Cons)
    then have "\<forall>x \<in> set (carve sz b). \<forall>y \<in> set bs. blk_apart x y"
      using carve_apart[OF assms b(1)] blk_apart_sym by blast
    with True Cons.prems(1) b carve_blocks_ok[OF assms b(1)] show ?thesis
      by (auto simp: blocks_ok_append)
  next
    case False
    then obtain bs1 where bs1: "heap_take sz bs = Some (r, bs1)" "bs' = b # bs1"
      using Cons.prems by auto
    have "\<forall>c \<in> set bs1. blk_apart b c"
      using heap_take_apart[OF assms bs1(1), of b] Cons.prems(2)
      by (auto simp: blocks_ok_Cons) (auto simp: blocks_ok_def)
    with Cons.IH[OF bs1(1)] Cons.prems(2) bs1(2) show ?thesis by (simp add: blocks_ok_Cons)
  qed
qed simp

lemma use_block_same_outside:
  assumes "size_ok sz" and "blk_valid (Blk b (blk_size m b) f)"
  shows "same_outside b (unat (blk_size m b)) m (use_block sz b m)"
proof (cases "blk_size m b > sz + 24")
  case True
  then show ?thesis
    using use_block_split[of sz m b] assms by (simp add: Let_def size_ok_def blk_valid_def)
next
  case False
  have "same_outside b 24 m (set_blk_is_free b False m)" by (simp add: set_blk_local)
  with False assms(2) show ?thesis
    by (auto simp: use_block_nosplit same_outside_def in_range_def blk_valid_def)
qed

text \<open>Taking a block writes headers only: the bytes the caller receives keep their values.\<close>

lemma use_block_payload:
  assumes "size_ok sz" and "unat b + unat (blk_size m b) \<le> 2 ^ 64" and "in_range (b + 24) (unat sz - 24) x"
    and "sz \<le> blk_size m b"
  shows "use_block sz b m x = m x"
proof -
  let ?n = "b + sz" and ?z = "blk_size m b"
  have sz: "24 < unat sz" "unat sz + 24 < 2 ^ 64" using assms(1) by (simp_all add: size_ok_def)
  have room: "unat b + unat sz \<le> 2 ^ 64" using assms(2,4) by (simp add: word_le_nat_alt)
  then have b24: "unat (b + 24) = unat b + 24" using sz(1) by (intro unat_plus_small[of b 24, simplified]) simp
  have x: "unat b + 24 \<le> unat x" "unat x < unat b + unat sz"
    using assms(3) in_range_nowrap[of "b + 24" "unat sz - 24" x] b24 room sz(1) by auto
  have hd: "\<not> in_range b 24 x" using x in_range_nowrap[of b 24 x] room sz(1) by simp
  have flag: "set_blk_is_free b False m x = m x"
    using hd set_blk_local(3)[OF same_outside_refl, of b m False] by (simp add: same_outside_def)
  show ?thesis
  proof (cases "?z > sz + 24")
    case False
    then show ?thesis using flag by (simp add: use_block_nosplit)
  next
    case True
    then have lt: "unat sz + 24 < unat ?z" using carve_split_iff[OF assms(1)] by simp
    have "unat ?n = unat b + unat sz" using lt assms(2) by (intro unat_plus_small) linarith
    then have tl: "\<not> in_range ?n 24 x" using x in_range_nowrap[of ?n 24 x] lt assms(2) by simp
    have "same_outside ?n 24 m1 (set_blk_is_free ?n True (set_blk_next ?n v (set_blk_size ?n w m1)))" for v w m1
      by (intro set_blk_local) simp
    moreover have "same_outside b 24 m4 (set_blk_next b ?n (set_blk_size b sz m4))" for m4
      by (intro set_blk_local) simp
    ultimately show ?thesis
      using True flag hd tl
      by (simp add: use_block_def Let_def sizeof_memblk_def mem_simps same_outside_def)
  qed
qed

lemma use_block_head:
  assumes "size_ok sz" and "heap_list m p (b # bs)" and "blocks_ok (b # bs)"
  shows "heap_list (use_block sz p m) p (carve sz b @ bs)"
proof -
  have h: "p = b_addr b" "p \<noteq> NULL" "blk_size m p = b_size b" and rest: "heap_list m (blk_next m p) bs"
    using assms(2) by auto
  have v: "blk_valid b" using assms(3) by (simp add: blocks_ok_Cons)
  have so: "same_outside p (unat (b_size b)) m (use_block sz p m)"
    using use_block_same_outside[OF assms(1), of p m True] h v by (simp add: blk_valid_def)
  have "\<forall>c \<in> set bs. disj_range p (unat (b_size b)) (b_addr c) 24"
  proof
    fix c assume "c \<in> set bs"
    then have "blk_apart b c" "blk_valid c" using assms(3) by (auto simp: blocks_ok_def)
    with v h show "disj_range p (unat (b_size b)) (b_addr c) 24"
      by (intro disj_range_nowrap) (auto simp: blk_apart_def blk_valid_def)
  qed
  then have rest': "heap_list (use_block sz p m) q bs = heap_list m q bs" for q
    using heap_list_same_outside[OF so] v by (simp add: blk_valid_def)
  show ?thesis
  proof (cases "b_size b > sz + 24")
    case True
    have "p + sz \<noteq> 0"
    proof
      assume "p + sz = 0"
      then have "unat (p + sz) = 0" by simp
      moreover have "unat (p + sz) = unat p + unat sz"
        using True v h carve_split_iff[OF assms(1)]
        by (intro unat_plus_small) (auto simp: blk_valid_def)
      ultimately show False using h(2) by (simp add: unat_gt_0[symmetric])
    qed
    with True show ?thesis
      using use_block_split[of sz m p] assms(1) h v rest rest'
      by (simp add: carve_def Let_def size_ok_def blk_valid_def)
  next
    case False
    then have "use_block sz p m = set_blk_is_free p False m" using h by (simp add: use_block_nosplit)
    with False h rest rest' show ?thesis by (simp add: carve_def mem_simps)
  qed
qed

lemma use_block_list:
  assumes "size_ok sz"
  shows "heap_list m p bs \<Longrightarrow> blocks_ok bs \<Longrightarrow> heap_take sz bs = Some (r, bs')
    \<Longrightarrow> heap_list (use_block sz r m) p bs'"
proof (induction bs arbitrary: p bs')
  case (Cons b bs)
  show ?case
  proof (cases "fits sz b")
    case True
    then show ?thesis using use_block_head[OF assms Cons.prems(1,2)] Cons.prems by auto
  next
    case False
    then obtain bs1 where bs1: "heap_take sz bs = Some (r, bs1)" "bs' = b # bs1"
      using Cons.prems by auto
    have ok: "blocks_ok bs" "blk_valid b" using Cons.prems(2) by (simp_all add: blocks_ok_Cons)
    have IH: "heap_list (use_block sz r m) (blk_next m p) bs1"
      using Cons.IH[OF _ ok(1) bs1(1)] Cons.prems(1) by auto
    obtain c where c: "c \<in> set bs" "b_addr c = r" using heap_take_member[OF bs1(1)] by auto
    have sc: "blk_size m r = b_size c"
      using heap_list_member[of m "blk_next m p" bs c] Cons.prems(1) c by auto
    have vc: "blk_valid c" "blk_apart b c" using c Cons.prems(2) by (auto simp: blocks_ok_def)
    have so: "same_outside r (unat (b_size c)) m (use_block sz r m)"
      using use_block_same_outside[OF assms, of r m True] vc c sc by (simp add: blk_valid_def)
    have "disj_range r (unat (b_size c)) p 24"
      using vc ok(2) c Cons.prems(1) by (intro disj_range_nowrap) (auto simp: blk_valid_def blk_apart_def)
    with header_same_outside[OF so] vc(1)
    have "blk_size (use_block sz r m) p = blk_size m p" "blk_next (use_block sz r m) p = blk_next m p"
      "blk_is_free (use_block sz r m) p = blk_is_free m p" by (simp_all add: blk_valid_def)
    with IH Cons.prems(1) bs1(2) show ?thesis by auto
  qed
qed simp

section \<open>Adding a page\<close>

lemma heap_list_append_last:
  assumes "heap_list m q [new]"
  shows "heap_list m p bs \<Longrightarrow> blocks_ok bs \<Longrightarrow> bs \<noteq> []
    \<Longrightarrow> disj_range (b_addr (last bs)) 24 q 24
    \<Longrightarrow> heap_list (set_blk_next (b_addr (last bs)) q m) p (bs @ [new])"
proof (induction bs arbitrary: p)
  case (Cons b bs)
  let ?l = "b_addr (last (b # bs))"
  let ?m = "set_blk_next ?l q m"
  have so: "same_outside ?l 24 m ?m" by (simp add: set_blk_local)
  show ?case
  proof (cases "bs = []")
    case True
    have "heap_list ?m q [new]"
      using assms heap_list_same_outside[OF so, of "[new]" q] Cons.prems(4) by auto
    with True Cons.prems(1) show ?thesis by (auto simp: mem_simps)
  next
    case False
    then have "last bs \<in> set bs" by simp
    then have "blk_apart (last bs) b" "blk_valid (last bs)" "blk_valid b"
      using Cons.prems(2) blk_apart_sym by (auto simp: blocks_ok_def)
    then have "disj_range (b_addr (last bs)) 24 (b_addr b) 24" by (rule header_apart)
    with header_same_outside[OF so] False
    have "blk_size ?m (b_addr b) = blk_size m (b_addr b)" "blk_next ?m (b_addr b) = blk_next m (b_addr b)"
      "blk_is_free ?m (b_addr b) = blk_is_free m (b_addr b)" by simp_all
    moreover have "heap_list (set_blk_next (b_addr (last bs)) q m) (blk_next m p) (bs @ [new])"
      using Cons.prems False by (intro Cons.IH) (auto simp: blocks_ok_Cons)
    ultimately show ?thesis using False Cons.prems(1) by auto
  qed
qed simp

text \<open>Pages, the addresses they cover, and blocks that stay inside them.\<close>

definition in_pages :: "ptr set \<Rightarrow> nat \<Rightarrow> bool" where
  "in_pages P x \<longleftrightarrow> (\<exists>p \<in> P. unat p \<le> x \<and> x < unat p + 4096)"

definition blk_covered :: "ptr set \<Rightarrow> blk \<Rightarrow> bool" where
  "blk_covered P b \<longleftrightarrow>
     (\<forall>x. unat (b_addr b) \<le> x \<and> x < unat (b_addr b) + unat (b_size b) \<longrightarrow> in_pages P x)"

definition pages_ok :: "ptr set \<Rightarrow> bool" where
  "pages_ok P \<longleftrightarrow> (\<forall>p \<in> P. 0 < unat p \<and> unat p mod 4096 = 0)"

lemma fresh_page_apart:
  assumes "pages_ok (insert q P)" and "q \<notin> P" and "blk_covered P b" and "blk_valid b"
    and "24 \<le> unat sz" and "unat sz \<le> 4096"
  shows "blk_apart b (Blk q sz f)"
proof (rule ccontr)
  assume "\<not> blk_apart b (Blk q sz f)"
  then obtain x where x: "unat (b_addr b) \<le> x" "x < unat (b_addr b) + unat (b_size b)"
      "unat q \<le> x" "x < unat q + unat sz"
    using assms(4,5) that[of "max (unat (b_addr b)) (unat q)"]
    by (auto simp: blk_apart_def blk_valid_def not_le max_def split: if_splits)
  then obtain p where "p \<in> P" "unat p \<le> x" "x < unat p + 4096"
    using assms(3) by (auto simp: blk_covered_def in_pages_def)
  with x assms(1,2,6) page_clash[of p q x] show False by (auto simp: pages_ok_def)
qed

section \<open>The heap invariant\<close>

text \<open>
  \<open>P\<close> are the pages the heap holds.  The blocks form a terminated list of pairwise disjoint blocks
  inside those pages, and the page allocator does not offer any of these pages again.
\<close>

definition heap_inv :: "'a pmm_scheme \<Rightarrow> ptr set \<Rightarrow> blk list \<Rightarrow> bool" where
  "heap_inv s P bs \<longleftrightarrow> pmm_ok s \<and> heap_list (mem s) (pmm_free_blocks s) bs \<and> blocks_ok bs
     \<and> (\<forall>b \<in> set bs. blk_covered P b) \<and> pages_ok (set (free_pages s) \<union> P)
     \<and> distinct (free_pages s) \<and> set (free_pages s) \<inter> P = {}"

definition live :: "blk list \<Rightarrow> blk list" where
  "live bs = filter (\<lambda>b. \<not> b_free b) bs"

text \<open>The bytes of the allocated blocks behind their headers are unchanged.\<close>

definition payload_kept :: "blk list \<Rightarrow> mem \<Rightarrow> mem \<Rightarrow> bool" where
  "payload_kept bs m m' \<longleftrightarrow>
     (\<forall>b \<in> set (live bs). \<forall>x. in_range (b_addr b) (unat (b_size b)) x
        \<and> \<not> in_range (b_addr b) 24 x \<longrightarrow> m' x = m x)"

lemma payload_kept_other:
  assumes "same_outside q n m m'" and "0 < n"
    and "\<forall>b \<in> set (live bs). disj_range q n (b_addr b) (unat (b_size b))"
  shows "payload_kept bs m m'"
  using assms unfolding payload_kept_def same_outside_def by (meson disj_rangeD disj_range_sym)

lemma payload_kept_header:
  assumes "same_outside q 24 m m'" and "blocks_ok bs" and "b \<in> set bs" and "b_addr b = q"
  shows "payload_kept bs m m'"
  unfolding payload_kept_def
proof (intro ballI allI impI, elim conjE)
  fix c x assume c: "c \<in> set (live bs)" and x: "in_range (b_addr c) (unat (b_size c)) x"
    "\<not> in_range (b_addr c) 24 x"
  have "\<not> in_range q 24 x"
  proof (cases "c = b")
    case True
    with x assms(4) show ?thesis by simp
  next
    case False
    have "c \<in> set bs" using c by (simp add: live_def)
    with False assms(2,3) have "blk_apart c b"
      unfolding blocks_ok_def by (metis blk_apart_sym in_set_conv_nth linorder_neqE_nat sorted_wrt_iff_nth_less)
    moreover have "blk_valid c" "blk_valid b" using assms(2,3) \<open>c \<in> set bs\<close> by (auto simp: blocks_ok_def)
    ultimately have "disj_range (b_addr c) (unat (b_size c)) q 24"
      using assms(4) by (intro disj_range_nowrap) (auto simp: blk_apart_def blk_valid_def)
    with x show ?thesis by (meson disj_rangeD)
  qed
  with assms(1) show "m' x = m x" by (simp add: same_outside_def)
qed

lemma payload_kept_trans:
  "payload_kept bs m m' \<Longrightarrow> payload_kept bs m' m'' \<Longrightarrow> payload_kept bs m m''"
  by (simp add: payload_kept_def)

section \<open>Allocation\<close>

lemma pmm_state_mem [simp]:
  "pmm_ok (s\<lparr>mem := m\<rparr>) = pmm_ok s" "free_pages (s\<lparr>mem := m\<rparr>) = free_pages s"
  "pmm_ok (s\<lparr>pmm_free_blocks := p\<rparr>) = pmm_ok s"
  "free_pages (s\<lparr>pmm_free_blocks := p\<rparr>) = free_pages s"
  by (simp_all add: pmm_ok_def free_pages_def)

lemma pmm_allocpage_frame [simp, frame_simps]:
  "mem (snd (pmm_allocpage s)) = mem s"
  "pmm_free_blocks (snd (pmm_allocpage s)) = pmm_free_blocks s"
  by (simp_all add: pmm_allocpage_def Let_def log_uninitialized_def) (simp_all add: emit_def)

lemma pmm_freepage_frame [simp, frame_simps]:
  "mem (pmm_freepage p s) = mem s" "pmm_free_blocks (pmm_freepage p s) = pmm_free_blocks s"
  by (simp_all add: pmm_freepage_def log_uninitialized_def) (simp_all add: emit_def)

lemma carve_covered:
  assumes "size_ok sz" and "blk_valid b" and "blk_covered P b" and "c \<in> set (carve sz b)"
  shows "blk_covered P c"
  using carve_inside[OF assms(1,2,4)] assms(3) by (auto simp: blk_covered_def)

lemma heap_take_covered:
  assumes "size_ok sz" and "heap_take sz bs = Some (r, bs')"
    and "\<forall>b \<in> set bs. blk_valid b \<and> blk_covered P b"
  shows "\<forall>c \<in> set bs'. blk_covered P c"
  using assms(2,3)
proof (induction bs arbitrary: bs')
  case (Cons b bs)
  then show ?case using carve_covered[OF assms(1), of b P] by (auto split: if_splits)
qed simp

lemma heap_take_live:
  "heap_take sz bs = Some (r, bs') \<Longrightarrow> set (live bs) \<subseteq> set bs'"
  by (induction bs arbitrary: bs') (auto simp: live_def fits_def split: if_splits)

lemma heap_take_result:
  assumes "size_ok sz"
  shows "heap_take sz bs = Some (r, bs') \<Longrightarrow> \<exists>z. Blk r z False \<in> set bs' \<and> sz \<le> z"
proof (induction bs arbitrary: bs')
  case (Cons b bs)
  show ?case
  proof (cases "fits sz b")
    case True
    then show ?thesis
      using Cons.prems by (cases "b_size b > sz + 24") (auto simp: carve_def fits_def)
  next
    case False
    then show ?thesis using Cons by auto
  qed
qed simp

text \<open>The heap after a successful first fit.\<close>

lemma pmm_alloc_fit:
  assumes inv: "heap_inv s P bs" and sz: "n \<noteq> 0" "size_ok (n + 24)"
    and hit: "heap_take (n + 24) bs = Some (r, bs')"
  shows "pmm_alloc n s = Some (r + 24, s\<lparr>mem := use_block (n + 24) r (mem s)\<rparr>)
    \<and> heap_inv (s\<lparr>mem := use_block (n + 24) r (mem s)\<rparr>) P bs'
    \<and> payload_kept bs (mem s) (use_block (n + 24) r (mem s))"
proof -
  have hl: "heap_list (mem s) (pmm_free_blocks s) bs" and ok: "blocks_ok bs" "pmm_ok s"
    using inv by (simp_all add: heap_inv_def)
  obtain c where c: "c \<in> set bs" "b_addr c = r" "b_free c"
    using heap_take_member[OF hit] by (auto simp: fits_def)
  have r: "r \<noteq> NULL" "blk_size (mem s) r = b_size c" using heap_list_member[OF hl c(1)] c(2) by auto
  have vc: "blk_valid c" using c(1) ok(1) by (auto simp: blocks_ok_def)
  obtain pv where "find_block (mem s) (n + 24) (pmm_free_blocks s) NULL = Some (r, pv)"
    using find_block_hit[OF hl hit] by blast
  then have eq: "pmm_alloc n s = Some (r + 24, s\<lparr>mem := use_block (n + 24) r (mem s)\<rparr>)"
    using ok(2) sz(1) r(1) by (simp add: pmm_alloc_def pmm_ok_def sizeof_memblk_def Let_def)
  have so: "same_outside r (unat (b_size c)) (mem s) (use_block (n + 24) r (mem s))"
    using use_block_same_outside[OF sz(2), of r "mem s" True] vc r c(2) by (simp add: blk_valid_def)
  have "payload_kept bs (mem s) (use_block (n + 24) r (mem s))"
  proof (rule payload_kept_other[OF so])
    show "0 < unat (b_size c)" using vc by (simp add: blk_valid_def)
    show "\<forall>b \<in> set (live bs). disj_range r (unat (b_size c)) (b_addr b) (unat (b_size b))"
    proof
      fix b assume b: "b \<in> set (live bs)"
      then have "b \<in> set bs" "b \<noteq> c" using c(3) by (auto simp: live_def)
      then have "blk_apart b c" "blk_valid b"
        using ok(1) c(1) unfolding blocks_ok_def
        by (metis blk_apart_sym in_set_conv_nth linorder_neqE_nat sorted_wrt_iff_nth_less, blast)
      with vc c(2) show "disj_range r (unat (b_size c)) (b_addr b) (unat (b_size b))"
        by (intro disj_range_nowrap) (auto simp: blk_apart_def blk_valid_def)
    qed
  qed
  moreover have "heap_inv (s\<lparr>mem := use_block (n + 24) r (mem s)\<rparr>) P bs'"
    using inv use_block_list[OF sz(2) hl ok(1) hit] heap_take_blocks_ok[OF sz(2) hit ok(1)]
      heap_take_covered[OF sz(2) hit, of P] by (simp add: heap_inv_def blocks_ok_def)
  ultimately show ?thesis using eq by simp
qed

lemma pmm_alloc_exhausted:
  assumes inv: "heap_inv s P bs" and "n \<noteq> 0" and miss: "heap_take (n + 24) bs = None"
    and "free_pages s = []"
  shows "pmm_alloc n s = Some (NULL, s)"
proof -
  have "pmm_ok s" "heap_list (mem s) (pmm_free_blocks s) bs" using inv by (simp_all add: heap_inv_def)
  with assms show ?thesis
    by (simp add: pmm_alloc_def pmm_ok_def sizeof_memblk_def Let_def find_block_miss
        pg.alloc_empty)
qed

text \<open>A page the heap does not hold yet meets none of its blocks.\<close>

lemma fresh_page_disj:
  assumes "pages_ok (insert q P)" and "q \<notin> P" and "blk_covered P b" and "blk_valid b"
  shows "disj_range q 24 (b_addr b) 24" and "disj_range q 24 (b_addr b) (unat (b_size b))"
    and "disj_range (q + 24) 4072 (b_addr b) 24"
proof -
  have "unat q mod 4096 = 0" using assms(1) by (simp add: pages_ok_def)
  moreover have "blk_apart b (Blk q 4096 False)" using fresh_page_apart[OF assms, of 4096] by simp
  ultimately have d: "disj_range q 4096 (b_addr b) (unat (b_size b))"
    using assms(4) aligned_le[of q] by (intro disj_range_nowrap) (auto simp: blk_apart_def blk_valid_def)
  note sub = disj_range_subset[OF d _ _]
  have "24 < unat (b_size b)" using assms(4) by (simp add: blk_valid_def)
  then show "disj_range q 24 (b_addr b) 24" "disj_range q 24 (b_addr b) (unat (b_size b))"
    "disj_range (q + 24) 4072 (b_addr b) 24" by (auto intro!: sub)
qed

text \<open>The memory after a fresh page became the last block of the list.\<close>

definition fresh_block :: "ptr \<Rightarrow> u64 \<Rightarrow> mem \<Rightarrow> mem" where
  "fresh_block q sz m = set_blk_next q NULL (set_blk_is_free q False (set_blk_size q sz m))"

definition link_last :: "blk list \<Rightarrow> ptr \<Rightarrow> mem \<Rightarrow> mem" where
  "link_last bs q m = (if bs = [] then m else set_blk_next (b_addr (last bs)) q m)"

lemma link_fresh_block:
  fixes sz :: u64
  assumes hl: "heap_list m p bs" and ok: "blocks_ok bs" and q: "q \<noteq> NULL" "q \<notin> P"
    and po: "pages_ok (insert q P)" and cov: "\<forall>b \<in> set bs. blk_covered P b"
  defines "m' \<equiv> link_last bs q (fresh_block q sz m)"
  shows "heap_list m' (if bs = [] then q else p) (bs @ [Blk q sz False])"
    and "payload_kept bs m m'" and "\<forall>x. in_range (q + 24) 4072 x \<longrightarrow> m' x = m x"
proof -
  let ?m = "fresh_block q sz m" and ?l = "last bs"
  have so: "same_outside q 24 m ?m" unfolding fresh_block_def by (intro set_blk_local) simp
  have d: "disj_range q 24 (b_addr b) 24" "disj_range q 24 (b_addr b) (unat (b_size b))"
    "disj_range (q + 24) 4072 (b_addr b) 24" if "b \<in> set bs" for b
    using fresh_page_disj[OF po q(2), of b] that cov ok by (auto simp: blocks_ok_def)
  have hl3: "heap_list ?m p bs" using heap_list_same_outside[OF so, of bs] d(1) hl by simp
  have new: "heap_list ?m q [Blk q sz False]" using q(1) by (simp add: fresh_block_def mem_simps)
  have "payload_kept bs m ?m" using d(2) by (intro payload_kept_other[OF so]) (auto simp: live_def)
  note kept = payload_kept_trans[OF this]
  have so': "bs \<noteq> [] \<Longrightarrow> same_outside (b_addr ?l) 24 ?m m'" by (simp add: m'_def link_last_def set_blk_local)
  show "heap_list m' (if bs = [] then q else p) (bs @ [Blk q sz False])"
    using new heap_list_append_last[OF new hl3 ok] d(1)[of ?l] disj_range_sym[of q 24]
    by (cases "bs = []") (simp_all add: m'_def link_last_def)
  show "payload_kept bs m m'"
    using kept payload_kept_header[OF so' ok, of ?l] \<open>payload_kept bs m ?m\<close>
    by (cases "bs = []") (simp_all add: m'_def link_last_def)
  show "\<forall>x. in_range (q + 24) 4072 x \<longrightarrow> m' x = m x"
  proof (intro allI impI)
    fix x assume x: "in_range (q + 24) 4072 x"
    have "\<not> in_range q 24 x" using x disj_rangeD[of "q + 24" 4072 q 24 x] by (simp add: mem_simps)
    moreover have "bs \<noteq> [] \<Longrightarrow> \<not> in_range (b_addr ?l) 24 x" using disj_rangeD[OF d(3)[of ?l] x] by simp
    ultimately show "m' x = m x"
      using so so' by (cases "bs = []") (simp_all add: same_outside_def m'_def link_last_def)
  qed
qed

text \<open>The heap after taking a fresh page.  The block may be at most one page long.\<close>

lemma pmm_alloc_page:
  assumes inv: "heap_inv s P bs" and sz: "n \<noteq> 0" "size_ok (n + 24)"
    and miss: "heap_take (n + 24) bs = None" and pages: "free_pages s = q # ps"
  shows "\<exists>m'. let s' = (snd (pmm_allocpage s))
        \<lparr>mem := m', pmm_free_blocks := (if bs = [] then q else pmm_free_blocks s)\<rparr> in
     pmm_alloc n s = Some (q + 24, s')
     \<and> heap_list m' (pmm_free_blocks s') (bs @ [Blk q (n + 24) False])
     \<and> free_pages s' = ps \<and> pmm_ok s' \<and> payload_kept bs (mem s) m'
     \<and> (\<forall>x. in_range (q + 24) 4072 x \<longrightarrow> m' x = mem s x)"
proof -
  have hl: "heap_list (mem s) (pmm_free_blocks s) bs" and ok: "blocks_ok bs" "pmm_ok s"
    and cov: "\<forall>b \<in> set bs. blk_covered P b" and po: "pages_ok (insert q P)" and "q \<notin> P"
    using inv pages by (auto simp: heap_inv_def pages_ok_def)
  have q: "q \<noteq> NULL" using po by (auto simp: pages_ok_def)
  obtain s1 where page: "pmm_allocpage s = (q, s1)"
    using pg.fst_alloc[OF ok(2)] pages by (cases "pmm_allocpage s") simp
  have s1: "mem s1 = mem s" "pmm_free_blocks s1 = pmm_free_blocks s"
    using pmm_allocpage_frame[of s] page by simp_all
  have ok': "pmm_ok s1" "free_pages s1 = ps"
    using pg.inv_alloc[OF ok(2)] pg.pages_alloc[OF ok(2)] pages page by simp_all
  have fb: "find_block (mem s) (n + 24) (pmm_free_blocks s) NULL
      = Some (NULL, last (NULL # map b_addr bs))"
    using hl miss by (rule find_block_miss)
  have l0: "last (NULL # map b_addr bs) = (if bs = [] then NULL else b_addr (last bs))"
    by (simp add: last_map)
  have "bs \<noteq> [] \<Longrightarrow> b_addr (last bs) \<noteq> NULL" using heap_list_member[OF hl] last_in_set by blast
  then have "pmm_alloc n s = Some (q + 24, s1\<lparr>mem := link_last bs q (fresh_block q (n + 24) (mem s)),
      pmm_free_blocks := (if bs = [] then q else pmm_free_blocks s)\<rparr>)"
    using fb l0 sz ok(2) q s1
    by (simp add: pmm_alloc_def pmm_ok_def sizeof_memblk_def Let_def page link_last_def fresh_block_def)
  with link_fresh_block[OF hl ok(1) q \<open>q \<notin> P\<close> po cov, of "n + 24"] ok' page show ?thesis
    by (intro exI[of _ "link_last bs q (fresh_block q (n + 24) (mem s))"]) (simp add: Let_def)
qed

section \<open>Release\<close>

fun absorb :: "blk \<Rightarrow> blk list \<Rightarrow> blk list" where
  "absorb b [] = [b]"
| "absorb b (c # cs) =
     (if b_free c then absorb (Blk (b_addr b) (b_size b + b_size c) (b_free b)) cs else b # c # cs)"

fun heap_put :: "ptr \<Rightarrow> blk list \<Rightarrow> blk list" where
  "heap_put a [] = []"
| "heap_put a (b # bs) =
     (if b_addr b = a then absorb (Blk a (b_size b) True) bs else b # heap_put a bs)"

text \<open>The following free blocks are physically next to the block, one after the other.\<close>

fun adjacent_run :: "blk \<Rightarrow> blk list \<Rightarrow> bool" where
  "adjacent_run b [] = True"
| "adjacent_run b (c # cs) =
     (b_free c \<longrightarrow> b_addr b + b_size b = b_addr c
        \<and> adjacent_run (Blk (b_addr b) (b_size b + b_size c) (b_free b)) cs)"

fun adjacent_at :: "ptr \<Rightarrow> blk list \<Rightarrow> bool" where
  "adjacent_at a [] = True"
| "adjacent_at a (b # bs) = (if b_addr b = a then adjacent_run b bs else adjacent_at a bs)"

lemma adjacent_run_flag: "adjacent_run (Blk a z f) bs = adjacent_run (Blk a z g) bs"
  by (induction bs arbitrary: z) auto

lemma coalesce_list:
  assumes "heap_list m p (b # bs)" and "\<forall>c \<in> set bs. disj_range p 24 (b_addr c) 24"
  shows "\<exists>m'. coalesce m p = Some m' \<and> heap_list m' p (absorb b bs) \<and> same_outside p 24 m m'"
  using assms
proof (induction bs arbitrary: m b)
  case Nil
  then show ?case by (intro exI[of _ m]) (auto simp: coalesce.simps)
next
  case (Cons c cs)
  let ?n = "blk_next m p"
  have n: "?n = b_addr c" "?n \<noteq> NULL" "blk_size m ?n = b_size c" "blk_is_free m ?n = b_free c"
    and tl: "heap_list m (blk_next m ?n) cs" and b: "b_addr b = p" "p \<noteq> NULL" "blk_size m p = b_size b"
      "blk_is_free m p = b_free b"
    using Cons.prems(1) by auto
  show ?case
  proof (cases "b_free c")
    case False
    with n Cons.prems(1) show ?thesis by (intro exI[of _ m]) (auto simp: coalesce.simps[of m "b_addr b"])
  next
    case True
    let ?m1 = "set_blk_size p (b_size b + b_size c) m"
    have so1: "same_outside p 24 m ?m1" by (simp add: set_blk_local)
    have d: "disj_range p 24 ?n 24" using Cons.prems(2) n by simp
    have nn: "blk_next ?m1 (blk_next ?m1 p) = blk_next m ?n"
      using header_same_outside(2)[OF so1 d] by (simp add: mem_simps)
    let ?m2 = "set_blk_next p (blk_next m ?n) ?m1"
    have so2: "same_outside p 24 m ?m2" by (simp add: set_blk_local)
    have "heap_list ?m2 (blk_next m ?n) cs"
      using heap_list_same_outside[OF so2, of cs] tl Cons.prems(2) by simp
    then have hl: "heap_list ?m2 p (Blk p (b_size b + b_size c) (b_free b) # cs)"
      using b by (simp add: mem_simps)
    obtain m' where m': "coalesce ?m2 p = Some m'"
      "heap_list m' p (absorb (Blk p (b_size b + b_size c) (b_free b)) cs)" "same_outside p 24 ?m2 m'"
      using Cons.IH[OF hl] Cons.prems(2) by auto
    moreover have "coalesce m p = coalesce ?m2 p"
      using n b True nn by (subst coalesce.simps) (simp add: Let_def)
    ultimately show ?thesis
      using True b same_outside_trans[OF so2] by (intro exI[of _ m']) simp
  qed
qed

lemma apart_headers:
  assumes "blocks_ok (b # bs)" and "c \<in> set bs"
  shows "disj_range (b_addr b) 24 (b_addr c) 24"
  using assms header_apart[of b c] by (auto simp: blocks_ok_def)

lemma coalesce_member:
  "heap_list m p bs \<Longrightarrow> blocks_ok bs \<Longrightarrow> b \<in> set bs \<Longrightarrow> b_addr b = a \<Longrightarrow>
    \<exists>m'. coalesce (set_blk_is_free a True m) a = Some m'
       \<and> heap_list m' p (heap_put a bs) \<and> same_outside a 24 m m'"
proof (induction bs arbitrary: p)
  case (Cons c cs)
  have loc: "same_outside a 24 m (set_blk_is_free a True m)" by (simp add: set_blk_local)
  show ?case
  proof (cases "b_addr c = a")
    case True
    have "p = a" "heap_list m (blk_next m a) cs" "blk_size m a = b_size c" "a \<noteq> NULL"
      using Cons.prems(1) True by auto
    moreover have disj: "\<forall>d \<in> set cs. disj_range a 24 (b_addr d) 24"
      using apart_headers[OF Cons.prems(2)] True by simp
    moreover have "heap_list (set_blk_is_free a True m) q cs = heap_list m q cs" for q
      using heap_list_same_outside[OF loc] disj by simp
    ultimately have "heap_list (set_blk_is_free a True m) a (Blk a (b_size c) True # cs)"
      by (simp add: mem_simps)
    from coalesce_list[OF this disj] True \<open>p = a\<close> show ?thesis
      using same_outside_trans[OF loc] by auto
  next
    case False
    then have "b \<in> set cs" using Cons.prems by auto
    moreover have "heap_list m (blk_next m p) cs" "blocks_ok cs"
      using Cons.prems by (auto simp: blocks_ok_Cons)
    ultimately obtain m' where m': "coalesce (set_blk_is_free a True m) a = Some m'"
      "heap_list m' (blk_next m p) (heap_put a cs)" "same_outside a 24 m m'"
      using Cons.IH Cons.prems(4) by blast
    have "disj_range a 24 (b_addr c) 24"
      using apart_headers[OF Cons.prems(2) \<open>b \<in> set cs\<close>] Cons.prems(4) disj_range_sym by simp
    then have "blk_size m' (b_addr c) = blk_size m (b_addr c)"
      "blk_next m' (b_addr c) = blk_next m (b_addr c)"
      "blk_is_free m' (b_addr c) = blk_is_free m (b_addr c)"
      using header_same_outside[OF m'(3)] by simp_all
    with m' Cons.prems(1) False show ?thesis by auto
  qed
qed simp

lemma merge_valid:
  assumes "blk_valid b" and "blk_valid c" and "b_addr b + b_size b = b_addr c"
    and "b_addr b \<noteq> NULL" and "b_addr c \<noteq> NULL"
  shows "unat (b_addr c) = unat (b_addr b) + unat (b_size b)"
    and "unat (b_size b + b_size c) = unat (b_size b) + unat (b_size c)"
proof -
  have "unat (b_addr b) + unat (b_size b) \<noteq> 2 ^ 64"
  proof
    assume "unat (b_addr b) + unat (b_size b) = 2 ^ 64"
    then have "unat (b_addr b + b_size b) = 0" by (simp add: unat_word_ariths)
    with assms(3,5) show False by (simp only: unat_0_iff)
  qed
  then show a: "unat (b_addr c) = unat (b_addr b) + unat (b_size b)"
    using assms(1,3) unat_plus_small[of "b_addr b" "b_size b"] by (simp add: blk_valid_def)
  have "0 < unat (b_addr b)" using assms(4) by (simp add: unat_gt_0)
  then show "unat (b_size b + b_size c) = unat (b_size b) + unat (b_size c)"
    using assms(2) a by (intro unat_plus_small) (auto simp: blk_valid_def)
qed

lemma merge_covered:
  assumes "blk_covered P b" and "blk_covered P c"
    and "unat (b_addr c) = unat (b_addr b) + unat (b_size b)"
    and "unat (b_size b + b_size c) = unat (b_size b) + unat (b_size c)"
  shows "blk_covered P (Blk (b_addr b) (b_size b + b_size c) f)"
  unfolding blk_covered_def
proof (intro allI impI)
  fix x assume "unat (b_addr (Blk (b_addr b) (b_size b + b_size c) f)) \<le> x
    \<and> x < unat (b_addr (Blk (b_addr b) (b_size b + b_size c) f))
        + unat (b_size (Blk (b_addr b) (b_size b + b_size c) f))"
  then have x: "unat (b_addr b) \<le> x" "x < unat (b_addr c) + unat (b_size c)"
    using assms(3,4) by simp_all
  then show "in_pages P x"
    using assms(1-3) by (cases "x < unat (b_addr c)") (auto simp: blk_covered_def)
qed

lemma merge_apart:
  assumes "blk_apart d b" and "blk_apart d c" and "blk_valid d"
    and "unat (b_addr c) = unat (b_addr b) + unat (b_size b)"
    and "unat (b_size b + b_size c) = unat (b_size b) + unat (b_size c)"
  shows "blk_apart d (Blk (b_addr b) (b_size b + b_size c) f)"
  using assms by (auto simp: blk_apart_def blk_valid_def)

text \<open>Merging a run of adjacent free blocks keeps every part of the invariant.\<close>

lemma absorb_ok:
  assumes "adjacent_run b bs" and "blocks_ok (b # bs)"
    and "\<forall>c \<in> set (b # bs). b_addr c \<noteq> NULL \<and> blk_covered P c"
  shows "blocks_ok (absorb b bs) \<and> (\<forall>c \<in> set (absorb b bs). blk_covered P c)
    \<and> (\<forall>d. blk_valid d \<and> (\<forall>c \<in> set (b # bs). blk_apart d c)
          \<longrightarrow> (\<forall>c \<in> set (absorb b bs). blk_apart d c))"
  using assms
proof (induction bs arbitrary: b)
  case (Cons c cs)
  show ?case
  proof (cases "b_free c")
    case True
    let ?b = "Blk (b_addr b) (b_size b + b_size c) (b_free b)"
    have adj: "b_addr b + b_size b = b_addr c" "adjacent_run ?b cs" using Cons.prems(1) True by simp_all
    have v: "blk_valid b" "blk_valid c" "blocks_ok cs" "\<forall>d \<in> set cs. blk_valid d"
      and ap: "\<forall>d \<in> set cs. blk_apart d b \<and> blk_apart d c"
      using Cons.prems(2) blk_apart_sym by (auto simp: blocks_ok_def)
    have nn: "b_addr b \<noteq> NULL" "b_addr c \<noteq> NULL" using Cons.prems(3) by auto
    note m = merge_valid[OF v(1,2) adj(1) nn]
    note glue = merge_apart[OF _ _ _ m, where f = "b_free b"]
    have "\<forall>d \<in> set cs. blk_apart ?b d" using ap v(4) glue blk_apart_sym by blast
    then have ok: "blocks_ok (?b # cs)" using v m by (simp add: blocks_ok_Cons blk_valid_def)
    have cov: "\<forall>d \<in> set (?b # cs). b_addr d \<noteq> NULL \<and> blk_covered P d"
      using Cons.prems(3) m merge_covered[of P b c] by simp
    have abs: "absorb b (c # cs) = absorb ?b cs" using True by simp
    note IH = Cons.IH[OF adj(2) ok cov]
    have "blk_apart d x" if "blk_valid d" "\<forall>x \<in> set (b # c # cs). blk_apart d x"
      "x \<in> set (absorb ?b cs)" for d x
    proof -
      have "\<forall>x \<in> set (?b # cs). blk_apart d x" using glue[of d] that(1,2) by simp
      with IH that(1,3) show ?thesis by blast
    qed
    with IH show ?thesis unfolding abs by blast
  next
    case False
    with Cons.prems show ?thesis by simp
  qed
qed simp

lemma heap_put_ok:
  assumes "adjacent_at a bs" and "blocks_ok bs" and "\<forall>c \<in> set bs. b_addr c \<noteq> NULL \<and> blk_covered P c"
  shows "blocks_ok (heap_put a bs) \<and> (\<forall>c \<in> set (heap_put a bs). blk_covered P c)
    \<and> (\<forall>d. blk_valid d \<and> (\<forall>c \<in> set bs. blk_apart d c)
          \<longrightarrow> (\<forall>c \<in> set (heap_put a bs). blk_apart d c))"
  using assms
proof (induction bs)
  case (Cons b bs)
  show ?case
  proof (cases "b_addr b = a")
    case True
    let ?b = "Blk a (b_size b) True"
    have run: "adjacent_run ?b bs"
      using Cons.prems(1) True adjacent_run_flag[of a "b_size b" True bs "b_free b"] by (cases b) simp
    have ap: "blk_apart ?b d = blk_apart b d" "blk_apart d ?b = blk_apart d b" for d
      using True by (simp_all add: blk_apart_def)
    have v: "blk_valid ?b" "\<forall>c \<in> set bs. blk_apart ?b c" "blocks_ok bs"
      using Cons.prems(2) True by (simp_all add: blocks_ok_Cons blk_valid_def ap)
    have cov: "b_addr ?b \<noteq> NULL" "blk_covered P ?b"
      "\<forall>c \<in> set bs. b_addr c \<noteq> NULL \<and> blk_covered P c"
      using Cons.prems(3) True by (auto simp: blk_covered_def)
    have "blocks_ok (?b # bs)" using v by (simp only: blocks_ok_Cons)
    moreover have "\<forall>c \<in> set (?b # bs). b_addr c \<noteq> NULL \<and> blk_covered P c"
      using cov by (simp only: list.set ball_simps simp_thms)
    ultimately have A: "blocks_ok (absorb ?b bs)" "\<forall>c \<in> set (absorb ?b bs). blk_covered P c"
      "\<forall>d. blk_valid d \<and> (\<forall>c \<in> set (?b # bs). blk_apart d c)
        \<longrightarrow> (\<forall>c \<in> set (absorb ?b bs). blk_apart d c)"
      using absorb_ok[OF run] by blast+
    have "blk_apart d x" if "blk_valid d" "\<forall>c \<in> set (b # bs). blk_apart d c"
      "x \<in> set (absorb ?b bs)" for d x
    proof -
      have "\<forall>c \<in> set (?b # bs). blk_apart d c" using that(2) ap(2)[of d] by simp
      with A(3) that(1,3) show ?thesis by blast
    qed
    moreover have "heap_put a (b # bs) = absorb ?b bs" using True by simp
    ultimately show ?thesis using A(1,2) by (simp only:) blast
  next
    case False
    have pre: "adjacent_at a bs" "blocks_ok bs" "\<forall>c \<in> set bs. b_addr c \<noteq> NULL \<and> blk_covered P c"
      using Cons.prems False by (simp_all add: blocks_ok_Cons)
    note IH = Cons.IH[OF pre]
    have b: "blk_valid b" "\<forall>c \<in> set bs. blk_apart b c" "blk_covered P b"
      using Cons.prems by (simp_all add: blocks_ok_Cons)
    have "heap_put a (b # bs) = b # heap_put a bs" using False by simp
    moreover have "\<forall>c \<in> set (heap_put a bs). blk_apart b c" using IH b by blast
    ultimately show ?thesis using IH b by (simp only: blocks_ok_Cons list.set ball_simps) blast
  qed
qed simp

lemma absorb_live: "set (live bs) \<subseteq> set (absorb b bs)"
proof (induction bs arbitrary: b)
  case (Cons c cs)
  then show ?case by (auto simp: live_def)
qed (simp add: live_def)

lemma heap_put_live: "{c \<in> set (live bs). b_addr c \<noteq> a} \<subseteq> set (heap_put a bs)"
proof (induction bs)
  case (Cons b bs)
  then show ?case using absorb_live[of bs] by (auto simp: live_def)
qed (simp add: live_def)

lemma heap_list_nonnull: "heap_list m p bs \<Longrightarrow> c \<in> set bs \<Longrightarrow> b_addr c \<noteq> NULL"
  using heap_list_member by blast

text \<open>\<open>pmm_free\<close> in terms of the block list, for any heap whose headers do not overlap.\<close>

lemma pmm_free_put:
  assumes inv: "heap_inv s P bs" and b: "b \<in> set bs"
  shows "\<exists>m'. pmm_free (b_addr b + 24) s = Some (s\<lparr>mem := m'\<rparr>)
    \<and> heap_list m' (pmm_free_blocks s) (heap_put (b_addr b) bs)
    \<and> payload_kept bs (mem s) m'"
proof -
  have hl: "heap_list (mem s) (pmm_free_blocks s) bs" and ok: "blocks_ok bs" "pmm_ok s"
    using inv by (auto simp: heap_inv_def)
  obtain m' where m': "coalesce (set_blk_is_free (b_addr b) True (mem s)) (b_addr b) = Some m'"
    "heap_list m' (pmm_free_blocks s) (heap_put (b_addr b) bs)" "same_outside (b_addr b) 24 (mem s) m'"
    using coalesce_member[OF hl ok(1) b refl] by blast
  have vb: "blk_valid b" using ok(1) b by (auto simp: blocks_ok_def)
  have "unat (b_addr b + 24) = unat (b_addr b) + 24"
    using vb unat_plus_small[of "b_addr b" 24] by (simp add: blk_valid_def)
  then have "b_addr b + 24 \<noteq> 0" by (metis add_eq_0_iff_both_eq_0 unat_0 zero_neq_numeral)
  with m' ok(2) payload_kept_header[OF m'(3) ok(1) b refl] show ?thesis
    by (intro exI[of _ m']) (simp add: pmm_free_def pmm_ok_def sizeof_memblk_def Let_def)
qed

lemma pmm_free_inv:
  assumes inv: "heap_inv s P bs" and b: "b \<in> set bs" and adj: "adjacent_at (b_addr b) bs"
    and m: "heap_list m' (pmm_free_blocks s) (heap_put (b_addr b) bs)"
  shows "heap_inv (s\<lparr>mem := m'\<rparr>) P (heap_put (b_addr b) bs)"
proof -
  have ok: "blocks_ok bs" and hl: "heap_list (mem s) (pmm_free_blocks s) bs"
    and cov: "\<forall>c \<in> set bs. blk_covered P c" using inv by (simp_all add: heap_inv_def)
  have "\<forall>c \<in> set bs. b_addr c \<noteq> NULL \<and> blk_covered P c" using heap_list_nonnull[OF hl] cov by blast
  with inv heap_put_ok[OF adj ok this] m show ?thesis by (simp add: heap_inv_def)
qed

lemma same_addr_apart:
  assumes "blocks_ok bs" and "b \<in> set bs" and "c \<in> set bs" and "b_addr b = b_addr c"
  shows "b = c"
proof (rule ccontr)
  assume "b \<noteq> c"
  with assms(1-3) have "blk_apart b c" unfolding blocks_ok_def
    by (metis blk_apart_sym in_set_conv_nth linorder_neqE_nat sorted_wrt_iff_nth_less)
  moreover have "blk_valid b" "blk_valid c" using assms(1-3) by (auto simp: blocks_ok_def)
  ultimately show False using assms(4) by (auto simp: blk_apart_def blk_valid_def)
qed

lemma payload_ptr_nonnull:
  assumes "blk_valid b"
  shows "b_addr b + 24 \<noteq> 0"
proof -
  have "unat (b_addr b + 24) = unat (b_addr b) + 24"
    using assms unat_plus_small[of "b_addr b" 24] by (simp add: blk_valid_def)
  then show ?thesis by (metis add_eq_0_iff_both_eq_0 unat_0 zero_neq_numeral)
qed

lemma size_ok_request:
  assumes "0 < unat n" and "unat n \<le> 4072"
  shows "size_ok (n + 24)" and "unat (n + 24) = unat n + 24" and "n \<noteq> 0"
proof -
  show u: "unat (n + 24) = unat n + 24" using assms by (simp add: unat_plus_small)
  show "size_ok (n + 24)" using assms by (simp add: size_ok_def u)
  show "n \<noteq> 0" using assms(1) by auto
qed

lemma heap_inv_extend:
  assumes inv: "heap_inv s P bs" and n: "0 < unat n" "unat n \<le> 4072"
    and pages: "free_pages s = q # ps" and s': "pmm_ok s'" "free_pages s' = ps"
    and hl: "heap_list (mem s') (pmm_free_blocks s') (bs @ [Blk q (n + 24) False])"
  shows "heap_inv s' (insert q P) (bs @ [Blk q (n + 24) False])"
proof -
  note sz = size_ok_request[OF n]
  have po: "pages_ok (insert q P)" and "q \<notin> P" and ok: "blocks_ok bs"
    and cov: "\<forall>b \<in> set bs. blk_covered P b"
    using inv pages by (auto simp: heap_inv_def pages_ok_def)
  have "unat q mod 4096 = 0" using po by (simp add: pages_ok_def)
  from aligned_le[OF this] have v: "blk_valid (Blk q (n + 24) False)" using n sz(2) by (simp add: blk_valid_def)
  have "\<forall>c \<in> set bs. blk_apart c (Blk q (n + 24) False)"
    using fresh_page_apart[OF po \<open>q \<notin> P\<close>] cov ok n sz(2) by (auto simp: blocks_ok_def)
  with ok v have "blocks_ok (bs @ [Blk q (n + 24) False])" by (simp add: blocks_ok_snoc)
  moreover have "blk_covered (insert q P) (Blk q (n + 24) False)"
    using n sz(2) by (auto simp: blk_covered_def in_pages_def)
  moreover have "\<forall>b \<in> set bs. blk_covered (insert q P) b"
    using cov by (auto simp: blk_covered_def in_pages_def)
  ultimately show ?thesis using inv pages s' hl by (auto simp: heap_inv_def pages_ok_def)
qed

text \<open>Allocation keeps the free blocks that follow an allocated block next to it in memory.\<close>

lemma adjacent_run_take:
  "adjacent_run b bs \<Longrightarrow> heap_take sz bs = Some (r, bs') \<Longrightarrow> adjacent_run b bs'"
  by (induction bs arbitrary: b bs') (auto simp: fits_def carve_def split: if_splits)

lemma adjacent_run_snoc: "adjacent_run b (bs @ [Blk q z False]) = adjacent_run b bs"
  by (induction bs arbitrary: b) auto

lemma adjacent_at_snoc:
  "a \<in> b_addr ` set bs \<Longrightarrow> adjacent_at a (bs @ [Blk q z False]) = adjacent_at a bs"
  by (induction bs) (auto simp: adjacent_run_snoc)

lemma adjacent_at_head: "b_addr b = a \<Longrightarrow> adjacent_at a (b # bs) = adjacent_run b bs"
  by simp

lemma carve_addr_other:
  assumes "size_ok sz" and "blocks_ok (b # bs)" and "c \<in> set bs" and "d \<in> set (carve sz b)"
  shows "b_addr d \<noteq> b_addr c"
proof -
  have "blk_apart c d"
    using assms blk_apart_sym carve_apart[OF assms(1) _ _ assms(4), of c] by (auto simp: blocks_ok_Cons)
  moreover have "blk_valid c" "blk_valid d"
    using assms carve_inside[OF assms(1) _ assms(4)] by (auto simp: blocks_ok_Cons blocks_ok_def)
  ultimately show ?thesis by (auto simp: blk_apart_def blk_valid_def)
qed

lemma adjacent_at_skip: "\<forall>d \<in> set ds. b_addr d \<noteq> a \<Longrightarrow> adjacent_at a (ds @ bs) = adjacent_at a bs"
  by (induction ds) auto

lemma adjacent_at_take:
  assumes "size_ok sz"
  shows "heap_take sz bs = Some (r, bs') \<Longrightarrow> blocks_ok bs \<Longrightarrow> c \<in> set (live bs)
    \<Longrightarrow> adjacent_at (b_addr c) bs \<Longrightarrow> adjacent_at (b_addr c) bs'"
proof (induction bs arbitrary: bs')
  case (Cons b bs)
  have c: "c \<in> set (b # bs)" "\<not> b_free c" using Cons.prems(3) by (auto simp: live_def split: if_splits)
  show ?case
  proof (cases "b_addr b = b_addr c")
    case True
    then have "b = c" using same_addr_apart[OF Cons.prems(2) _ c(1), of b] by simp
    then obtain bs1 where "heap_take sz bs = Some (r, bs1)" "bs' = b # bs1"
      using Cons.prems(1) c(2) by (auto simp: fits_def)
    with adjacent_run_take Cons.prems(4) True show ?thesis by simp
  next
    case False
    then have cs: "c \<in> set bs" "adjacent_at (b_addr c) bs" using c(1) Cons.prems(4) by auto
    show ?thesis
    proof (cases "fits sz b")
      case True
      have "\<forall>d \<in> set (carve sz b). b_addr d \<noteq> b_addr c"
        using carve_addr_other[OF assms Cons.prems(2) cs(1)] by blast
      with True Cons.prems(1) cs(2) show ?thesis by (auto simp: adjacent_at_skip)
    next
      case no_fit: False
      then obtain bs1 where "heap_take sz bs = Some (r, bs1)" "bs' = b # bs1"
        using Cons.prems(1) by auto
      with Cons.IH[of bs1] Cons.prems(2) cs c(2) False show ?thesis
        by (simp add: blocks_ok_Cons live_def)
    qed
  qed
qed simp

section \<open>Properties of the heap\<close>

text \<open>
  What \<open>pmm_alloc\<close> did to a well-formed heap when it returned the payload of the block at \<open>r\<close>: the
  block is new, it holds the request, its bytes and those of the blocks allocated before are
  untouched, and so is the adjacency that \<open>pmm_free\<close> relies on.
\<close>

definition alloc_post :: "'a pmm_scheme \<Rightarrow> ptr set \<Rightarrow> blk list \<Rightarrow> u64 \<Rightarrow> ptr \<Rightarrow> 'a pmm_scheme \<Rightarrow> ptr set \<Rightarrow> blk list \<Rightarrow> bool" where
  "alloc_post s P bs n r s' P' bs' \<longleftrightarrow> heap_inv s' P' bs' \<and> P \<subseteq> P'
     \<and> P' \<union> set (free_pages s') = P \<union> set (free_pages s)
     \<and> (\<exists>z. Blk r z False \<in> set bs' \<and> n + 24 \<le> z)
     \<and> set (live bs) \<subseteq> set bs' \<and> r \<notin> b_addr ` set (live bs)
     \<and> payload_kept bs (mem s) (mem s')
     \<and> (\<forall>x. in_range (r + 24) (unat n) x \<longrightarrow> mem s' x = mem s x)
     \<and> (\<forall>c \<in> set (live bs). adjacent_at (b_addr c) bs \<longrightarrow> adjacent_at (b_addr c) bs')"

lemma alloc_post_fit:
  assumes inv: "heap_inv s P bs" and n: "0 < unat n" "unat n \<le> 4072"
    and hit: "heap_take (n + 24) bs = Some (r, bs')"
  shows "alloc_post s P bs n r (s\<lparr>mem := use_block (n + 24) r (mem s)\<rparr>) P bs'"
proof -
  note sz = size_ok_request[OF n]
  have ok: "blocks_ok bs" and hl: "heap_list (mem s) (pmm_free_blocks s) bs"
    using inv by (simp_all add: heap_inv_def)
  obtain c where c: "c \<in> set bs" "b_addr c = r" "fits (n + 24) c"
    using heap_take_member[OF hit] by blast
  have "blk_valid c" using ok c(1) by (auto simp: blocks_ok_def)
  with heap_list_member[OF hl c(1)] c(2,3)
  have "use_block (n + 24) r (mem s) x = mem s x" if "in_range (r + 24) (unat n) x" for x
    using use_block_payload[OF sz(1), of r "mem s" x] that sz(2) by (simp add: blk_valid_def fits_def)
  moreover have "r \<notin> b_addr ` set (live bs)"
    using same_addr_apart[OF ok c(1)] c(2,3) by (auto simp: live_def fits_def)
  ultimately show ?thesis
    using pmm_alloc_fit[OF inv sz(3,1) hit] heap_take_live[OF hit] heap_take_result[OF sz(1) hit]
      adjacent_at_take[OF sz(1) hit ok] by (simp add: alloc_post_def)
qed

lemma alloc_post_page:
  assumes inv: "heap_inv s P bs" and n: "0 < unat n" "unat n \<le> 4072"
    and pages: "free_pages s = q # ps"
    and s': "free_pages s' = ps" "pmm_ok s'" "payload_kept bs (mem s) (mem s')"
      "heap_list (mem s') (pmm_free_blocks s') (bs @ [Blk q (n + 24) False])"
      "\<forall>x. in_range (q + 24) 4072 x \<longrightarrow> mem s' x = mem s x"
  shows "alloc_post s P bs n q s' (insert q P) (bs @ [Blk q (n + 24) False])"
proof -
  have inv': "heap_inv s' (insert q P) (bs @ [Blk q (n + 24) False])"
    using inv n pages s'(2,1,4) by (rule heap_inv_extend)
  then have ok': "blocks_ok (bs @ [Blk q (n + 24) False])" by (simp add: heap_inv_def)
  have "b_addr b \<noteq> q" if "b \<in> set bs" for b
  proof -
    have "blk_apart b (Blk q (n + 24) False)" "blk_valid b" "blk_valid (Blk q (n + 24) False)"
      using ok' that by (auto simp: blocks_ok_snoc) (auto simp: blocks_ok_def)
    then show ?thesis by (auto simp: blk_apart_def blk_valid_def)
  qed
  then have "q \<notin> b_addr ` set bs" by blast
  moreover have "mem s' x = mem s x" if "in_range (q + 24) (unat n) x" for x
    using s'(5) that n(2) by (simp add: in_range_def)
  moreover have sub: "set (live bs) \<subseteq> set bs" by (auto simp: live_def)
  moreover have "adjacent_at (b_addr c) (bs @ [Blk q (n + 24) False]) = adjacent_at (b_addr c) bs"
    if "c \<in> set (live bs)" for c
    using that sub by (intro adjacent_at_snoc) blast
  ultimately show ?thesis using inv' s'(1,3) pages
    by (auto simp: alloc_post_def subset_iff image_iff)
qed

lemma pmm_alloc_result:
  assumes inv: "heap_inv s P bs" and n: "0 < unat n" "unat n \<le> 4072"
  obtains (exhausted) "pmm_alloc n s = Some (NULL, s)" and "free_pages s = []"
      and "\<forall>b \<in> set bs. \<not> fits (n + 24) b"
    | (block) r s' P' bs' where "pmm_alloc n s = Some (r + 24, s')" and "r + 24 \<noteq> NULL"
      and "alloc_post s P bs n r s' P' bs'"
proof -
  note sz = size_ok_request[OF n]
  have nn: "r + 24 \<noteq> NULL" if "alloc_post s P bs n r s' P' bs'" for r s' P' bs'
  proof -
    from that obtain z where "Blk r z False \<in> set bs'" "blocks_ok bs'"
      by (auto simp: alloc_post_def heap_inv_def)
    then show ?thesis using payload_ptr_nonnull[of "Blk r z False"] by (auto simp: blocks_ok_def)
  qed
  show thesis
  proof (cases "heap_take (n + 24) bs")
    case (Some rb)
    then obtain r bs' where hit: "heap_take (n + 24) bs = Some (r, bs')" by (cases rb) auto
    show thesis
      using block[OF _ nn] pmm_alloc_fit[OF inv sz(3,1) hit] alloc_post_fit[OF inv n hit] by blast
  next
    case None
    show thesis
    proof (cases "free_pages s")
      case Nil
      with None pmm_alloc_exhausted[OF inv sz(3) None] show thesis
        by (intro exhausted) (simp_all add: heap_take_None)
    next
      case (Cons q ps)
      obtain s' where s': "pmm_alloc n s = Some (q + 24, s')"
        "heap_list (mem s') (pmm_free_blocks s') (bs @ [Blk q (n + 24) False])"
        "free_pages s' = ps" "pmm_ok s'" "payload_kept bs (mem s) (mem s')"
        "\<forall>x. in_range (q + 24) 4072 x \<longrightarrow> mem s' x = mem s x"
        using pmm_alloc_page[OF inv sz(3,1) None Cons] by (auto simp: Let_def)
      show thesis
        using block[OF s'(1) nn] alloc_post_page[OF inv n Cons s'(3,4,5,2,6)] by blast
    qed
  qed
qed

text \<open>
  C2. \<open>pmm_alloc\<close> on a well-formed heap, for requests of up to 4072 bytes (a page less its header).
  It always returns.  It returns \<open>NULL\<close> only when no free block fits and no page is left, and then
  changes nothing.  Otherwise the pointer it returns is the payload of a block that holds the
  request, that was not allocated before and overlaps no other block; all blocks allocated before
  are still there with their contents, the heap is well-formed again, and the pages it uses are
  those it had plus at most pages taken from the free stack.
\<close>

theorem pmm_alloc_correct:
  assumes inv: "heap_inv s P bs" and n: "0 < unat n" "unat n \<le> 4072"
  shows "\<exists>r s'. pmm_alloc n s = Some (r, s') \<and> payload_kept bs (mem s) (mem s') \<and>
     (if r = NULL then s' = s \<and> free_pages s = [] \<and> (\<forall>b \<in> set bs. \<not> fits (n + 24) b)
      else \<exists>P' bs' z. heap_inv s' P' bs' \<and> P \<subseteq> P'
             \<and> P' \<union> set (free_pages s') = P \<union> set (free_pages s)
             \<and> Blk (r - 24) z False \<in> set bs' \<and> n + 24 \<le> z
             \<and> set (live bs) \<subseteq> set bs' \<and> r - 24 \<notin> b_addr ` set (live bs))"
  using inv n
proof (cases rule: pmm_alloc_result)
  case exhausted
  then show ?thesis by (simp add: payload_kept_def)
next
  case (block r s' P' bs')
  then show ?thesis
    by (intro exI[of _ "r + 24"] exI[of _ s']) (auto simp: alloc_post_def)
qed

text \<open>
  C6. \<open>pmm_free\<close> of an allocated block whose following free blocks are physically adjacent to it:
  it returns, the block is free and merged with them, all other allocated blocks keep their place
  and their contents, and the heap is well-formed again.
\<close>

theorem pmm_free_correct:
  assumes "heap_inv s P bs" and "b \<in> set (live bs)" and "adjacent_at (b_addr b) bs"
  shows "\<exists>m'. pmm_free (b_addr b + 24) s = Some (s\<lparr>mem := m'\<rparr>)
    \<and> heap_inv (s\<lparr>mem := m'\<rparr>) P (heap_put (b_addr b) bs)
    \<and> payload_kept bs (mem s) m'
    \<and> {c \<in> set (live bs). b_addr c \<noteq> b_addr b} \<subseteq> set (heap_put (b_addr b) bs)"
proof -
  have b: "b \<in> set bs" using assms(2) by (simp add: live_def)
  then show ?thesis
    using pmm_free_put[OF assms(1) b] pmm_free_inv[OF assms(1) b assms(3)] heap_put_live by blast
qed

definition heap0 :: pmm where "heap0 = pmm_init (boot_pmm sample_memmap)"

lemma free_blocks_emit [simp]: "pmm_free_blocks (emit e s) = pmm_free_blocks s"
  by (simp add: emit_def)

lemma fold_freepage_frame [simp]:
  "pmm_free_blocks (fold pmm_freepage ps s) = pmm_free_blocks s"
  "mem (fold pmm_freepage ps s) = mem s"
  by (induction ps arbitrary: s) simp_all

lemma pmm_init_frame [simp, frame_simps]:
  "pmm_free_blocks (pmm_init s) = pmm_free_blocks s" "mem (pmm_init s) = mem s"
proof -
  have "pmm_free_blocks (fold pmm_init_entry mm t) = pmm_free_blocks t
      \<and> mem (fold pmm_init_entry mm t) = mem t" for mm and t :: "'a pmm_scheme"
    by (induction mm arbitrary: t)
      (simp_all add: pmm_init_entry_def Let_def count_loop_total free_loop_fold)
  then show "pmm_free_blocks (pmm_init s) = pmm_free_blocks s" "mem (pmm_init s) = mem s"
    by (simp_all add: pmm_init_def)
qed

lemma heap0_pages: "pmm_ok heap0" "free_pages heap0 = [0x8000, 0x2000, 0x1000]"
  using pmm_init_free_pages[of "boot_pmm sample_memmap"]
  by (simp_all add: heap0_def boot_pmm_def usable_sample STACK_SIZE_numeral)

lemma heap0_inv: "heap_inv heap0 {} []"
proof -
  have "heap_list (mem heap0) (pmm_free_blocks heap0) []" by (simp add: heap0_def boot_pmm_def)
  then show ?thesis using heap0_pages by (simp add: heap_inv_def pages_ok_def)
qed

theorem pmm_alloc_correct_witness: "\<exists>r s'. pmm_alloc 100 heap0 = Some (r, s') \<and> r \<noteq> NULL"
  using pmm_alloc_correct[OF heap0_inv, of 100] heap0_pages by (auto split: if_splits)

definition one_block_heap :: pmm where
  "one_block_heap = heap0\<lparr>pmm_stack_top := 0, pmm_free_blocks := 0x1000,
     mem := set_blk_next 0x1000 NULL (set_blk_is_free 0x1000 False (set_blk_size 0x1000 124 (\<lambda>_. 0)))\<rparr>"

lemma one_block_inv: "heap_inv one_block_heap {0x1000} [Blk 0x1000 124 False]"
proof -
  have "pmm_ok one_block_heap" "free_pages one_block_heap = []"
    using heap0_pages(1) by (simp_all add: one_block_heap_def pmm_ok_def free_pages_def)
  then show ?thesis
    by (simp add: heap_inv_def one_block_heap_def mem_simps blocks_ok_def blk_valid_def
        blk_covered_def in_pages_def pages_ok_def)
qed

theorem pmm_free_correct_witness:
  "\<exists>m'. pmm_free 0x1018 one_block_heap = Some (one_block_heap\<lparr>mem := m'\<rparr>)
     \<and> heap_inv (one_block_heap\<lparr>mem := m'\<rparr>) {0x1000} [Blk 0x1000 124 True]"
  using pmm_free_correct[OF one_block_inv, of "Blk 0x1000 124 False"] by (auto simp: live_def)

text \<open>
  The bound of 4072 bytes is sharp: when no free block fits, a larger request is served from
  one fresh page all the same.  \<open>pmm_alloc\<close> returns a pointer whose \<open>n\<close> bytes run past the end of
  that page, into memory the heap does not own.
\<close>

theorem pmm_alloc_overruns_page:
  assumes "heap_inv s P bs" and "4072 < unat n" and "unat n + 48 < 2 ^ 64"
    and "\<forall>b \<in> set bs. \<not> fits (n + 24) b" and "free_pages s = q # ps"
  shows "\<exists>s'. pmm_alloc n s = Some (q + 24, s') \<and> unat (q + 24) + unat n > unat q + 4096"
proof -
  have u: "unat (n + 24) = unat n + 24" using assms(3) by (simp add: unat_plus_small)
  then have sz: "size_ok (n + 24)" "n \<noteq> 0" using assms(2,3) by (auto simp: size_ok_def)
  have miss: "heap_take (n + 24) bs = None" using assms(4) by (simp add: heap_take_None)
  have "unat q mod 4096 = 0" using assms(1,5) by (simp add: heap_inv_def pages_ok_def)
  then have "unat (q + 24) = unat q + 24"
    using aligned_le[of q] unat_plus_small[of q 24] by simp
  with pmm_alloc_page[OF assms(1) sz(2,1) miss assms(5)] assms(2) show ?thesis
    by (auto simp: Let_def)
qed

text \<open>The request the scheduler makes for every thread stack.\<close>

theorem pmm_alloc_overruns_page_witness:
  "\<exists>s'. pmm_alloc 4096 heap0 = Some (0x8018, s') \<and> 0x8018 + 4096 > (0x8000 + 4096 :: nat)"
  using pmm_alloc_overruns_page[OF heap0_inv, of 4096 "0x8000" "[0x2000, 0x1000]"] heap0_pages(2)
  by auto

section \<open>Merging blocks of different pages\<close>

text \<open>
  Blocks of one page are neighbours in the list in address order, but the list also links the first
  block of a page to the blocks of the pages taken earlier.  Pages come off the stack in any order,
  so the neighbour in the list need not be the neighbour in memory; \<open>pmm_free\<close> does not check.
\<close>

lemma alloc_page_step:
  assumes "heap_inv s P bs" and "0 < unat n" "unat n \<le> 4072"
    and "\<forall>b \<in> set bs. \<not> fits (n + 24) b" and "free_pages s = q # ps"
  obtains s' where "pmm_alloc n s = Some (q + 24, s')"
    and "heap_inv s' (insert q P) (bs @ [Blk q (n + 24) False])" and "free_pages s' = ps"
proof -
  note sz = size_ok_request[OF assms(2,3)]
  have miss: "heap_take (n + 24) bs = None" using assms(4) by (simp add: heap_take_None)
  obtain s' where "pmm_alloc n s = Some (q + 24, s')"
    "heap_list (mem s') (pmm_free_blocks s') (bs @ [Blk q (n + 24) False])"
    "free_pages s' = ps" "pmm_ok s'"
    using pmm_alloc_page[OF assms(1) sz(3,1) miss assms(5)] by (auto simp: Let_def)
  then show ?thesis
    using that heap_inv_extend[OF assms(1-3,5)] by blast
qed

text \<open>A first fit needs only the list of headers, not the invariant on pages.\<close>

lemma alloc_first_fit:
  assumes "pmm_ok s" and "heap_list (mem s) (pmm_free_blocks s) bs" and "n \<noteq> 0"
    and "heap_take (n + 24) bs = Some (r, bs')"
  shows "\<exists>s'. pmm_alloc n s = Some (r + 24, s')"
proof -
  obtain c where "c \<in> set bs" "b_addr c = r" using heap_take_member[OF assms(4)] by blast
  with heap_list_nonnull[OF assms(2)] have "r \<noteq> NULL" by blast
  with find_block_hit[OF assms(2,4), of NULL] assms(1,3) show ?thesis
    by (auto simp: pmm_alloc_def pmm_ok_def sizeof_memblk_def Let_def)
qed

text \<open>
  From a freshly initialised heap: allocate two blocks of a page each, free the second and then
  the first.  The two pages are not adjacent, yet the blocks are merged into one block of two pages'
  length at the first page, and the next request of 5000 bytes is served from it, over memory that
  no memory region ever offered.
\<close>

theorem pmm_free_merges_across_pages:
  "\<exists>s1 s2 s3 s4 s5. pmm_alloc 4072 heap0 = Some (0x8018, s1)
     \<and> pmm_alloc 4072 s1 = Some (0x2018, s2)
     \<and> pmm_free 0x2018 s2 = Some s3 \<and> pmm_free 0x8018 s3 = Some s4
     \<and> pmm_alloc 5000 s4 = Some (0x8018, s5)
     \<and> \<not> in_pages (set (usable_pages sample_memmap)) (0x8018 + 4999)"
proof -
  let ?A = "Blk 0x8000 4096" and ?B = "Blk 0x2000 4096"
  obtain s1 where s1: "pmm_alloc 4072 heap0 = Some (0x8018, s1)"
    "heap_inv s1 {0x8000} [?A False]" "free_pages s1 = [0x2000, 0x1000]"
    using alloc_page_step[OF heap0_inv, of 4072 "0x8000" "[0x2000, 0x1000]"] heap0_pages(2) by auto
  obtain s2 where s2: "pmm_alloc 4072 s1 = Some (0x2018, s2)"
    "heap_inv s2 {0x2000, 0x8000} [?A False, ?B False]"
    using alloc_page_step[OF s1(2), of 4072 "0x2000" "[0x1000]"] s1(3) by (auto simp: fits_def)
  obtain m3 where m3: "pmm_free 0x2018 s2 = Some (s2\<lparr>mem := m3\<rparr>)"
    "heap_list m3 (pmm_free_blocks s2) [?A False, ?B True]"
    using pmm_free_put[OF s2(2), of "?B False"] by auto
  let ?s3 = "s2\<lparr>mem := m3\<rparr>"
  have inv3: "heap_inv ?s3 {0x2000, 0x8000} [?A False, ?B True]"
    using pmm_free_inv[OF s2(2), of "?B False" m3] m3(2) by auto
  obtain m4 where m4: "pmm_free 0x8018 ?s3 = Some (?s3\<lparr>mem := m4\<rparr>)"
    "heap_list m4 (pmm_free_blocks s2) [Blk 0x8000 8192 True]"
    using pmm_free_put[OF inv3, of "?A False"] by auto
  have "pmm_ok s2" using s2(2) by (simp add: heap_inv_def)
  then obtain s5 where "pmm_alloc 5000 (?s3\<lparr>mem := m4\<rparr>) = Some (0x8018, s5)"
    using alloc_first_fit[of "?s3\<lparr>mem := m4\<rparr>" "[Blk 0x8000 8192 True]" 5000] m4(2)
    by (auto simp: fits_def)
  moreover have "\<not> in_pages (set (usable_pages sample_memmap)) (0x8018 + 4999)"
    by (simp add: in_pages_def usable_sample)
  ultimately show ?thesis using s1(1) s2(1) m3(1) m4(1) by blast
qed

end
