(* ===== verification/PmmRealloc.thy ===== *)
theory PmmRealloc
  imports PmmHeap
begin

text \<open>
  \<open>pmm_realloc\<close> of \<^verbatim>\<open>kernel/src/mm/pmm.c\<close> on a well-formed heap.  The routine does not know
  the size of the old block; it copies what a string copy would: the bytes up to the first zero
  byte, and that byte.  The lemmas say what the scan and the copy do, the property puts them between
  \<open>pmm_alloc\<close> and \<open>pmm_free\<close>.
\<close>

section \<open>Measuring the old block\<close>

lemma scan_nul_at:
  assumes "cstr_at m p cs" and "i \<le> length cs"
  shows "scan_nul m (p + of_nat i) (of_nat i) = Some (of_nat (length cs))"
  using assms(2)
proof (induction "length cs - i" arbitrary: i)
  case 0
  with cstr_at_nth[OF assms(1), of i] show ?case by (subst scan_nul.simps) simp
next
  case (Suc d)
  then have i: "i < length cs" and "d = length cs - Suc i" by simp_all
  then have "scan_nul m (p + of_nat (Suc i)) (of_nat (Suc i)) = Some (of_nat (length cs))"
    by (intro Suc.hyps(1)) simp_all
  moreover have "cs ! i \<noteq> 0" using nth_mem[OF i] assms(1) unfolding cstr_at_def by metis
  then have "m (p + of_nat i) \<noteq> 0" using cstr_at_nth[OF assms(1), of i] i by simp
  ultimately show ?case by (subst scan_nul.simps) (simp add: ac_simps)
qed

lemma scan_nul_cstr: "cstr_at m p cs \<Longrightarrow> scan_nul m p 0 = Some (of_nat (length cs))"
  using scan_nul_at[of m p cs 0] by simp

section \<open>Copying into a block of the heap\<close>

lemma cstr_at_cong:
  assumes "\<And>x. in_range a (Suc (length cs)) x \<Longrightarrow> m' x = m x" and "Suc (length cs) \<le> 2 ^ 64"
  shows "cstr_at m' a cs = cstr_at m a cs"
proof -
  have "m' (a + of_nat i) = m (a + of_nat i)" if "i < Suc (length cs)" for i
    using assms that by (simp add: in_range_def unat_of_nat)
  then have "bytes_at m' a (Suc (length cs)) = bytes_at m a (Suc (length cs))"
    by (simp add: bytes_at_def del: upt_Suc)
  then show ?thesis by (simp add: cstr_at_def)
qed

lemma copy_cstr:
  assumes "cstr_at m p cs" and "Suc (length cs) < 2 ^ 64"
    and "disj_range p (Suc (length cs)) r (Suc (length cs))"
  defines "m' \<equiv> memcpy_loop m r p 0 (of_nat (length cs) + 1)"
  shows "cstr_at m' r cs" and "same_outside r (Suc (length cs)) m m'"
proof -
  have k: "unat (of_nat (length cs) + 1 :: u64) = Suc (length cs)"
    using assms(2) unat_plus_small[of "of_nat (length cs)" 1] by (simp add: unat_of_nat)
  have eq: "m' x = (if in_range r (Suc (length cs)) x then m (p + (x - r)) else m x)" for x
    unfolding m'_def using memcpy_loop_eq[of r p "of_nat (length cs) + 1" m 0 x] assms(3)
    by (simp add: k in_range_def disj_range_def)
  then show "same_outside r (Suc (length cs)) m m'" by (simp add: same_outside_def)
  have "m' (r + of_nat i) = m (p + of_nat i)" if "i < Suc (length cs)" for i
    using eq that assms(2) by (simp add: in_range_def unat_of_nat)
  then have "bytes_at m' r (Suc (length cs)) = bytes_at m p (Suc (length cs))"
    by (simp add: bytes_at_def del: upt_Suc)
  with assms(1) show "cstr_at m' r cs" by (simp add: cstr_at_def)
qed

text \<open>A write into the payload of one block leaves the headers and the other payloads alone.\<close>

lemma blk_apart_disj:
  assumes "blk_apart b c" and "blk_valid b" and "blk_valid c"
  shows "disj_range (b_addr b) (unat (b_size b)) (b_addr c) (unat (b_size c))"
  using assms by (intro disj_range_nowrap) (auto simp: blk_apart_def blk_valid_def)

lemma blk_payload_inside:
  assumes "blk_valid b" and "k + 24 \<le> unat (b_size b)"
  shows "unat (b_addr b + 24 - b_addr b) + k \<le> unat (b_size b)"
  using assms by simp

lemma payload_off_header:
  assumes "blk_valid b" and "k + 24 \<le> unat (b_size b)" and "0 < k"
  shows "disj_range (b_addr b + 24) k (b_addr b) 24"
proof -
  have "unat (b_addr b + 24) = unat (b_addr b) + 24"
    using assms(1) by (intro unat_plus_small[of _ 24, simplified]) (simp add: blk_valid_def)
  with assms show ?thesis by (intro disj_range_nowrap) (auto simp: blk_valid_def)
qed

lemma blocks_ok_apart:
  assumes "blocks_ok bs" and "b \<in> set bs" and "c \<in> set bs" and "b_addr b \<noteq> b_addr c"
  shows "blk_apart b c"
  using assms blk_apart_sym unfolding blocks_ok_def
  by (metis in_set_conv_nth linorder_neqE_nat sorted_wrt_iff_nth_less)

lemma write_payload_off_others:
  assumes "blocks_ok bs" and "b \<in> set bs" and "k + 24 \<le> unat (b_size b)" and "0 < k"
    and "c \<in> set bs" and "b_addr c \<noteq> b_addr b"
  shows "disj_range (b_addr b + 24) k (b_addr c) (unat (b_size c))"
proof -
  have "blk_valid b" "blk_valid c" using assms(1,2,5) by (auto simp: blocks_ok_def)
  moreover from this have "disj_range (b_addr b) (unat (b_size b)) (b_addr c) (unat (b_size c))"
    using blk_apart_disj blocks_ok_apart[OF assms(1,2,5)] assms(6) by simp
  ultimately show ?thesis
    using disj_range_subset[of "b_addr b" "unat (b_size b)" "b_addr c" "unat (b_size c)" "b_addr b + 24" k
        "b_addr c" "unat (b_size c)"] assms(3,4) by (simp add: blk_valid_def)
qed

lemma write_payload_inv:
  assumes inv: "heap_inv s P bs" and b: "b \<in> set bs" and k: "k + 24 \<le> unat (b_size b)" "0 < k"
    and so: "same_outside (b_addr b + 24) k (mem s) m'"
  shows "heap_inv (s\<lparr>mem := m'\<rparr>) P bs"
proof -
  have ok: "blocks_ok bs" using inv by (simp add: heap_inv_def)
  have "disj_range (b_addr b + 24) k (b_addr c) 24" if c: "c \<in> set bs" for c
  proof (cases "b_addr c = b_addr b")
    case True
    have "blk_valid b" using ok b by (auto simp: blocks_ok_def)
    with True k show ?thesis using payload_off_header by simp
  next
    case False
    have "blk_valid c" using ok c by (auto simp: blocks_ok_def)
    then show ?thesis
      using disj_range_subset[OF write_payload_off_others[OF ok b k c False], of "b_addr b + 24" k "b_addr c" 24]
        k(2) by (simp add: blk_valid_def)
  qed
  then have "heap_list m' (pmm_free_blocks s) bs = heap_list (mem s) (pmm_free_blocks s) bs"
    using heap_list_same_outside[OF so k(2)] by blast
  with inv show ?thesis by (simp add: heap_inv_def)
qed

section \<open>Moving a block\<close>

lemma absorb_head: "\<exists>z cs. absorb b bs = Blk (b_addr b) z (b_free b) # cs"
proof (induction bs arbitrary: b)
  case Nil
  show ?case by (cases b) simp
next
  case (Cons c cs)
  show ?case
  proof (cases "b_free c")
    case True
    then show ?thesis using Cons.IH[of "Blk (b_addr b) (b_size b + b_size c) (b_free b)"] by simp
  qed (cases b, simp)
qed

lemma heap_put_freed: "b \<in> set bs \<Longrightarrow> \<exists>z. Blk (b_addr b) z True \<in> set (heap_put (b_addr b) bs)"
proof (induction bs)
  case (Cons c cs)
  then show ?case
    using absorb_head[of "Blk (b_addr b) (b_size c) True" cs] by (auto split: if_splits)
qed simp

text \<open>
  The copy step: the string of an allocated block \<open>b\<close> is copied into the fresh block at \<open>r\<close>.
\<close>

lemma copy_into_block:
  assumes inv: "heap_inv s P bs" and b: "b \<in> set bs" and r: "Blk r z False \<in> set bs"
    and "r \<noteq> b_addr b" and str: "cstr_at (mem s) (b_addr b + 24) cs"
    and kb: "length cs + 25 \<le> unat (b_size b)" and kr: "length cs + 25 \<le> unat z"
  defines "m' \<equiv> memcpy_loop (mem s) (r + 24) (b_addr b + 24) 0 (of_nat (length cs) + 1)"
  shows "heap_inv (s\<lparr>mem := m'\<rparr>) P bs" and "cstr_at m' (r + 24) cs"
    and "same_outside (r + 24) (Suc (length cs)) (mem s) m'"
    and "\<And>c x. c \<in> set bs \<Longrightarrow> b_addr c \<noteq> r \<Longrightarrow> in_range (b_addr c) (unat (b_size c)) x \<Longrightarrow> m' x = mem s x"
proof -
  let ?k = "Suc (length cs)" and ?r = "Blk r z False"
  have ok: "blocks_ok bs" using inv by (simp add: heap_inv_def)
  have vb: "blk_valid b" using ok b by (auto simp: blocks_ok_def)
  have "disj_range (b_addr b + 24) ?k r (unat z)"
    using write_payload_off_others[OF ok b _ _ r, of ?k] kb assms(4) by simp
  then have d: "disj_range (b_addr b + 24) ?k (r + 24) ?k"
    using disj_range_field[of "b_addr b + 24" ?k r "unat z" 24 ?k] kr by simp
  have k: "?k < 2 ^ 64" using kb unat_lt64[of "b_size b"] by simp
  show "cstr_at m' (r + 24) cs" unfolding m'_def by (rule copy_cstr(1)[OF str k d])
  show so: "same_outside (r + 24) ?k (mem s) m'" unfolding m'_def by (rule copy_cstr(2)[OF str k d])
  show "heap_inv (s\<lparr>mem := m'\<rparr>) P bs"
    using write_payload_inv[OF inv r, of ?k m'] so kr by simp
  fix c x assume c: "c \<in> set bs" "b_addr c \<noteq> r" and x: "in_range (b_addr c) (unat (b_size c)) x"
  have "disj_range (r + 24) ?k (b_addr c) (unat (b_size c))"
    using write_payload_off_others[OF ok r _ _ c(1), of ?k] kr c(2) by simp
  with x have "\<not> in_range (r + 24) ?k x" using disj_rangeD disj_range_sym by blast
  with so show "m' x = mem s x" by (simp add: same_outside_def)
qed

lemma in_live_payload:
  assumes "payload_kept bs m m'" and "c \<in> set (live bs)" and "blk_valid c"
    and "k + 24 \<le> unat (b_size c)" and "in_range (b_addr c + 24) k x"
  shows "m' x = m x"
proof -
  have "0 < k" using assms(5) by (simp add: in_range_def)
  then have "\<not> in_range (b_addr c) 24 x"
    using payload_off_header[OF assms(3,4)] assms(5) by (auto dest: disj_rangeD)
  moreover have "in_range (b_addr c) (unat (b_size c)) x"
    using in_range_shift[OF assms(5), of "b_addr c"] assms(4) by simp
  ultimately show ?thesis using assms(1,2) by (simp add: payload_kept_def)
qed

lemma payload_cstr:
  assumes "payload_kept bs m m'" and "c \<in> set (live bs)" and "blk_valid c"
    and "length cs + 25 \<le> unat (b_size c)"
  shows "cstr_at m' (b_addr c + 24) cs = cstr_at m (b_addr c + 24) cs"
proof (rule cstr_at_cong)
  show "Suc (length cs) \<le> 2 ^ 64" using assms(4) unat_lt64[of "b_size c"] by simp
  have "Suc (length cs) + 24 \<le> unat (b_size c)" using assms(4) by simp
  then show "m' x = m x" if "in_range (b_addr c + 24) (Suc (length cs)) x" for x
    using in_live_payload[OF assms(1-3) _ that] by blast
qed

text \<open>Copy and release, from the state \<open>pmm_alloc\<close> leaves.\<close>

lemma copy_and_free:
  assumes inv: "heap_inv s P bs" and b: "b \<in> set (live bs)" and adj: "adjacent_at (b_addr b) bs"
    and n: "0 < unat n" "unat n \<le> 4072" and str: "cstr_at (mem s) (b_addr b + 24) cs"
    and len: "length cs + 25 \<le> unat (b_size b)" "length cs < unat n"
    and post: "alloc_post s P bs n r s1 P1 bs1"
  defines "m2 \<equiv> memcpy_loop (mem s1) (r + 24) (b_addr b + 24) 0 (of_nat (length cs) + 1)"
  obtains m3 where "cstr_at (mem s1) (b_addr b + 24) cs"
    and "pmm_free (b_addr b + 24) (s1\<lparr>mem := m2\<rparr>) = Some (s1\<lparr>mem := m3\<rparr>)"
    and "heap_inv (s1\<lparr>mem := m3\<rparr>) P1 (heap_put (b_addr b) bs1)"
    and "payload_kept bs (mem s) m3" and "cstr_at m3 (r + 24) cs"
    and "\<forall>x. length cs < unat (x - (r + 24)) \<and> unat (x - (r + 24)) < unat n \<longrightarrow> m3 x = mem s x"
    and "{c \<in> set (live bs). b_addr c \<noteq> b_addr b} \<subseteq> set (heap_put (b_addr b) bs1)"
proof -
  obtain z where z: "Blk r z False \<in> set bs1" "n + 24 \<le> z" using post by (auto simp: alloc_post_def)
  have inv1: "heap_inv s1 P1 bs1" and sub: "set (live bs) \<subseteq> set bs1" and rb: "r \<notin> b_addr ` set (live bs)"
    and keep: "payload_kept bs (mem s) (mem s1)"
    and fresh: "\<forall>x. in_range (r + 24) (unat n) x \<longrightarrow> mem s1 x = mem s x"
    and adj1: "adjacent_at (b_addr b) bs1"
    using post b adj by (simp_all add: alloc_post_def)
  have b1: "b \<in> set bs1" "r \<noteq> b_addr b" using sub b rb by auto
  have ok1: "\<forall>c \<in> set bs1. blk_valid c" using inv1 by (simp add: heap_inv_def blocks_ok_def)
  have kz: "unat n + 24 \<le> unat z" using z(2) size_ok_request(2)[OF n] by (simp add: word_le_nat_alt)
  have "blk_valid b" using ok1 b1(1) by blast
  then have str1: "cstr_at (mem s1) (b_addr b + 24) cs"
    using payload_cstr[OF keep b _ len(1)] str by simp
  have kz': "length cs + 25 \<le> unat z" using kz len(2) by simp
  note copy = copy_into_block[OF inv1 b1(1) z(1) b1(2) str1 len(1) kz', folded m2_def]
  obtain m3 where m3: "pmm_free (b_addr b + 24) (s1\<lparr>mem := m2\<rparr>) = Some (s1\<lparr>mem := m3\<rparr>)"
    "heap_list m3 (pmm_free_blocks s1) (heap_put (b_addr b) bs1)" "payload_kept bs1 m2 m3"
    using pmm_free_put[OF copy(1) b1(1)] by auto
  have live1: "set (live bs) \<subseteq> set (live bs1)" "Blk r z False \<in> set (live bs1)"
    using sub z(1) by (auto simp: live_def)
  show thesis
  proof (rule that[OF str1 m3(1)])
    show "heap_inv (s1\<lparr>mem := m3\<rparr>) P1 (heap_put (b_addr b) bs1)"
      using pmm_free_inv[OF copy(1) b1(1) adj1, of m3] m3(2) by simp
    have "m2 x = mem s1 x" if "c \<in> set (live bs)" "in_range (b_addr c) (unat (b_size c)) x" for c x
      using copy(4)[OF _ _ that(2)] sub rb that(1) by blast
    then have "payload_kept bs (mem s1) m2" by (simp add: payload_kept_def)
    moreover have "payload_kept bs m2 m3" using m3(3) live1(1) by (auto simp: payload_kept_def)
    ultimately show "payload_kept bs (mem s) m3" using keep payload_kept_trans by blast
    show "cstr_at m3 (r + 24) cs"
      using payload_cstr[OF m3(3) live1(2), of cs] ok1 z(1) kz' copy(2) by simp
    show "\<forall>x. length cs < unat (x - (r + 24)) \<and> unat (x - (r + 24)) < unat n \<longrightarrow> m3 x = mem s x"
    proof (intro allI impI)
      fix x assume x: "length cs < unat (x - (r + 24)) \<and> unat (x - (r + 24)) < unat n"
      then have "in_range (r + 24) (unat n) x" "\<not> in_range (r + 24) (Suc (length cs)) x"
        by (simp_all only: in_range_def) linarith
      then show "m3 x = mem s x"
        using in_live_payload[OF m3(3) live1(2), of "unat n" x] ok1 z(1) kz copy(3) fresh
        by (simp add: same_outside_def)
    qed
    show "{c \<in> set (live bs). b_addr c \<noteq> b_addr b} \<subseteq> set (heap_put (b_addr b) bs1)"
      using heap_put_live[of bs1 "b_addr b"] live1(1) by blast
  qed
qed

lemma pmm_realloc_copy:
  assumes "pmm_ok s" and "n \<noteq> 0" and "pmm_alloc n s = Some (r, s1)" and "r \<noteq> NULL" and "p \<noteq> NULL"
    and "cstr_at (mem s1) p cs"
  shows "pmm_realloc p n s = map_option (\<lambda>s3. (r, s3))
    (pmm_free p (s1\<lparr>mem := memcpy_loop (mem s1) r p 0 (of_nat (length cs) + 1)\<rparr>))"
  using assms by (simp add: pmm_realloc_def pmm_ok_def scan_nul_cstr)

text \<open>
  C18. \<open>pmm_realloc\<close> of an allocated block that holds a string and whose following free blocks are adjacent to
  it in memory, to a size of at most 4072 bytes that the string fits in with its terminator.  It returns.  Without memory it returns \<open>NULL\<close> and changes nothing, the old block included.
  Otherwise the new block holds the string with its terminator, and behind it what that memory held
  before: nothing else of the old block is copied.  The old block is free, all other allocated
  blocks keep their place and contents, and the heap is well-formed.
\<close>

theorem pmm_realloc_moves_string:
  assumes inv: "heap_inv s P bs" and b: "b \<in> set (live bs)" and adj: "adjacent_at (b_addr b) bs"
    and n: "0 < unat n" "unat n \<le> 4072" and str: "cstr_at (mem s) (b_addr b + 24) cs"
    and len: "length cs + 25 \<le> unat (b_size b)" "length cs < unat n"
  shows "\<exists>r s'. pmm_realloc (b_addr b + 24) n s = Some (r, s') \<and> payload_kept bs (mem s) (mem s') \<and>
    (if r = NULL then s' = s \<and> free_pages s = [] \<and> (\<forall>c \<in> set bs. \<not> fits (n + 24) c)
     else \<exists>P' bs' z y. heap_inv s' P' bs' \<and> P \<subseteq> P'
       \<and> P' \<union> set (free_pages s') = P \<union> set (free_pages s)
       \<and> Blk (r - 24) z False \<in> set bs' \<and> n + 24 \<le> z \<and> r - 24 \<notin> b_addr ` set (live bs)
       \<and> cstr_at (mem s') r cs
       \<and> (\<forall>x. length cs < unat (x - r) \<and> unat (x - r) < unat n \<longrightarrow> mem s' x = mem s x)
       \<and> Blk (b_addr b) y True \<in> set bs'
       \<and> {c \<in> set (live bs). b_addr c \<noteq> b_addr b} \<subseteq> set bs')"
proof -
  have vb: "blk_valid b" and pok: "pmm_ok s"
    using inv b by (auto simp: heap_inv_def blocks_ok_def live_def)
  have p: "b_addr b + 24 \<noteq> NULL" using payload_ptr_nonnull[OF vb] by simp
  have n0: "n \<noteq> 0" using n(1) by auto
  show ?thesis
    using inv n
  proof (cases rule: pmm_alloc_result)
    case exhausted
    then show ?thesis using pok n0 by (simp add: pmm_realloc_def pmm_ok_def payload_kept_def)
  next
    case (block r s1 P1 bs1)
    have b1: "b \<in> set bs1" and rb: "r \<noteq> b_addr b" using block(3) b by (auto simp: alloc_post_def image_iff)
    obtain z where z: "Blk r z False \<in> set (live bs1)" "n + 24 \<le> z"
      using block(3) by (auto simp: alloc_post_def live_def)
    obtain y where y: "Blk (b_addr b) y True \<in> set (heap_put (b_addr b) bs1)"
      using heap_put_freed[OF b1] by blast
    have new: "Blk r z False \<in> set (heap_put (b_addr b) bs1)"
      using heap_put_live[of bs1 "b_addr b"] z(1) rb by auto
    obtain m3 where m3: "cstr_at (mem s1) (b_addr b + 24) cs"
      "pmm_free (b_addr b + 24) (s1\<lparr>mem := memcpy_loop (mem s1) (r + 24) (b_addr b + 24) 0
          (of_nat (length cs) + 1)\<rparr>) = Some (s1\<lparr>mem := m3\<rparr>)"
      "heap_inv (s1\<lparr>mem := m3\<rparr>) P1 (heap_put (b_addr b) bs1)"
      "payload_kept bs (mem s) m3" "cstr_at m3 (r + 24) cs"
      "\<forall>x. length cs < unat (x - (r + 24)) \<and> unat (x - (r + 24)) < unat n \<longrightarrow> m3 x = mem s x"
      "{c \<in> set (live bs). b_addr c \<noteq> b_addr b} \<subseteq> set (heap_put (b_addr b) bs1)"
      by (rule copy_and_free[OF inv b adj n str len block(3)])
    have "pmm_realloc (b_addr b + 24) n s = Some (r + 24, s1\<lparr>mem := m3\<rparr>)"
      using pmm_realloc_copy[OF pok n0 block(1,2) p m3(1)] m3(2) by simp
    with m3(3-7) y new z(2) block(2,3) show ?thesis
      by (intro exI[of _ "r + 24"] exI[of _ "s1\<lparr>mem := m3\<rparr>"])
        (auto simp: alloc_post_def in_range_def intro!: exI[of _ P1] exI[of _ "heap_put (b_addr b) bs1"])
  qed
qed

text \<open>One page in use, with the string \<open>hi\<close> in its block; two pages free.\<close>

definition note_heap :: pmm where
  "note_heap = (snd (pmm_allocpage heap0))\<lparr>pmm_free_blocks := 0x8000,
     mem := set_blk_next 0x8000 NULL (set_blk_is_free 0x8000 False (set_blk_size 0x8000 124
       ((\<lambda>_. 0)(0x8018 := 104, 0x8019 := 105))))\<rparr>"

lemma note_heap_pages: "pmm_ok note_heap" "free_pages note_heap = [0x2000, 0x1000]"
  using pg.inv_alloc[OF heap0_pages(1)] pg.pages_alloc[OF heap0_pages(1)] heap0_pages(2)
  by (simp_all add: note_heap_def)

lemma note_heap_inv: "heap_inv note_heap {0x8000} [Blk 0x8000 124 False]"
  using note_heap_pages
  by (simp add: heap_inv_def note_heap_def mem_simps blocks_ok_def blk_valid_def
      blk_covered_def in_pages_def pages_ok_def)

lemma note_heap_string: "cstr_at (mem note_heap) 0x8018 [104, 105]"
proof -
  have "same_outside 0x8000 24 ((\<lambda>_. 0)(0x8018 := 104, 0x8019 := 105)) (mem note_heap)"
    by (simp add: note_heap_def set_blk_local)
  then have "mem note_heap 0x8018 = 104" "mem note_heap 0x8019 = 105" "mem note_heap 0x801a = 0"
    by (simp_all add: same_outside_def in_range_def)
  then show ?thesis by (simp add: cstr_at_def bytes_at_def)
qed

theorem pmm_realloc_moves_string_witness:
  "\<exists>r s'. pmm_realloc 0x8018 200 note_heap = Some (r, s') \<and> r \<noteq> NULL \<and> cstr_at (mem s') r [104, 105]"
  using pmm_realloc_moves_string[OF note_heap_inv, of "Blk 0x8000 124 False" 200 "[104, 105]"]
    note_heap_string note_heap_pages(2) by (auto simp: live_def split: if_splits)

end
