(* ===== verification/Npf.thy ===== *)
theory Npf
  imports MemOp
begin

text \<open>
  The formatted printing of the kernel, \<^verbatim>\<open>kernel/src/tpf/npf.h\<close> in the configuration that
  \<^verbatim>\<open>kernel/src/tpf/npf.c\<close> selects: field width, precision, large and binary conversions,
  no floating point and no write-back.

  A format is the string literal it is in the kernel, the pointer \<open>cur\<close> into it the part that
  remains; its end plays the part of the terminating NUL.  The variadic arguments are the 64-bit
  slots they are passed in.  Where the code leaves the range of a C \<open>int\<close>, or takes an argument
  that was not passed, its behaviour is undefined, which the definitions show as \<open>None\<close>
  (\<open>Npf_undefined\<close> in the parser).
\<close>

section \<open>Format specifications\<close>

datatype npf_opt = NPF_FMT_SPEC_OPT_NONE | NPF_FMT_SPEC_OPT_LITERAL | NPF_FMT_SPEC_OPT_STAR

datatype npf_len_mod =
    NPF_FMT_SPEC_LEN_MOD_NONE
  | NPF_FMT_SPEC_LEN_MOD_SHORT
  | NPF_FMT_SPEC_LEN_MOD_LONG_DOUBLE
  | NPF_FMT_SPEC_LEN_MOD_CHAR
  | NPF_FMT_SPEC_LEN_MOD_LONG
  | NPF_FMT_SPEC_LEN_MOD_LARGE_LONG_LONG
  | NPF_FMT_SPEC_LEN_MOD_LARGE_INTMAX
  | NPF_FMT_SPEC_LEN_MOD_LARGE_SIZET
  | NPF_FMT_SPEC_LEN_MOD_LARGE_PTRDIFFT

datatype npf_conv =
    NPF_FMT_SPEC_CONV_NONE
  | NPF_FMT_SPEC_CONV_PERCENT
  | NPF_FMT_SPEC_CONV_CHAR
  | NPF_FMT_SPEC_CONV_STRING
  | NPF_FMT_SPEC_CONV_SIGNED_INT
  | NPF_FMT_SPEC_CONV_BINARY
  | NPF_FMT_SPEC_CONV_OCTAL
  | NPF_FMT_SPEC_CONV_HEX_INT
  | NPF_FMT_SPEC_CONV_UNSIGNED_INT
  | NPF_FMT_SPEC_CONV_POINTER

text \<open>The flags \<open>left_justified\<close>, \<open>leading_zero_pad\<close> and \<open>alt_form\<close> are only ever tested against 0.\<close>

record npf_format_spec =
  field_width :: int
  field_width_opt :: npf_opt
  left_justified :: bool
  leading_zero_pad :: bool
  prec :: int
  prec_opt :: npf_opt
  prepend :: u8
  alt_form :: bool
  case_adjust :: u8
  length_modifier :: npf_len_mod
  conv_spec :: npf_conv

definition int32 :: "int \<Rightarrow> int option" where
  "int32 x = (if - (2 ^ 31) \<le> x \<and> x < 2 ^ 31 then Some x else None)"

definition npf_max :: "int \<Rightarrow> int \<Rightarrow> int" where
  "npf_max x y = (if x > y then x else y)"

section \<open>Parsing a format specification\<close>

text \<open>What the parser starts from: the fields it resets; the others are set before they are read.\<close>

definition npf_spec_init :: npf_format_spec where
  "npf_spec_init =
     \<lparr>field_width = 0, field_width_opt = NPF_FMT_SPEC_OPT_NONE, left_justified = False,
      leading_zero_pad = False, prec = 0, prec_opt = NPF_FMT_SPEC_OPT_NONE, prepend = 0,
      alt_form = False, case_adjust = 32, length_modifier = NPF_FMT_SPEC_LEN_MOD_NONE,
      conv_spec = NPF_FMT_SPEC_CONV_NONE\<rparr>"

fun parse_flags :: "npf_format_spec \<Rightarrow> string \<Rightarrow> npf_format_spec \<times> string" where
  "parse_flags fs [] = (fs, [])"
| "parse_flags fs (c # cs) =
     (if c = CHR ''-'' then parse_flags (fs\<lparr>left_justified := True, leading_zero_pad := False\<rparr>) cs
      else if c = CHR ''0'' then parse_flags (fs\<lparr>leading_zero_pad := \<not> left_justified fs\<rparr>) cs
      else if c = CHR ''+'' then parse_flags (fs\<lparr>prepend := of_char CHR ''+''\<rparr>) cs
      else if c = CHR '' '' then parse_flags (if prepend fs = 0 then fs\<lparr>prepend := of_char CHR '' ''\<rparr> else fs) cs
      else if c = CHR ''#'' then parse_flags (fs\<lparr>alt_form := True\<rparr>) cs
      else (fs, c # cs))"

definition is_digit :: "char \<Rightarrow> bool" where
  "is_digit c \<longleftrightarrow> 48 \<le> (of_char c :: nat) \<and> (of_char c :: nat) \<le> 57"

fun parse_digits :: "int \<Rightarrow> string \<Rightarrow> int \<times> string" where
  "parse_digits w [] = (w, [])"
| "parse_digits w (c # cs) =
     (if is_digit c then parse_digits (w * 10 + (of_char c - 48)) cs else (w, c # cs))"

text \<open>\<open>*cur == c\<close>; at the end of the format \<open>*cur\<close> is NUL.\<close>

definition at_char :: "char \<Rightarrow> string \<Rightarrow> bool" where
  "at_char c cur \<longleftrightarrow> cur \<noteq> [] \<and> hd cur = c"

definition parse_width :: "npf_format_spec \<Rightarrow> string \<Rightarrow> npf_format_spec \<times> string" where
  "parse_width fs cur =
     (if at_char CHR ''*'' cur then (fs\<lparr>field_width_opt := NPF_FMT_SPEC_OPT_STAR\<rparr>, tl cur)
      else let (w, r) = parse_digits 0 cur;
               opt = (if cur \<noteq> [] \<and> is_digit (hd cur) then NPF_FMT_SPEC_OPT_LITERAL
                      else NPF_FMT_SPEC_OPT_NONE)
           in (fs\<lparr>field_width := w, field_width_opt := opt\<rparr>, r))"

definition parse_prec :: "npf_format_spec \<Rightarrow> string \<Rightarrow> npf_format_spec \<times> string" where
  "parse_prec fs cur =
     (let fs0 = fs\<lparr>prec := 0, prec_opt := NPF_FMT_SPEC_OPT_NONE\<rparr>
      in if at_char CHR ''.'' cur
         then if at_char CHR ''*'' (tl cur) then (fs0\<lparr>prec_opt := NPF_FMT_SPEC_OPT_STAR\<rparr>, tl (tl cur))
              else if at_char CHR ''-'' (tl cur)
              then let (p, r) = parse_digits 0 (tl (tl cur)) in (fs0\<lparr>prec := p\<rparr>, r)
              else let (p, r) = parse_digits 0 (tl cur)
                   in (fs0\<lparr>prec := p, prec_opt := NPF_FMT_SPEC_OPT_LITERAL\<rparr>, r)
         else (fs0, cur))"

definition parse_length :: "string \<Rightarrow> npf_len_mod \<times> string" where
  "parse_length cur =
     (if at_char CHR ''h'' cur
      then if at_char CHR ''h'' (tl cur) then (NPF_FMT_SPEC_LEN_MOD_CHAR, tl (tl cur))
           else (NPF_FMT_SPEC_LEN_MOD_SHORT, tl cur)
      else if at_char CHR ''l'' cur
      then if at_char CHR ''l'' (tl cur) then (NPF_FMT_SPEC_LEN_MOD_LARGE_LONG_LONG, tl (tl cur))
           else (NPF_FMT_SPEC_LEN_MOD_LONG, tl cur)
      else if at_char CHR ''j'' cur then (NPF_FMT_SPEC_LEN_MOD_LARGE_INTMAX, tl cur)
      else if at_char CHR ''z'' cur then (NPF_FMT_SPEC_LEN_MOD_LARGE_SIZET, tl cur)
      else if at_char CHR ''t'' cur then (NPF_FMT_SPEC_LEN_MOD_LARGE_PTRDIFFT, tl cur)
      else (NPF_FMT_SPEC_LEN_MOD_NONE, cur))"

text \<open>The fall-through cases of the integer conversions, with the conversion \<open>tmp_conv\<close> they arrive at.\<close>

definition set_int_conv :: "npf_format_spec \<Rightarrow> npf_conv \<Rightarrow> npf_format_spec" where
  "set_int_conv fs tmp_conv =
     (let fs1 = fs\<lparr>conv_spec := tmp_conv\<rparr>
      in if prec_opt fs \<noteq> NPF_FMT_SPEC_OPT_NONE then fs1\<lparr>leading_zero_pad := False\<rparr> else fs1)"

text \<open>The conversion specifier, or \<open>None\<close> for a character that is none (the code returns 0).\<close>

definition parse_conv :: "npf_format_spec \<Rightarrow> char \<Rightarrow> npf_format_spec option" where
  "parse_conv fs c =
     (if c = CHR ''%'' then Some (fs\<lparr>conv_spec := NPF_FMT_SPEC_CONV_PERCENT, prec_opt := NPF_FMT_SPEC_OPT_NONE\<rparr>)
      else if c = CHR ''c'' then Some (fs\<lparr>conv_spec := NPF_FMT_SPEC_CONV_CHAR, prec_opt := NPF_FMT_SPEC_OPT_NONE\<rparr>)
      else if c = CHR ''s'' then Some (fs\<lparr>conv_spec := NPF_FMT_SPEC_CONV_STRING, leading_zero_pad := False\<rparr>)
      else if c = CHR ''i'' \<or> c = CHR ''d'' then Some (set_int_conv fs NPF_FMT_SPEC_CONV_SIGNED_INT)
      else if c = CHR ''o'' then Some (set_int_conv fs NPF_FMT_SPEC_CONV_OCTAL)
      else if c = CHR ''u'' then Some (set_int_conv fs NPF_FMT_SPEC_CONV_UNSIGNED_INT)
      else if c = CHR ''X'' then Some (set_int_conv (fs\<lparr>case_adjust := 0\<rparr>) NPF_FMT_SPEC_CONV_HEX_INT)
      else if c = CHR ''x'' then Some (set_int_conv fs NPF_FMT_SPEC_CONV_HEX_INT)
      else if c = CHR ''p'' then Some (fs\<lparr>conv_spec := NPF_FMT_SPEC_CONV_POINTER, prec_opt := NPF_FMT_SPEC_OPT_NONE\<rparr>)
      else if c = CHR ''B'' then Some (fs\<lparr>case_adjust := 0, conv_spec := NPF_FMT_SPEC_CONV_BINARY\<rparr>)
      else if c = CHR ''b'' then Some (fs\<lparr>conv_spec := NPF_FMT_SPEC_CONV_BINARY\<rparr>)
      else None)"

datatype npf_parse = Npf_undefined | Npf_literal | Npf_spec npf_format_spec string

text \<open>
  \<open>format\<close> starts at the \<open>%\<close>.  A width or precision outside of \<open>int\<close> overflows in the digit loop;
  the digits only ever raise the value, so it suffices to look at the last one.
\<close>

definition npf_parse_format_spec :: "string \<Rightarrow> npf_parse" where
  "npf_parse_format_spec format =
     (let (fs1, cur1) = parse_flags npf_spec_init (tl format);
          (fs2, cur2) = parse_width fs1 cur1;
          (fs3, cur3) = parse_prec fs2 cur2;
          (lm, cur4) = parse_length cur3
      in if int32 (field_width fs3) = None \<or> int32 (prec fs3) = None then Npf_undefined
         else case cur4 of
             [] \<Rightarrow> Npf_literal
           | c # cur5 \<Rightarrow>
              (case parse_conv (fs3\<lparr>length_modifier := lm\<rparr>) c of
                 None \<Rightarrow> Npf_literal
               | Some fs \<Rightarrow> Npf_spec fs cur5))"

section \<open>Digits\<close>

definition digit_char :: "u8 \<Rightarrow> u64 \<Rightarrow> u8" where
  "digit_char case_adj d =
     (if d < 10 then of_char CHR ''0'' else of_char CHR ''A'' - 10 + case_adj) + ucast d"

text \<open>The digits of \<open>val\<close>, the last one first, as they are written to \<open>buf\<close>.  Base 0 divides by zero
and base 1 never ends.\<close>

partial_function (option) npf_utoa_rev :: "u64 \<Rightarrow> u64 \<Rightarrow> u8 \<Rightarrow> u8 list option" where
  "npf_utoa_rev val base case_adj =
     (if base = 0 then None
      else if val div base = 0 then Some [digit_char case_adj (val mod base)]
      else Option.bind (npf_utoa_rev (val div base) base case_adj)
             (\<lambda>cs. Some (digit_char case_adj (val mod base) # cs)))"

declare npf_utoa_rev.simps [code]

text \<open>\<open>NPF_CLZ\<close> is the width of \<open>long long\<close> less the compiler's count of leading zeros
(\<open>__builtin_clzll\<close>).\<close>

definition builtin_clzll :: "u64 \<Rightarrow> nat" where
  "builtin_clzll u = length (takeWhile (\<lambda>i. \<not> bit u i) (rev [0..<64]))"

definition npf_bin_len :: "u64 \<Rightarrow> int" where
  "npf_bin_len u = (if u = 0 then 1 else 64 - int (builtin_clzll u))"

section \<open>Output\<close>

text \<open>
  The destination of the characters: \<open>npf_bufputc_ctx_t\<close> (\<open>dst\<close>, \<open>len\<close>, \<open>cur\<close>) with the memory it
  writes to, and the counter \<open>n\<close> of \<open>npf_cnt_putc_ctx_t\<close>.
\<close>

record npf_out =
  out_mem :: mem
  out_dst :: ptr
  out_len :: u64
  out_cur :: u64
  out_n :: int

type_synonym npf_putc = "u8 \<Rightarrow> npf_out \<Rightarrow> npf_out"

definition npf_bufputc :: npf_putc where
  "npf_bufputc c bpc =
     (if out_cur bpc < out_len bpc
      then bpc\<lparr>out_mem := (out_mem bpc)(out_dst bpc + out_cur bpc := c), out_cur := out_cur bpc + 1\<rparr> else bpc)"

definition npf_bufputc_nop :: npf_putc where
  "npf_bufputc_nop c bpc = bpc"

definition npf_putc_cnt :: "npf_putc \<Rightarrow> npf_putc" where
  "npf_putc_cnt pc c pc_cnt = pc c (pc_cnt\<lparr>out_n := out_n pc_cnt + 1\<rparr>)"

section \<open>Converting an argument\<close>

type_synonym va_list = "u64 list"

fun va_arg :: "va_list \<Rightarrow> (u64 \<times> va_list) option" where
  "va_arg [] = None"
| "va_arg (x # xs) = Some (x, xs)"

fun npf_extract_signed :: "npf_len_mod \<Rightarrow> u64 \<Rightarrow> u64" where
  "npf_extract_signed NPF_FMT_SPEC_LEN_MOD_NONE x = scast (ucast x :: u32)"
| "npf_extract_signed NPF_FMT_SPEC_LEN_MOD_SHORT x = scast (ucast x :: u16)"
| "npf_extract_signed NPF_FMT_SPEC_LEN_MOD_LONG_DOUBLE x = scast (ucast x :: u32)"
| "npf_extract_signed NPF_FMT_SPEC_LEN_MOD_CHAR x = scast (ucast x :: u8)"
| "npf_extract_signed NPF_FMT_SPEC_LEN_MOD_LONG x = x"
| "npf_extract_signed NPF_FMT_SPEC_LEN_MOD_LARGE_LONG_LONG x = x"
| "npf_extract_signed NPF_FMT_SPEC_LEN_MOD_LARGE_INTMAX x = x"
| "npf_extract_signed NPF_FMT_SPEC_LEN_MOD_LARGE_SIZET x = x"
| "npf_extract_signed NPF_FMT_SPEC_LEN_MOD_LARGE_PTRDIFFT x = x"

fun npf_extract_unsigned :: "npf_len_mod \<Rightarrow> u64 \<Rightarrow> u64" where
  "npf_extract_unsigned NPF_FMT_SPEC_LEN_MOD_NONE x = ucast (ucast x :: u32)"
| "npf_extract_unsigned NPF_FMT_SPEC_LEN_MOD_SHORT x = ucast (ucast x :: u16)"
| "npf_extract_unsigned NPF_FMT_SPEC_LEN_MOD_LONG_DOUBLE x = ucast (ucast x :: u32)"
| "npf_extract_unsigned NPF_FMT_SPEC_LEN_MOD_CHAR x = ucast (ucast x :: u8)"
| "npf_extract_unsigned NPF_FMT_SPEC_LEN_MOD_LONG x = x"
| "npf_extract_unsigned NPF_FMT_SPEC_LEN_MOD_LARGE_LONG_LONG x = x"
| "npf_extract_unsigned NPF_FMT_SPEC_LEN_MOD_LARGE_INTMAX x = x"
| "npf_extract_unsigned NPF_FMT_SPEC_LEN_MOD_LARGE_SIZET x = x"
| "npf_extract_unsigned NPF_FMT_SPEC_LEN_MOD_LARGE_PTRDIFFT x = x"

text \<open>
  What \<open>cbuf\<close> and \<open>u\<close> hold after a conversion: characters in the local buffer, last one first; the
  argument of a string conversion, in memory; or the value of a binary conversion.
\<close>

datatype npf_payload = Cbuf "u8 list" | Str ptr | Binval u64

record npf_conversion =
  payload :: npf_payload
  cbuf_len :: int
  sign_c :: u8
  need_0x :: u8
  zero :: bool

definition cbuf_conversion :: "u8 list \<Rightarrow> npf_conversion" where
  "cbuf_conversion cs =
     \<lparr>payload = Cbuf cs, cbuf_len = int (length cs), sign_c = 0, need_0x = 0, zero = False\<rparr>"

definition star_args :: "npf_format_spec \<Rightarrow> va_list \<Rightarrow> (npf_format_spec \<times> va_list) option" where
  "star_args fs args =
     Option.bind
       (if field_width_opt fs = NPF_FMT_SPEC_OPT_STAR
        then Option.bind (va_arg args) (\<lambda>(x, args1).
               let w = sint (ucast x :: u32)
               in if w < 0 then map_option (\<lambda>v. (fs\<lparr>field_width := v, left_justified := True\<rparr>, args1)) (int32 (- w))
                  else Some (fs\<lparr>field_width := w\<rparr>, args1))
        else Some (fs, args)) (\<lambda>(fs1, args1).
     if prec_opt fs1 = NPF_FMT_SPEC_OPT_STAR
     then Option.bind (va_arg args1) (\<lambda>(x, args2).
            let p = sint (ucast x :: u32); fs2 = fs1\<lparr>prec := p\<rparr>
            in Some (if p < 0 then fs2\<lparr>prec_opt := NPF_FMT_SPEC_OPT_NONE\<rparr> else fs2, args2))
     else Some (fs1, args1))"

text \<open>The length of a string argument, up to the precision if there is one.\<close>

function npf_strlen :: "mem \<Rightarrow> ptr \<Rightarrow> npf_format_spec \<Rightarrow> nat \<Rightarrow> nat option" where
  "npf_strlen m s fs i =
     (if i \<le> INT_MAX
      then if (prec_opt fs = NPF_FMT_SPEC_OPT_NONE \<or> int i < prec fs) \<and> m (s + of_nat i) \<noteq> 0
           then npf_strlen m s fs (i + 1) else Some i
      else None)"
  by pat_completeness auto
termination
  by (relation "measure (\<lambda>(m, s, fs, i). Suc INT_MAX - i)") auto

declare npf_strlen.simps [simp del]

definition npf_string :: "mem \<Rightarrow> npf_format_spec \<Rightarrow> va_list \<Rightarrow> (npf_conversion \<times> va_list) option" where
  "npf_string m fs args =
     Option.bind (va_arg args) (\<lambda>(s, args1).
     map_option (\<lambda>k. (\<lparr>payload = Str s, cbuf_len = int k, sign_c = 0, need_0x = 0, zero = False\<rparr>, args1))
       (npf_strlen m s fs 0))"

definition npf_signed :: "npf_format_spec \<Rightarrow> va_list \<Rightarrow> (npf_conversion \<times> va_list) option" where
  "npf_signed fs args =
     Option.bind (va_arg args) (\<lambda>(x, args1).
       let val = npf_extract_signed (length_modifier fs) x;
           sg = (if sint val < 0 then of_char CHR ''-'' else prepend fs)
       in map_option (\<lambda>cs. (\<lparr>payload = Cbuf cs, cbuf_len = int (length cs), sign_c = sg, need_0x = 0,
                            zero = (val = 0)\<rparr>, args1))
            (if val = 0 \<and> prec_opt fs \<noteq> NPF_FMT_SPEC_OPT_NONE \<and> prec fs = 0 then Some []
             else npf_utoa_rev (if sint val < 0 then 0 - val else val) 10 (case_adjust fs)))"

definition npf_base :: "npf_format_spec \<Rightarrow> u64" where
  "npf_base fs = (if conv_spec fs = NPF_FMT_SPEC_CONV_OCTAL then 8
     else if conv_spec fs = NPF_FMT_SPEC_CONV_HEX_INT then 16 else 10)"

text \<open>The unsigned conversions; the code may raise the precision, so \<open>fs\<close> is returned.\<close>

definition npf_unsigned ::
    "npf_format_spec \<Rightarrow> va_list \<Rightarrow> (npf_format_spec \<times> npf_conversion \<times> va_list) option" where
  "npf_unsigned fs args =
     Option.bind (va_arg args) (\<lambda>(x, args1).
       let val = npf_extract_unsigned (length_modifier fs) x;
           skip = (val = 0 \<and> prec_opt fs \<noteq> NPF_FMT_SPEC_OPT_NONE \<and> prec fs = 0);
           fs1 = (if skip \<and> conv_spec fs = NPF_FMT_SPEC_CONV_OCTAL \<and> alt_form fs then fs\<lparr>prec := 1\<rparr> else fs)
       in Option.bind
            (if skip then Some (Cbuf [], 0)
             else if conv_spec fs = NPF_FMT_SPEC_CONV_BINARY then Some (Binval val, npf_bin_len val)
             else map_option (\<lambda>cs. (Cbuf cs, int (length cs))) (npf_utoa_rev val (npf_base fs) (case_adjust fs)))
          (\<lambda>(pl, k).
            let (pl1, k1) =
                  (case pl of
                     Cbuf cs \<Rightarrow>
                       if val \<noteq> 0 \<and> alt_form fs \<and> conv_spec fs = NPF_FMT_SPEC_CONV_OCTAL
                       then (Cbuf (cs @ [of_char CHR ''0'']), k + 1) else (pl, k)
                   | _ \<Rightarrow> (pl, k));
                need =
                  (if val \<noteq> 0 \<and> alt_form fs
                   then if conv_spec fs = NPF_FMT_SPEC_CONV_HEX_INT then of_char CHR ''X'' + case_adjust fs
                        else if conv_spec fs = NPF_FMT_SPEC_CONV_BINARY then of_char CHR ''B'' + case_adjust fs
                        else 0
                   else 0)
            in Some (fs1, \<lparr>payload = pl1, cbuf_len = k1, sign_c = 0, need_0x = need, zero = (val = 0)\<rparr>, args1)))"

definition npf_pointer :: "va_list \<Rightarrow> (npf_conversion \<times> va_list) option" where
  "npf_pointer args =
     Option.bind (va_arg args) (\<lambda>(x, args1).
       map_option (\<lambda>cs. ((cbuf_conversion cs)\<lparr>need_0x := of_char CHR ''x''\<rparr>, args1))
         (npf_utoa_rev x 16 32))"

definition npf_convert ::
    "mem \<Rightarrow> npf_format_spec \<Rightarrow> va_list \<Rightarrow> (npf_format_spec \<times> npf_conversion \<times> va_list) option" where
  "npf_convert m fs args =
     (case conv_spec fs of
        NPF_FMT_SPEC_CONV_PERCENT \<Rightarrow> Some (fs, cbuf_conversion [of_char CHR ''%''], args)
      | NPF_FMT_SPEC_CONV_CHAR \<Rightarrow>
          map_option (\<lambda>(x, args1). (fs, cbuf_conversion [ucast x], args1)) (va_arg args)
      | NPF_FMT_SPEC_CONV_STRING \<Rightarrow> map_option (Pair fs) (npf_string m fs args)
      | NPF_FMT_SPEC_CONV_SIGNED_INT \<Rightarrow> map_option (Pair fs) (npf_signed fs args)
      | NPF_FMT_SPEC_CONV_BINARY \<Rightarrow> npf_unsigned fs args
      | NPF_FMT_SPEC_CONV_OCTAL \<Rightarrow> npf_unsigned fs args
      | NPF_FMT_SPEC_CONV_HEX_INT \<Rightarrow> npf_unsigned fs args
      | NPF_FMT_SPEC_CONV_UNSIGNED_INT \<Rightarrow> npf_unsigned fs args
      | NPF_FMT_SPEC_CONV_POINTER \<Rightarrow> map_option (Pair fs) (npf_pointer args)
      | NPF_FMT_SPEC_CONV_NONE \<Rightarrow> Some (fs, cbuf_conversion [], args))"

section \<open>Padding\<close>

definition npf_pad_c :: "npf_format_spec \<Rightarrow> bool \<Rightarrow> u8" where
  "npf_pad_c fs is_zero =
     (if field_width_opt fs \<noteq> NPF_FMT_SPEC_OPT_NONE
      then if leading_zero_pad fs
           then if conv_spec fs \<noteq> NPF_FMT_SPEC_CONV_STRING \<and> conv_spec fs \<noteq> NPF_FMT_SPEC_CONV_CHAR
                   \<and> conv_spec fs \<noteq> NPF_FMT_SPEC_CONV_PERCENT
                then if prec_opt fs \<noteq> NPF_FMT_SPEC_OPT_NONE \<and> prec fs = 0 \<and> is_zero
                     then of_char CHR '' '' else of_char CHR ''0''
                else 0
           else of_char CHR '' ''
      else 0)"

definition npf_prec_pad :: "npf_format_spec \<Rightarrow> npf_conversion \<Rightarrow> int option" where
  "npf_prec_pad fs cv =
     (if conv_spec fs \<noteq> NPF_FMT_SPEC_CONV_STRING
      then map_option (npf_max 0) (int32 (prec fs - cbuf_len cv)) else Some 0)"

definition npf_field_pad :: "npf_format_spec \<Rightarrow> npf_conversion \<Rightarrow> int \<Rightarrow> int option" where
  "npf_field_pad fs cv prec_pad =
     Option.bind (int32 (field_width fs - cbuf_len cv)) (\<lambda>pad0.
     Option.bind (int32 (pad0 - (if sign_c cv \<noteq> 0 then 1 else 0))) (\<lambda>pad1.
     Option.bind (if need_0x cv \<noteq> 0 then int32 (pad1 - 2) else Some pad1) (\<lambda>pad2.
     map_option (npf_max 0) (int32 (pad2 - prec_pad)))))"

section \<open>Writing a conversion\<close>

definition put_times :: "npf_putc \<Rightarrow> int \<Rightarrow> u8 \<Rightarrow> npf_out \<Rightarrow> npf_out" where
  "put_times pc k c s = (npf_putc_cnt pc c ^^ nat k) s"

definition put_0x :: "npf_putc \<Rightarrow> npf_conversion \<Rightarrow> npf_out \<Rightarrow> npf_out" where
  "put_0x pc cv s =
     (if need_0x cv \<noteq> 0 then npf_putc_cnt pc (need_0x cv) (npf_putc_cnt pc (of_char CHR ''0'') s) else s)"

definition put_sign :: "npf_putc \<Rightarrow> npf_conversion \<Rightarrow> npf_out \<Rightarrow> npf_out" where
  "put_sign pc cv s = (if sign_c cv \<noteq> 0 then npf_putc_cnt pc (sign_c cv) s else s)"

text \<open>What comes before the payload: the right-justified padding with the prefix around it.  The
conversion is returned with its sign reset where the sign has been written.\<close>

definition put_lead :: "npf_putc \<Rightarrow> npf_format_spec \<Rightarrow> npf_conversion \<Rightarrow> u8 \<Rightarrow> int \<Rightarrow> npf_out
    \<Rightarrow> npf_conversion \<times> npf_out" where
  "put_lead pc fs cv pad_c field_pad s =
     (if \<not> left_justified fs \<and> pad_c \<noteq> 0
      then let (cv1, s1) =
                 (if pad_c = of_char CHR ''0''
                  then (cv\<lparr>sign_c := 0\<rparr>, put_0x pc cv (put_sign pc cv s)) else (cv, s));
               s2 = put_times pc field_pad pad_c s1;
               s3 = (if pad_c \<noteq> of_char CHR ''0'' then put_0x pc cv s2 else s2)
           in (cv1, s3)
      else (cv, put_0x pc cv s))"

text \<open>The payload; a string is read while it is written.\<close>

definition put_payload :: "npf_putc \<Rightarrow> npf_conversion \<Rightarrow> int \<Rightarrow> npf_out \<Rightarrow> npf_out" where
  "put_payload pc cv prec_pad s =
     (case payload cv of
        Str p \<Rightarrow>
          fold (\<lambda>i s. npf_putc_cnt pc (out_mem s (p + of_nat i)) s) [0..<nat (cbuf_len cv)] s
      | Cbuf cs \<Rightarrow>
          fold (\<lambda>i. npf_putc_cnt pc (cs ! i)) (rev [0..<nat (cbuf_len cv)])
            (put_times pc prec_pad (of_char CHR ''0'') (put_sign pc cv s))
      | Binval v \<Rightarrow>
          fold (\<lambda>i. npf_putc_cnt pc (of_char CHR ''0'' + ucast (drop_bit i v AND 1))) (rev [0..<nat (cbuf_len cv)])
            (put_times pc prec_pad (of_char CHR ''0'') (put_sign pc cv s)))"

definition put_trail :: "npf_putc \<Rightarrow> npf_format_spec \<Rightarrow> u8 \<Rightarrow> int \<Rightarrow> npf_out \<Rightarrow> npf_out" where
  "put_trail pc fs pad_c field_pad s =
     (if left_justified fs \<and> pad_c \<noteq> 0 then put_times pc field_pad pad_c s else s)"

definition npf_write :: "npf_putc \<Rightarrow> npf_format_spec \<Rightarrow> npf_conversion \<Rightarrow> npf_out \<Rightarrow> npf_out option" where
  "npf_write pc fs cv s =
     Option.bind (npf_prec_pad fs cv) (\<lambda>prec_pad.
     Option.bind (npf_field_pad fs cv prec_pad) (\<lambda>field_pad.
       let pad_c = npf_pad_c fs (zero cv);
           (cv1, s1) = put_lead pc fs cv pad_c field_pad s;
           s2 = put_payload pc cv1 prec_pad s1
       in Some (put_trail pc fs pad_c field_pad s2)))"

text \<open>One conversion, from its parsed specification to its output.\<close>

definition npf_field :: "npf_putc \<Rightarrow> npf_format_spec \<Rightarrow> va_list \<Rightarrow> npf_out \<Rightarrow> (va_list \<times> npf_out) option" where
  "npf_field pc fs0 args0 s =
     Option.bind (star_args fs0 args0) (\<lambda>(fs1, args1).
     Option.bind (npf_convert (out_mem s) fs1 args1) (\<lambda>(fs, cv, args).
       map_option (Pair args) (npf_write pc fs cv s)))"

section \<open>The format string\<close>

lemma parse_flags_length: "length (snd (parse_flags fs s)) \<le> length s"
  by (induction fs s rule: parse_flags.induct) auto

lemma parse_digits_length: "length (snd (parse_digits w s)) \<le> length s"
  by (induction w s rule: parse_digits.induct) auto

lemma parse_width_length: "length (snd (parse_width fs s)) \<le> length s"
  using parse_digits_length[of 0 s] by (auto simp: parse_width_def Let_def split: prod.splits)

lemma parse_prec_length: "length (snd (parse_prec fs s)) \<le> length s"
  using parse_digits_length[of 0 "tl s"] parse_digits_length[of 0 "tl (tl s)"]
  by (auto simp: parse_prec_def Let_def split: prod.splits)

lemma parse_length_length: "length (snd (parse_length s)) \<le> length s"
  by (simp add: parse_length_def)

text \<open>A specification takes at least one character, so the loop over the format ends.\<close>

lemma npf_parse_shorter:
  assumes "npf_parse_format_spec s = Npf_spec fs r"
  shows "length r < length s"
proof -
  obtain fs1 cur1 fs2 cur2 fs3 cur3 lm cur4 where p:
    "parse_flags npf_spec_init (tl s) = (fs1, cur1)" "parse_width fs1 cur1 = (fs2, cur2)"
    "parse_prec fs2 cur2 = (fs3, cur3)" "parse_length cur3 = (lm, cur4)"
    by (metis surj_pair)
  have "length cur4 \<le> length (tl s)"
    using parse_flags_length[of npf_spec_init "tl s"] parse_width_length[of fs1 cur1]
      parse_prec_length[of fs2 cur2] parse_length_length[of cur3] by (simp add: p)
  moreover have "length r < length cur4"
    using assms by (auto simp: npf_parse_format_spec_def p split: if_splits list.splits option.splits)
  ultimately show ?thesis by simp
qed

function npf_loop :: "npf_putc \<Rightarrow> string \<Rightarrow> va_list \<Rightarrow> npf_out \<Rightarrow> npf_out option" where
  "npf_loop pc [] args s = Some s"
| "npf_loop pc (c # cs) args s =
     (case (if c \<noteq> CHR ''%'' then Npf_literal else npf_parse_format_spec (c # cs)) of
        Npf_undefined \<Rightarrow> None
      | Npf_literal \<Rightarrow> npf_loop pc cs args (npf_putc_cnt pc (of_char c) s)
      | Npf_spec fs cur \<Rightarrow>
          Option.bind (npf_field pc fs args s) (\<lambda>(args1, s1). npf_loop pc cur args1 s1))"
  by pat_completeness auto
termination
  by (relation "measure (\<lambda>(pc, cur, args, s). length cur)")
     (auto simp: less_Suc_eq_le dest!: npf_parse_shorter split: if_splits)

text \<open>The counter is a C \<open>int\<close>; it only grows, so it overflows on the way exactly if it does at the end.\<close>

definition npf_vpprintf :: "npf_putc \<Rightarrow> string \<Rightarrow> va_list \<Rightarrow> npf_out \<Rightarrow> npf_out option" where
  "npf_vpprintf pc format args s =
     Option.bind (npf_loop pc (takeWhile (\<lambda>c. c \<noteq> CHR 0x00) format) args (s\<lparr>out_n := 0\<rparr>)) (\<lambda>s1.
       map_option (\<lambda>_. s1) (int32 (out_n s1)))"

definition npf_pprintf :: "npf_putc \<Rightarrow> string \<Rightarrow> va_list \<Rightarrow> npf_out \<Rightarrow> (int \<times> npf_out) option" where
  "npf_pprintf pc format args s = map_option (\<lambda>s1. (out_n s1, s1)) (npf_vpprintf pc format args s)"

definition npf_vsnprintf :: "ptr \<Rightarrow> u64 \<Rightarrow> string \<Rightarrow> va_list \<Rightarrow> mem \<Rightarrow> (int \<times> mem) option" where
  "npf_vsnprintf buffer bufsz format vlist m =
     (let pc = (if buffer \<noteq> NULL then npf_bufputc else npf_bufputc_nop)
      in Option.bind (npf_vpprintf pc format vlist
              \<lparr>out_mem = m, out_dst = buffer, out_len = bufsz, out_cur = 0, out_n = 0\<rparr>) (\<lambda>s.
           let m1 = out_mem (pc 0 s)
           in Some (out_n s, if buffer \<noteq> NULL \<and> bufsz \<noteq> 0 then m1(buffer + (bufsz - 1) := 0) else m1)))"

definition npf_snprintf :: "ptr \<Rightarrow> u64 \<Rightarrow> string \<Rightarrow> va_list \<Rightarrow> mem \<Rightarrow> (int \<times> mem) option" where
  "npf_snprintf buffer bufsz format val m = npf_vsnprintf buffer bufsz format val m"

end
