(* ===== verification/NpfText.thy ===== *)
theory NpfText
  imports Npf
begin

text \<open>
  What the formatted printing means: the text of a conversion, as positional numerals, a sign or
  base prefix, and padding, written without buffers, counters or widths of integers; and the
  proof that the code of theory \<open>Npf\<close> prints exactly this text.
\<close>

section \<open>Positional numerals\<close>

function digits :: "nat \<Rightarrow> nat \<Rightarrow> nat list" where
  "digits b k = (if b < 2 \<or> k < b then [k] else digits b (k div b) @ [k mod b])"
  by pat_completeness auto
termination
  by (relation "measure snd") (auto intro!: div_less_dividend)

declare digits.simps [simp del]

definition digits_value :: "nat \<Rightarrow> nat list \<Rightarrow> nat" where
  "digits_value b = foldl (\<lambda>a d. a * b + d) 0"

lemma digits_value_digits: "digits_value b (digits b k) = k"
proof (induction b k rule: digits.induct)
  case (1 b k)
  then show ?case by (subst digits.simps) (auto simp: digits_value_def)
qed

lemma digits_below: "2 \<le> b \<Longrightarrow> d \<in> set (digits b k) \<Longrightarrow> d < b"
proof (induction b k rule: digits.induct)
  case (1 b k)
  then show ?case
    by (cases "k < b") (auto simp: digits.simps[of b k])
qed

lemma digits_nonempty [simp]: "digits b k \<noteq> []"
  by (simp add: digits.simps[of b k])

lemma digits_length: "2 \<le> b \<Longrightarrow> k < b ^ i \<Longrightarrow> 0 < i \<Longrightarrow> length (digits b k) \<le> i"
proof (induction b k arbitrary: i rule: digits.induct)
  case (1 b k)
  show ?case
  proof (cases "k < b")
    case False
    then have "i \<noteq> 1" using "1.prems"(2) by auto
    then obtain j where j: "i = Suc j" "0 < j" using "1.prems"(3) by (cases i) auto
    then have "k div b < b ^ j" using "1.prems" by (simp add: less_mult_imp_div_less mult.commute)
    then show ?thesis
      using "1.IH"[of j] "1.prems" False j by (simp add: digits.simps[of b k])
  qed (use "1.prems" in \<open>simp add: digits.simps[of b k]\<close>)
qed

definition numeral_text :: "u8 \<Rightarrow> nat \<Rightarrow> nat \<Rightarrow> u8 list" where
  "numeral_text case_adj b k = map (\<lambda>d. digit_char case_adj (of_nat d)) (digits b k)"

lemma utoa_numeral:
  assumes "2 \<le> base"
  shows "npf_utoa_rev v base ca = Some (rev (numeral_text ca (unat base) (unat v)))"
proof (induction "unat v" arbitrary: v rule: less_induct)
  case less
  have b: "2 \<le> unat base" using assms by (simp add: word_le_nat_alt)
  show ?case
  proof (cases "v div base = 0")
    case True
    then have "unat v div unat base = 0" by (metis unat_div_distrib unsigned_0)
    then have "unat v < unat base" using b by (simp add: div_eq_0_iff)
    moreover have "v mod base = v"
      by (metis \<open>unat v < unat base\<close> mod_less unat_mod_distrib word_unat_eq_iff)
    ultimately show ?thesis
      using b by (subst npf_utoa_rev.simps) (auto simp: True numeral_text_def digits.simps[of "unat base" "unat v"])
  next
    case False
    then have "\<not> unat v < unat base"
      by (metis div_less unat_div_distrib unsigned_0 word_unat_eq_iff)
    moreover have "unat (v div base) < unat v"
      using calculation b by (simp add: unat_div_distrib)
    ultimately show ?thesis
      using b less[of "v div base"] False
      by (subst npf_utoa_rev.simps)
         (auto simp: numeral_text_def digits.simps[of "unat base" "unat v"] unat_div_distrib
            simp flip: unat_mod_distrib)
  qed
qed

text \<open>The bits of a binary conversion are the digits in base 2.\<close>

lemma takeWhile_top:
  assumes "\<exists>i < n. P i"
  obtains k where "k < n" "P k" "\<forall>j. k < j \<longrightarrow> j < n \<longrightarrow> \<not> P j"
    "length (takeWhile (\<lambda>i. \<not> P i) (rev [0..<n])) = n - Suc k"
  using assms
proof (induction n arbitrary: thesis)
  case (Suc n)
  show ?case
  proof (cases "P n")
    case True
    then show ?thesis by (intro Suc.prems(1)[of n]) auto
  next
    case False
    with Suc.prems(2) have "\<exists>i < n. P i" using less_Suc_eq by auto
    from Suc.IH[OF _ this] obtain k where "k < n" "P k" "\<forall>j. k < j \<longrightarrow> j < n \<longrightarrow> \<not> P j"
      "length (takeWhile (\<lambda>i. \<not> P i) (rev [0..<n])) = n - Suc k" .
    with False show ?thesis by (intro Suc.prems(1)[of k]) (auto simp: less_Suc_eq Suc_diff_le)
  qed
qed simp

lemma npf_bin_len_top:
  assumes "u \<noteq> 0"
  obtains k where "k < 64" "npf_bin_len u = int (Suc k)" "2 ^ k \<le> unat u" "unat u < 2 ^ Suc k"
proof -
  obtain i where "bit u i" using assms by (auto simp: bit_eq_iff)
  then have "\<exists>i < 64. bit u i" using bit_imp_le_length[of u i] by auto
  then obtain k where k: "k < 64" "bit u k" "\<forall>j. k < j \<longrightarrow> j < 64 \<longrightarrow> \<not> bit u j"
    "length (takeWhile (\<lambda>i. \<not> bit u i) (rev [0..<64])) = 64 - Suc k"
    by (rule takeWhile_top)
  have "take_bit (Suc k) u = u"
  proof (rule bit_eqI)
    fix j assume "possible_bit TYPE(64 word) j"
    then show "bit (take_bit (Suc k) u) j = bit u j"
      using k(3) by (auto simp: bit_take_bit_iff not_less less_Suc_eq_le)
  qed
  then have "take_bit (Suc k) (unat u) = unat u" by (metis unsigned_take_bit_eq)
  then have "unat u < 2 ^ Suc k" by (metis take_bit_nat_less_exp)
  moreover have "2 ^ k \<le> unat u"
  proof (rule ccontr)
    assume "\<not> 2 ^ k \<le> unat u"
    then have "unat u div 2 ^ k = 0" by simp
    moreover have "bit (unat u) k" using k(1,2) by (simp add: bit_unsigned_iff)
    ultimately show False by (simp add: bit_iff_odd)
  qed
  moreover have "npf_bin_len u = int (Suc k)"
    using assms k(1,4) by (simp add: npf_bin_len_def builtin_clzll_def)
  ultimately show ?thesis using that k(1) by blast
qed

lemma digits_bits:
  "2 ^ k \<le> v \<Longrightarrow> v < 2 ^ Suc k \<Longrightarrow> digits 2 v = map (\<lambda>i. v div 2 ^ i mod 2) (rev [0..<Suc k])"
proof (induction k arbitrary: v)
  case 0
  then have "v = 1" by simp
  then show ?case using digits.simps[of 2 1] by simp
next
  case (Suc k)
  have v: "2 ^ k \<le> v div 2" "v div 2 < 2 ^ Suc k" using Suc.prems by auto
  have v2: "\<not> v < 2"
  proof
    assume "v < 2"
    then have "v div 2 = 0" by simp
    with v(1) show False by simp
  qed
  have up: "[0..<Suc (Suc k)] = 0 # map Suc [0..<Suc k]" using upt_conv_Cons[of 0 "Suc (Suc k)"] by (simp only: map_Suc_upt zero_less_Suc)
  have "digits 2 v = digits 2 (v div 2) @ [v mod 2]" using v2 by (simp add: digits.simps[of 2 v])
  also have "digits 2 (v div 2) = map (\<lambda>i. v div 2 ^ Suc i mod 2) (rev [0..<Suc k])"
    by (simp only: Suc.IH[OF v] div_mult2_eq power_Suc)
  also have "\<dots> @ [v mod 2] = map (\<lambda>i. v div 2 ^ i mod 2) (rev [0..<Suc (Suc k)])"
    unfolding up by (simp add: rev_map comp_def)
  finally show ?case .
qed

lemma bit_digit: "of_char CHR ''0'' + ucast (drop_bit i u AND 1) = digit_char ca (of_nat (unat u div 2 ^ i mod 2))"
  for u :: u64
proof -
  have "bit u i = odd (unat u div 2 ^ i)"
    using bit_imp_le_length[of u i] by (auto simp: bit_unsigned_iff simp flip: bit_iff_odd)
  moreover have "bit u i = odd (drop_bit i u)" by (simp add: bit_iff_odd_drop_bit)
  ultimately have "drop_bit i u AND 1 = of_bool (odd (unat u div 2 ^ i))"
    by (simp add: and_one_eq mod_2_eq_odd)
  then have "drop_bit i u AND 1 = of_nat (unat u div 2 ^ i mod 2)" by (simp add: mod_2_eq_odd)
  moreover have "of_nat (unat u div 2 ^ i mod 2) < (10 :: u64)"
    by (cases "unat u div 2 ^ i mod 2 = 0") (auto simp: mod2_eq_if)
  ultimately show ?thesis by (simp add: digit_char_def)
qed

lemma binary_numeral:
  "map (\<lambda>i. of_char CHR ''0'' + ucast (drop_bit i v AND 1)) (rev [0..<nat (npf_bin_len v)])
     = numeral_text ca 2 (unat v)"
proof (cases "v = 0")
  case True
  then show ?thesis by (simp add: npf_bin_len_def numeral_text_def digits.simps[of 2 0] digit_char_def)
next
  case False
  then obtain k where k: "npf_bin_len v = int (Suc k)" "2 ^ k \<le> unat v" "unat v < 2 ^ Suc k"
    by (rule npf_bin_len_top)
  show ?thesis
    unfolding k(1) nat_int numeral_text_def digits_bits[OF k(2,3)] map_map comp_def bit_digit[of _ v ca] ..
qed

section \<open>The text of a conversion\<close>

text \<open>The memory strings are read from: the bytes outside of the set \<open>B\<close> that output may overwrite.\<close>

definition readable :: "ptr set \<Rightarrow> mem \<Rightarrow> ptr \<Rightarrow> u8 option" where
  "readable B m x = (if x \<in> B then None else Some (m x))"

partial_function (option) c_string :: "(ptr \<Rightarrow> u8 option) \<Rightarrow> nat option \<Rightarrow> ptr \<Rightarrow> u8 list option" where
  "c_string rd lim p =
     (if lim = Some 0 then Some []
      else Option.bind (rd p) (\<lambda>b. if b = 0 then Some []
        else Option.bind (c_string rd (map_option (\<lambda>k. k - 1) lim) (p + 1)) (\<lambda>bs. Some (b # bs))))"

declare c_string.simps [code]

definition str_limit :: "npf_format_spec \<Rightarrow> nat option" where
  "str_limit fs = (if prec_opt fs = NPF_FMT_SPEC_OPT_NONE then None else Some (nat (prec fs)))"

definition sign_text :: "u8 \<Rightarrow> u8 list" where
  "sign_text c = (if c = 0 then [] else [c])"

definition prints_nothing :: "npf_format_spec \<Rightarrow> bool" where
  "prints_nothing fs \<longleftrightarrow> prec_opt fs \<noteq> NPF_FMT_SPEC_OPT_NONE \<and> prec fs = 0"

text \<open>Lead (sign or base prefix) and digits of the integer conversions.\<close>

definition signed_text :: "npf_format_spec \<Rightarrow> u64 \<Rightarrow> u8 list \<times> u8 list \<times> bool" where
  "signed_text fs x =
     (let v = sint (npf_extract_signed (length_modifier fs) x)
      in (if v < 0 then [of_char CHR ''-''] else sign_text (prepend fs),
          if v = 0 \<and> prints_nothing fs then [] else numeral_text (case_adjust fs) 10 (nat \<bar>v\<bar>),
          v = 0))"

definition text_base :: "npf_conv \<Rightarrow> nat" where
  "text_base conv = (if conv = NPF_FMT_SPEC_CONV_BINARY then 2 else if conv = NPF_FMT_SPEC_CONV_OCTAL then 8
     else if conv = NPF_FMT_SPEC_CONV_HEX_INT then 16 else 10)"

definition unsigned_text :: "npf_format_spec \<Rightarrow> u64 \<Rightarrow> u8 list \<times> u8 list \<times> bool" where
  "unsigned_text fs x =
     (let v = unat (npf_extract_unsigned (length_modifier fs) x);
          ds = (if v = 0 \<and> prints_nothing fs then [] else numeral_text (case_adjust fs) (text_base (conv_spec fs)) v)
      in (if v = 0 \<or> \<not> alt_form fs then []
          else if conv_spec fs = NPF_FMT_SPEC_CONV_HEX_INT then [of_char CHR ''0'', of_char CHR ''X'' + case_adjust fs]
          else if conv_spec fs = NPF_FMT_SPEC_CONV_BINARY then [of_char CHR ''0'', of_char CHR ''B'' + case_adjust fs]
          else [],
          if alt_form fs \<and> conv_spec fs = NPF_FMT_SPEC_CONV_OCTAL \<and> (v \<noteq> 0 \<or> ds = [])
          then of_char CHR ''0'' # ds else ds,
          v = 0))"

definition conv_text :: "(ptr \<Rightarrow> u8 option) \<Rightarrow> npf_format_spec \<Rightarrow> va_list
    \<Rightarrow> ((u8 list \<times> u8 list \<times> bool) \<times> va_list) option" where
  "conv_text rd fs args =
     (case conv_spec fs of
        NPF_FMT_SPEC_CONV_NONE \<Rightarrow> Some (([], [], False), args)
      | NPF_FMT_SPEC_CONV_PERCENT \<Rightarrow> Some (([], [of_char CHR ''%''], False), args)
      | _ \<Rightarrow> Option.bind (va_arg args) (\<lambda>(x, args1).
          case conv_spec fs of
            NPF_FMT_SPEC_CONV_CHAR \<Rightarrow> Some (([], [ucast x], False), args1)
          | NPF_FMT_SPEC_CONV_STRING \<Rightarrow>
              map_option (\<lambda>bs. (([], bs, False), args1)) (c_string rd (str_limit fs) x)
          | NPF_FMT_SPEC_CONV_SIGNED_INT \<Rightarrow> Some (signed_text fs x, args1)
          | NPF_FMT_SPEC_CONV_POINTER \<Rightarrow>
              Some (([of_char CHR ''0'', of_char CHR ''x''], numeral_text 32 16 (unat x), False), args1)
          | _ \<Rightarrow> Some (unsigned_text fs x, args1)))"

text \<open>Padding to a width: on the right, on the left, or with zeros between lead and digits.\<close>

definition layout :: "bool \<Rightarrow> u8 \<Rightarrow> nat \<Rightarrow> u8 list \<Rightarrow> u8 list \<Rightarrow> u8 list" where
  "layout left pad_c width lead body =
     (let fill = (if pad_c = 0 then [] else replicate (width - length (lead @ body)) pad_c)
      in if left then lead @ body @ fill
         else if pad_c = of_char CHR ''0'' then lead @ fill @ body
         else fill @ lead @ body)"

definition field_body :: "npf_format_spec \<Rightarrow> u8 list \<Rightarrow> u8 list" where
  "field_body fs ds =
     (if conv_spec fs = NPF_FMT_SPEC_CONV_STRING then ds
      else replicate (nat (prec fs) - length ds) (of_char CHR ''0'') @ ds)"

text \<open>The character that fills a field up, if any.\<close>

definition fill_char :: "npf_format_spec \<Rightarrow> bool \<Rightarrow> u8" where
  "fill_char fs is_zero =
     (if field_width_opt fs = NPF_FMT_SPEC_OPT_NONE then 0
      else if \<not> leading_zero_pad fs then of_char CHR '' ''
      else if conv_spec fs \<in> {NPF_FMT_SPEC_CONV_STRING, NPF_FMT_SPEC_CONV_CHAR, NPF_FMT_SPEC_CONV_PERCENT} then 0
      else if is_zero \<and> prints_nothing fs then of_char CHR '' '' else of_char CHR ''0'')"

text \<open>
  Width and precision given as arguments.  A negative width is one for left justification, a
  negative precision counts as none; the least \<open>int\<close> is no width.
\<close>

definition int_arg :: "u64 \<Rightarrow> int" where "int_arg x = sint (ucast x :: u32)"

definition star_width :: "npf_format_spec \<Rightarrow> va_list \<Rightarrow> (npf_format_spec \<times> va_list) option" where
  "star_width fs args =
     (if field_width_opt fs \<noteq> NPF_FMT_SPEC_OPT_STAR then Some (fs, args)
      else case args of
        [] \<Rightarrow> None
      | x # rest \<Rightarrow> if int_arg x = - (2 ^ 31) then None
          else Some (fs\<lparr>field_width := \<bar>int_arg x\<bar>, left_justified := left_justified fs \<or> int_arg x < 0\<rparr>, rest))"

definition star_precision :: "npf_format_spec \<Rightarrow> va_list \<Rightarrow> (npf_format_spec \<times> va_list) option" where
  "star_precision fs args =
     (if prec_opt fs \<noteq> NPF_FMT_SPEC_OPT_STAR then Some (fs, args)
      else case args of
        [] \<Rightarrow> None
      | x # rest \<Rightarrow> Some (fs\<lparr>prec := int_arg x,
          prec_opt := (if int_arg x < 0 then NPF_FMT_SPEC_OPT_NONE else NPF_FMT_SPEC_OPT_STAR)\<rparr>, rest))"

text \<open>
  A field.  The code subtracts the length of the digits from the precision, so a precision within
  64 of the least \<open>int\<close> has no defined text.
\<close>

definition field_text :: "(ptr \<Rightarrow> u8 option) \<Rightarrow> npf_format_spec \<Rightarrow> va_list \<Rightarrow> (u8 list \<times> va_list) option" where
  "field_text rd fs0 args0 =
     Option.bind (star_width fs0 args0) (\<lambda>(fs1, args1).
     Option.bind (star_precision fs1 args1) (\<lambda>(fs, args2).
     if prec fs < 64 - 2 ^ 31 then None
     else Option.bind (conv_text rd fs args2) (\<lambda>((lead, ds, is_zero), args).
       Some (layout (left_justified fs) (fill_char fs is_zero) (nat (field_width fs)) lead
               (field_body fs ds), args))))"

text \<open>The code agrees on the filling and the arguments.\<close>

lemma fill_char_eq: "fill_char fs z = npf_pad_c fs z"
  by (auto simp: fill_char_def npf_pad_c_def prints_nothing_def)

lemma int_arg_least: "int32 (- int_arg x) = (if int_arg x = - (2 ^ 31) then None else Some (- int_arg x))"
  using sint_ge[of "ucast x :: u32"] sint_less[of "ucast x :: u32"] by (auto simp: int32_def int_arg_def)

lemma star_args_eq: "star_args fs args = Option.bind (star_width fs args) (\<lambda>(fs1, args1). star_precision fs1 args1)"
proof -
  have width: "star_width fs args =
      (if field_width_opt fs = NPF_FMT_SPEC_OPT_STAR
        then Option.bind (va_arg args) (\<lambda>(x, args1).
               let w = sint (ucast x :: u32)
               in if w < 0 then map_option (\<lambda>v. (fs\<lparr>field_width := v, left_justified := True\<rparr>, args1)) (int32 (- w))
                  else Some (fs\<lparr>field_width := w\<rparr>, args1))
        else Some (fs, args))"
    by (cases args; cases fs) (auto simp: star_width_def Let_def int_arg_least[unfolded int_arg_def] int_arg_def)
  have "star_precision fs1 args1 =
      (if prec_opt fs1 = NPF_FMT_SPEC_OPT_STAR
       then Option.bind (va_arg args1) (\<lambda>(x, args2).
            let p = sint (ucast x :: u32); fs2 = fs1\<lparr>prec := p\<rparr>
            in Some (if p < 0 then fs2\<lparr>prec_opt := NPF_FMT_SPEC_OPT_NONE\<rparr> else fs2, args2))
       else Some (fs1, args1))" for fs1 args1
    by (cases args1; cases fs1) (auto simp: star_precision_def Let_def int_arg_def)
  then show ?thesis by (simp only: width star_args_def)
qed

lemma field_text_eq:
  "field_text rd fs0 args0 =
     Option.bind (star_args fs0 args0) (\<lambda>(fs, args1).
     if prec fs < 64 - 2 ^ 31 then None
     else Option.bind (conv_text rd fs args1) (\<lambda>((lead, ds, is_zero), args).
       Some (layout (left_justified fs) (npf_pad_c fs is_zero) (nat (field_width fs)) lead
               (field_body fs ds), args)))"
  by (simp add: field_text_def star_args_eq fill_char_eq split: bind_splits)

function printf_text :: "(ptr \<Rightarrow> u8 option) \<Rightarrow> string \<Rightarrow> va_list \<Rightarrow> u8 list option" where
  "printf_text rd [] args = Some []"
| "printf_text rd (c # cs) args =
     (case (if c \<noteq> CHR ''%'' then Npf_literal else npf_parse_format_spec (c # cs)) of
        Npf_undefined \<Rightarrow> None
      | Npf_literal \<Rightarrow> map_option ((#) (of_char c)) (printf_text rd cs args)
      | Npf_spec fs cur \<Rightarrow>
          Option.bind (field_text rd fs args) (\<lambda>(t, args1). map_option ((@) t) (printf_text rd cur args1)))"
  by pat_completeness auto
termination
  by (relation "measure (\<lambda>(rd, cur, args). length cur)")
     (auto simp: less_Suc_eq_le dest!: npf_parse_shorter split: if_splits)

section \<open>Sinks\<close>

text \<open>
  What the printing relies on in the function it calls for every character: it may only write to
  the set \<open>B\<close>, and it leaves the counter alone.  \<open>npf_bufputc\<close> and \<open>npf_bufputc_nop\<close> provide it.
\<close>

locale npf_sink =
  fixes pc :: npf_putc and ok :: "npf_out \<Rightarrow> bool" and B :: "ptr set"
  assumes putc_frame: "ok s \<Longrightarrow> x \<notin> B \<Longrightarrow> out_mem (pc c s) x = out_mem s x"
    and putc_count: "ok s \<Longrightarrow> out_n (pc c s) = out_n s"
    and putc_ok: "ok s \<Longrightarrow> ok (pc c s)"
    and count_ok: "ok s \<Longrightarrow> ok (s\<lparr>out_n := k\<rparr>)"
begin

abbreviation "put_all t \<equiv> fold (npf_putc_cnt pc) t"

lemma put_all_inv:
  "ok s \<Longrightarrow> ok (put_all t s) \<and> out_n (put_all t s) = out_n s + int (length t)
     \<and> (\<forall>x. x \<notin> B \<longrightarrow> out_mem (put_all t s) x = out_mem s x)"
proof (induction t arbitrary: s)
  case (Cons c t)
  have c: "ok (npf_putc_cnt pc c s)" "out_n (npf_putc_cnt pc c s) = out_n s + 1"
    "\<forall>x. x \<notin> B \<longrightarrow> out_mem (npf_putc_cnt pc c s) x = out_mem s x"
    using count_ok[OF Cons.prems, of "out_n s + 1"]
    by (simp_all add: npf_putc_cnt_def putc_ok putc_count putc_frame)
  with Cons.IH[OF c(1)] show ?case by simp
qed simp

lemmas put_all_ok = put_all_inv[THEN conjunct1]
  and put_all_count = put_all_inv[THEN conjunct2, THEN conjunct1]
  and put_all_frame = put_all_inv[THEN conjunct2, THEN conjunct2, rule_format]

end

lemma put_times_text: "put_times pc k c s = fold (npf_putc_cnt pc) (replicate (nat k) c) s"
  by (simp add: put_times_def)

section \<open>Writing one conversion\<close>

definition prefix_text :: "u8 \<Rightarrow> u8 list" where
  "prefix_text c = (if c = 0 then [] else [of_char CHR ''0'', c])"

definition payload_text :: "mem \<Rightarrow> npf_conversion \<Rightarrow> u8 list" where
  "payload_text m cv =
     (case payload cv of
        Str p \<Rightarrow> map (\<lambda>i. m (p + of_nat i)) [0..<nat (cbuf_len cv)]
      | Cbuf cs \<Rightarrow> rev cs
      | Binval v \<Rightarrow> map (\<lambda>i. of_char CHR ''0'' + ucast (drop_bit i v AND 1)) (rev [0..<nat (cbuf_len cv)]))"

definition lead_text :: "npf_conversion \<Rightarrow> u8 list" where
  "lead_text cv = sign_text (sign_c cv) @ prefix_text (need_0x cv)"

definition body_text :: "mem \<Rightarrow> npf_format_spec \<Rightarrow> npf_conversion \<Rightarrow> u8 list" where
  "body_text m fs cv =
     (if conv_spec fs = NPF_FMT_SPEC_CONV_STRING then payload_text m cv
      else replicate (nat (prec fs) - length (payload_text m cv)) (of_char CHR ''0'') @ payload_text m cv)"

text \<open>The conversions the code makes: a prefix excludes a sign, and a string has neither and lies
outside of the bytes the output may overwrite.\<close>

definition conversion_ok :: "ptr set \<Rightarrow> npf_format_spec \<Rightarrow> npf_conversion \<Rightarrow> bool" where
  "conversion_ok B fs cv \<longleftrightarrow>
     (sign_c cv = 0 \<or> need_0x cv = 0) \<and> 0 \<le> cbuf_len cv
     \<and> (case payload cv of
          Str p \<Rightarrow> conv_spec fs = NPF_FMT_SPEC_CONV_STRING \<and> sign_c cv = 0 \<and> need_0x cv = 0
            \<and> (\<forall>i < nat (cbuf_len cv). p + of_nat i \<notin> B)
        | Cbuf cs \<Rightarrow> conv_spec fs \<noteq> NPF_FMT_SPEC_CONV_STRING \<and> cbuf_len cv = int (length cs)
        | Binval v \<Rightarrow> conv_spec fs \<noteq> NPF_FMT_SPEC_CONV_STRING)"

lemma length_payload: "conversion_ok B fs cv \<Longrightarrow> int (length (payload_text m cv)) = cbuf_len cv"
  by (auto simp: conversion_ok_def payload_text_def split: npf_payload.splits)

text \<open>The text of the three parts of a field.\<close>

context npf_sink
begin

lemma put_parts:
  "put_times pc k c s = put_all (replicate (nat k) c) s"
  "put_sign pc cv s = put_all (sign_text (sign_c cv)) s"
  "put_0x pc cv s = put_all (prefix_text (need_0x cv)) s"
  by (simp_all add: put_times_def put_sign_def sign_text_def put_0x_def prefix_text_def)

lemma put_all_append: "put_all u (put_all t s) = put_all (t @ u) s"
  by simp

lemma put_string:
  assumes "ok s" and "\<forall>i < k. p + of_nat i \<notin> B"
  shows "fold (\<lambda>i s. npf_putc_cnt pc (out_mem s (p + of_nat i)) s) [0..<k] s
    = put_all (map (\<lambda>i. out_mem s (p + of_nat i)) [0..<k]) s"
  using assms(2)
proof (induction k)
  case (Suc k)
  then have "out_mem (put_all (map (\<lambda>i. out_mem s (p + of_nat i)) [0..<k]) s) (p + of_nat k) = out_mem s (p + of_nat k)"
    using put_all_frame[OF assms(1)] by simp
  with Suc show ?case by simp
qed simp

lemma put_payload_text:
  assumes "ok s" and "conversion_ok B fs cv"
    and "\<forall>x. x \<notin> B \<longrightarrow> out_mem s x = m x"
    and "conv_spec fs = NPF_FMT_SPEC_CONV_STRING \<longrightarrow> prec_pad = 0"
  shows "put_payload pc cv prec_pad s = put_all
    (sign_text (sign_c cv) @ replicate (nat prec_pad) (of_char CHR ''0'') @ payload_text m cv) s"
proof (cases "payload cv")
  case (Cbuf cs)
  have "fold (\<lambda>i. npf_putc_cnt pc (cs ! i)) (rev [0..<length cs]) s' = put_all (rev cs) s'" for s'
    using fold_map[of "npf_putc_cnt pc" "(!) cs" "rev [0..<length cs]"]
    by (simp add: comp_def map_nth flip: rev_map)
  with Cbuf assms(2) show ?thesis
    by (simp add: put_payload_def payload_text_def conversion_ok_def put_parts)
next
  case (Str p)
  then have p: "\<forall>i < nat (cbuf_len cv). p + of_nat i \<notin> B" "sign_c cv = 0" "prec_pad = 0"
    using assms(2,4) by (auto simp: conversion_ok_def)
  then have "map (\<lambda>i. out_mem s (p + of_nat i)) [0..<nat (cbuf_len cv)]
      = map (\<lambda>i. m (p + of_nat i)) [0..<nat (cbuf_len cv)]" using assms(3) by simp
  with Str p put_string[OF assms(1) p(1)] show ?thesis
    by (simp add: put_payload_def payload_text_def sign_text_def)
next
  case (Binval v)
  then show ?thesis by (simp add: put_payload_def payload_text_def put_parts fold_map comp_def)
qed

end

section \<open>Padding and the width of integers\<close>

lemma int32_eq: "- (2 ^ 31) \<le> x \<Longrightarrow> x < 2 ^ 31 \<Longrightarrow> int32 x = Some x"
  by (simp add: int32_def)

lemma npf_max_nat: "npf_max 0 x = int (nat x)"
  by (simp add: npf_max_def)

definition fits :: "npf_format_spec \<Rightarrow> npf_conversion \<Rightarrow> bool" where
  "fits fs cv \<longleftrightarrow> 0 \<le> field_width fs \<and> field_width fs < 2 ^ 31 \<and> 64 - 2 ^ 31 \<le> prec fs \<and> prec fs < 2 ^ 31
     \<and> (conv_spec fs \<noteq> NPF_FMT_SPEC_CONV_STRING \<longrightarrow> cbuf_len cv \<le> 64)"

lemma body_length:
  assumes "conversion_ok B fs cv"
  shows "int (length (body_text m fs cv)) = cbuf_len cv
    + (if conv_spec fs = NPF_FMT_SPEC_CONV_STRING then 0 else npf_max 0 (prec fs - cbuf_len cv))"
  using length_payload[OF assms, of m] by (auto simp: body_text_def npf_max_def)

lemma lead_length:
  "int (length (lead_text cv)) = (if sign_c cv \<noteq> 0 then 1 else 0) + (if need_0x cv \<noteq> 0 then 2 else 0)"
  by (simp add: lead_text_def sign_text_def prefix_text_def)

lemma pads:
  assumes "conversion_ok B fs cv" and "fits fs cv"
    and "length (lead_text cv) + length (body_text m fs cv) < 2 ^ 31"
  obtains prec_pad where "npf_prec_pad fs cv = Some prec_pad"
    and "conv_spec fs = NPF_FMT_SPEC_CONV_STRING \<longrightarrow> prec_pad = 0"
    and "conv_spec fs \<noteq> NPF_FMT_SPEC_CONV_STRING \<longrightarrow> nat prec_pad = nat (prec fs) - length (payload_text m cv)"
    and "npf_field_pad fs cv prec_pad
      = Some (int (nat (field_width fs) - length (lead_text cv @ body_text m fs cv)))"
proof
  let ?pp = "if conv_spec fs = NPF_FMT_SPEC_CONV_STRING then 0 else npf_max 0 (prec fs - cbuf_len cv)"
  note l = length_payload[OF assms(1), of m] body_length[OF assms(1), of m] lead_length[of cv]
  have c: "0 \<le> cbuf_len cv" using assms(1) by (simp add: conversion_ok_def)
  show "npf_prec_pad fs cv = Some ?pp"
    using assms(2) c by (auto simp: npf_prec_pad_def fits_def int32_eq)
  show "conv_spec fs = NPF_FMT_SPEC_CONV_STRING \<longrightarrow> ?pp = 0" by simp
  show "conv_spec fs \<noteq> NPF_FMT_SPEC_CONV_STRING \<longrightarrow> nat ?pp = nat (prec fs) - length (payload_text m cv)"
    using l(1) by (auto simp: npf_max_def)
  have sum: "int (length (lead_text cv)) + int (length (body_text m fs cv)) < 2 ^ 31"
    using assms(3) by simp
  have pp: "0 \<le> ?pp" by (simp add: npf_max_def)
  define k where "k = field_width fs - cbuf_len cv - (if sign_c cv \<noteq> 0 then 1 else 0)
    - (if need_0x cv \<noteq> 0 then 2 else 0) - ?pp"
  have "npf_field_pad fs cv ?pp = Some (npf_max 0 k)"
    using sum assms(2) c pp unfolding l(2,3) npf_field_pad_def k_def
    by (cases "sign_c cv = 0"; cases "need_0x cv = 0") (simp_all add: fits_def int32_eq)
  moreover have "npf_max 0 k = int (nat (field_width fs) - length (lead_text cv @ body_text m fs cv))"
    using l(2,3) assms(2) by (auto simp: npf_max_def k_def fits_def)
  ultimately show "npf_field_pad fs cv ?pp
      = Some (int (nat (field_width fs) - length (lead_text cv @ body_text m fs cv)))" by simp
qed

context npf_sink
begin

lemma write_text:
  assumes "ok s" and "conversion_ok B fs cv" and "\<forall>x. x \<notin> B \<longrightarrow> out_mem s x = m x" and "fits fs cv"
    and "T = layout (left_justified fs) (npf_pad_c fs (zero cv)) (nat (field_width fs)) (lead_text cv)
           (body_text m fs cv)"
    and "length T < 2 ^ 31"
  shows "npf_write pc fs cv s = Some (put_all T s)"
proof -
  have "length (lead_text cv) + length (body_text m fs cv) \<le> length T"
    by (simp add: assms(5) layout_def Let_def)
  then have "length (lead_text cv) + length (body_text m fs cv) < 2 ^ 31"
    using assms(6) by (rule le_less_trans)
  from pads[OF assms(2,4) this] obtain pp where pp: "npf_prec_pad fs cv = Some pp"
    "conv_spec fs = NPF_FMT_SPEC_CONV_STRING \<longrightarrow> pp = 0"
    "conv_spec fs \<noteq> NPF_FMT_SPEC_CONV_STRING \<longrightarrow> nat pp = nat (prec fs) - length (payload_text m cv)"
    "npf_field_pad fs cv pp = Some (int (nat (field_width fs) - length (lead_text cv @ body_text m fs cv)))" .
  let ?fp = "nat (field_width fs) - length (lead_text cv @ body_text m fs cv)"
  have body: "replicate (nat pp) (of_char CHR ''0'') @ payload_text m cv = body_text m fs cv"
    using pp(2,3) by (auto simp: body_text_def)
  have payload: "put_payload pc cv' pp (put_all t s) = put_all (t @ sign_text (sign_c cv') @ body_text m fs cv) s"
    if "cv' = cv \<or> cv' = cv\<lparr>sign_c := 0\<rparr>" for cv' t
  proof -
    have "conversion_ok B fs cv'" "payload_text m cv' = payload_text m cv"
      using that assms(2) by (auto simp: conversion_ok_def payload_text_def split: npf_payload.splits)
    moreover have "\<forall>x. x \<notin> B \<longrightarrow> out_mem (put_all t s) x = m x"
      using put_all_frame[OF assms(1)] assms(3) by simp
    ultimately have "put_payload pc cv' pp (put_all t s)
        = put_all (sign_text (sign_c cv') @ replicate (nat pp) (of_char CHR ''0'') @ payload_text m cv) (put_all t s)"
      using put_payload_text[OF put_all_ok[OF assms(1), of t], of fs cv' m pp] pp(2) by metis
    then show ?thesis by (simp only: body put_all_append)
  qed
  have lead: "lead_text cv = prefix_text (need_0x cv) @ sign_text (sign_c cv)"
    using assms(2) by (auto simp: lead_text_def conversion_ok_def sign_text_def prefix_text_def)
  have swap: "sign_text (sign_c cv) @ prefix_text (need_0x cv) @ zs
      = prefix_text (need_0x cv) @ sign_text (sign_c cv) @ zs" for zs
    using lead by (simp add: lead_text_def)
  have run: "npf_write pc fs cv s = Some (let pad_c = npf_pad_c fs (zero cv);
      (cv1, s1) = put_lead pc fs cv pad_c (int ?fp) s
    in put_trail pc fs pad_c (int ?fp) (put_payload pc cv1 pp s1))"
    by (simp add: npf_write_def pp(1,4) Let_def split: prod.split)
  note texts = put_lead_def put_trail_def put_parts put_all_append Let_def prod.case
  consider (left) "left_justified fs" | (none) "\<not> left_justified fs" "npf_pad_c fs (zero cv) = 0"
    | (zeros) "\<not> left_justified fs" "npf_pad_c fs (zero cv) = of_char CHR ''0''"
    | (blanks) "\<not> left_justified fs" "npf_pad_c fs (zero cv) \<noteq> 0" "npf_pad_c fs (zero cv) \<noteq> of_char CHR ''0''"
    by blast
  then show ?thesis
  proof cases
    case left
    then show ?thesis unfolding run assms(5) texts layout_def
      by (simp add: payload put_parts put_all_append lead del: fold_append length_append fold_replicate)
  next
    case none
    then show ?thesis unfolding run assms(5) texts layout_def
      by (simp add: payload put_parts put_all_append lead del: fold_append length_append fold_replicate)
  next
    case zeros
    then show ?thesis unfolding run assms(5) texts layout_def
      by (simp add: payload put_parts put_all_append lead swap sign_text_def[of 0]
          del: fold_append length_append fold_replicate)
  next
    case blanks
    then show ?thesis unfolding run assms(5) texts layout_def
      by (simp add: payload put_parts put_all_append lead del: fold_append length_append fold_replicate)
  qed
qed

end

section \<open>Converting an argument\<close>

lemma c_string_Nil:
  "c_string rd lim p = Some [] \<longleftrightarrow> lim = Some 0 \<or> rd p = Some 0"
  by (subst c_string.simps) (cases "rd p", auto split: bind_splits)

lemma c_string_Cons:
  "c_string rd lim p = Some (b # bs) \<longleftrightarrow>
     lim \<noteq> Some 0 \<and> rd p = Some b \<and> b \<noteq> 0 \<and> c_string rd (map_option (\<lambda>k. k - 1) lim) (p + 1) = Some bs"
  by (subst c_string.simps) (cases "rd p", auto split: bind_splits)

lemma c_string_length:
  assumes "c_string (readable B m) (map_option (\<lambda>k. k - i) (str_limit fs)) (p + of_nat i) = Some bs"
    and "i + length bs \<le> INT_MAX"
  shows "npf_strlen m p fs i = Some (i + length bs)
    \<and> (\<forall>j < length bs. m (p + of_nat (i + j)) = bs ! j \<and> p + of_nat (i + j) \<notin> B)"
  using assms
proof (induction bs arbitrary: i)
  case Nil
  from Nil.prems(1) have "(prec_opt fs \<noteq> NPF_FMT_SPEC_OPT_NONE \<and> prec fs \<le> int i) \<or> m (p + of_nat i) = 0"
    by (auto simp: c_string_Nil str_limit_def readable_def split: if_splits)
  with Nil.prems(2) show ?case by (subst npf_strlen.simps) auto
next
  case (Cons b bs)
  note step = Cons.prems(1)[unfolded c_string_Cons]
  have b: "\<not> (prec_opt fs \<noteq> NPF_FMT_SPEC_OPT_NONE \<and> prec fs \<le> int i)"
    "p + of_nat i \<notin> B" "m (p + of_nat i) = b" "b \<noteq> 0"
    using step by (auto simp: str_limit_def readable_def split: if_splits)
  have rest: "c_string (readable B m) (map_option (\<lambda>k. k - 1) (map_option (\<lambda>k. k - i) (str_limit fs)))
      (p + of_nat i + 1) = Some bs"
    using step by blast
  have "map_option (\<lambda>k. k - 1) (map_option (\<lambda>k. k - i) (str_limit fs)) = map_option (\<lambda>k. k - Suc i) (str_limit fs)"
    by (simp add: option.map_comp comp_def)
  with rest have "c_string (readable B m) (map_option (\<lambda>k. k - Suc i) (str_limit fs)) (p + of_nat (Suc i)) = Some bs"
    by (simp add: algebra_simps)
  from Cons.IH[OF this] Cons.prems(2) have ih: "npf_strlen m p fs (Suc i) = Some (Suc i + length bs)"
    "\<forall>j < length bs. m (p + of_nat (Suc i + j)) = bs ! j \<and> p + of_nat (Suc i + j) \<notin> B" by simp_all
  have "npf_strlen m p fs i = Some (i + length (b # bs))"
    using b ih(1) Cons.prems(2) by (subst npf_strlen.simps) auto
  moreover have "m (p + of_nat (i + j)) = (b # bs) ! j \<and> p + of_nat (i + j) \<notin> B" if "j < length (b # bs)" for j
    using that b(2,3) ih(2) by (cases j) auto
  ultimately show ?case by blast
qed

lemma numeral_length:
  assumes "2 \<le> b" and "k < 2 ^ 64"
  shows "length (numeral_text ca b k) \<le> 64"
proof -
  have "(2::nat) ^ 64 \<le> b ^ 64" using assms(1) by (rule power_mono) simp
  with assms(2) have "k < b ^ 64" by (rule less_le_trans)
  with assms(1) have "length (digits b k) \<le> 64" by (intro digits_length) auto
  then show ?thesis by (simp add: numeral_text_def)
qed

lemma numeral_length_buffer:
  assumes "8 \<le> b" and "k < 2 ^ 64"
  shows "length (numeral_text ca b k) \<le> 22"
proof -
  have "(8::nat) ^ 22 \<le> b ^ 22" using assms(1) by (rule power_mono) simp
  moreover have "(2::nat) ^ 64 < 8 ^ 22" by simp
  ultimately have "k < b ^ 22" using assms(2) by (meson less_le_trans less_trans)
  with assms show ?thesis using digits_length[of b k 22] by (simp add: numeral_text_def)
qed

lemma unat_abs: "unat (if sint v < 0 then 0 - v else v) = nat \<bar>sint v\<bar>" for v :: u64
proof -
  have u: "0 \<le> uint v" "uint v < 2 ^ 64" using unsigned_less[of v, where ?'a = int] by simp_all
  then have "take_bit (Suc 63) (uint v) = uint v" by (intro take_bit_int_eq_self) auto
  then have v: "sint v = uint v - 2 ^ 64 * of_bool (bit (uint v) 63)"
    using signed_take_bit_eq_take_bit_minus[of 63 "uint v"] by (simp only: sint_uint) simp
  show ?thesis
  proof (cases "sint v < 0")
    case True
    with u(1) have sv: "sint v = uint v - 2 ^ 64" unfolding v by (cases "bit (uint v) 63") simp_all
    from True have "v \<noteq> 0" by auto
    then have "0 < unat v" by (simp add: unat_gt_0)
    then have "unat (0 - v) = 2 ^ 64 - unat v" using unat_diff_wrap[of 0 v] by simp
    then have "int (unat (0 - v)) = 2 ^ 64 - int (unat v)"
      using unat_lt64[of v] by (simp only: of_nat_diff less_imp_le of_nat_power of_nat_numeral)
    also have "int (unat v) = uint v" by simp
    also have "2 ^ 64 - uint v = - sint v" by (simp add: sv)
    finally have "\<bar>sint v\<bar> = int (unat (0 - v))" using True by simp
    then show ?thesis using True by (simp only: nat_int if_True)
  next
    case False
    with u(2) have "sint v = uint v" unfolding v by (cases "bit (uint v) 63") simp_all
    then have "\<bar>sint v\<bar> = int (unat v)" using u(1) by simp
    with False show ?thesis by (simp only: nat_int if_False)
  qed
qed

text \<open>What a parsed specification satisfies, and what a conversion has to do with its text.\<close>

definition spec_ok :: "npf_format_spec \<Rightarrow> bool" where
  "spec_ok fs \<longleftrightarrow> 0 \<le> field_width fs \<and> field_width fs < 2 ^ 31 \<and> prec fs < 2 ^ 31
     \<and> (case_adjust fs = 0 \<or> case_adjust fs = 32)
     \<and> (conv_spec fs = NPF_FMT_SPEC_CONV_OCTAL \<and> prec_opt fs \<noteq> NPF_FMT_SPEC_OPT_NONE \<longrightarrow> \<not> leading_zero_pad fs)"

definition renders :: "ptr set \<Rightarrow> mem \<Rightarrow> npf_format_spec \<Rightarrow> npf_conversion
    \<Rightarrow> npf_format_spec \<Rightarrow> u8 list \<times> u8 list \<times> bool \<Rightarrow> bool" where
  "renders B m fs' cv fs t \<longleftrightarrow> (case t of (lead, ds, z) \<Rightarrow>
     conversion_ok B fs' cv \<and> fits fs' cv
     \<and> left_justified fs' = left_justified fs \<and> field_width fs' = field_width fs
     \<and> npf_pad_c fs' (zero cv) = npf_pad_c fs z
     \<and> lead_text cv = lead \<and> body_text m fs' cv = field_body fs ds)"

lemmas render_defs = renders_def conversion_ok_def fits_def lead_text_def body_text_def payload_text_def
  field_body_def sign_text_def prefix_text_def

lemma signed_renders:
  assumes "spec_ok fs" and "64 - 2 ^ 31 \<le> prec fs" and "conv_spec fs = NPF_FMT_SPEC_CONV_SIGNED_INT"
  shows "\<exists>cv. npf_signed fs (x # args) = Some (cv, args) \<and> renders B m fs cv fs (signed_text fs x)"
proof -
  let ?v = "npf_extract_signed (length_modifier fs) x"
  have num: "npf_utoa_rev (if sint ?v < 0 then 0 - ?v else ?v) 10 (case_adjust fs)
      = Some (rev (numeral_text (case_adjust fs) 10 (nat \<bar>sint ?v\<bar>)))"
    using utoa_numeral[of 10 "if sint ?v < 0 then 0 - ?v else ?v" "case_adjust fs"] unfolding unat_abs by simp
  have len: "length (numeral_text (case_adjust fs) 10 (nat \<bar>sint ?v\<bar>)) \<le> 64"
    unfolding unat_abs[symmetric] by (rule numeral_length[OF _ unat_lt64]) simp
  have z: "(sint ?v = 0) = (?v = 0)"
    using unat_abs[of ?v] by (auto simp: unat_eq_0)
  show ?thesis
    using assms len by (simp add: npf_signed_def Let_def num signed_text_def prints_nothing_def render_defs
        spec_ok_def z)
qed

lemma npf_bin_len_nonneg: "0 \<le> npf_bin_len u"
  using length_takeWhile_le[of "\<lambda>i. \<not> bit u i" "rev [0..<64]"] by (simp add: npf_bin_len_def builtin_clzll_def)

lemma unat_base: "conv_spec fs \<noteq> NPF_FMT_SPEC_CONV_BINARY \<Longrightarrow> unat (npf_base fs) = text_base (conv_spec fs)"
  "2 \<le> npf_base fs"
  by (simp_all add: npf_base_def text_base_def)

lemma unsigned_text_numeral:
  fixes fs x
  defines "v \<equiv> npf_extract_unsigned (length_modifier fs) x"
  defines "ds \<equiv> numeral_text (case_adjust fs) (text_base (conv_spec fs)) (unat v)"
  shows "unsigned_text fs x =
     (let es = (if v = 0 \<and> prints_nothing fs then [] else ds)
      in (if v = 0 \<or> \<not> alt_form fs then []
          else if conv_spec fs = NPF_FMT_SPEC_CONV_HEX_INT then [of_char CHR ''0'', of_char CHR ''X'' + case_adjust fs]
          else if conv_spec fs = NPF_FMT_SPEC_CONV_BINARY then [of_char CHR ''0'', of_char CHR ''B'' + case_adjust fs]
          else [],
          if alt_form fs \<and> conv_spec fs = NPF_FMT_SPEC_CONV_OCTAL \<and> (v \<noteq> 0 \<or> es = [])
          then of_char CHR ''0'' # es else es, v = 0))"
  unfolding unsigned_text_def Let_def ds_def v_def by (simp only: unat_eq_0)

lemma binary_renders:
  assumes "spec_ok fs" and "64 - 2 ^ 31 \<le> prec fs" and "conv_spec fs = NPF_FMT_SPEC_CONV_BINARY"
  shows "\<exists>fs' cv. npf_unsigned fs (x # args) = Some (fs', cv, args) \<and> renders B m fs' cv fs (unsigned_text fs x)"
proof -
  let ?v = "npf_extract_unsigned (length_modifier fs) x"
  define ds where "ds = numeral_text (case_adjust fs) (text_base (conv_spec fs)) (unat ?v)"
  note ut = unsigned_text_numeral[of fs x, folded ds_def]
  have len: "length ds \<le> 64"
    unfolding ds_def by (rule numeral_length[OF _ unat_lt64]) (simp add: text_base_def)
  have ca: "case_adjust fs = 0 \<or> case_adjust fs = 32" using assms(1) by (simp add: spec_ok_def)
  have bits: "map (\<lambda>i. 48 + ucast (drop_bit i ?v AND 1)) (rev [0..<nat (npf_bin_len ?v)]) = ds"
    using binary_numeral[of ?v "case_adjust fs"] assms(3) by (simp add: ds_def text_base_def)
  have "length ds = nat (npf_bin_len ?v)" using arg_cong[OF bits, of length] by simp
  then have l: "npf_bin_len ?v = int (length ds)" using npf_bin_len_nonneg[of ?v] by simp
  show ?thesis
    using assms ca len bits l
    by (auto simp: npf_unsigned_def Let_def ut prints_nothing_def render_defs spec_ok_def)
qed

text \<open>A zero with the precision 0 prints nothing, but for the zero that \<open>#\<close> asks for in octal.\<close>

lemma zero_renders:
  assumes "spec_ok fs" and "64 - 2 ^ 31 \<le> prec fs"
    and "conv_spec fs \<in> {NPF_FMT_SPEC_CONV_OCTAL, NPF_FMT_SPEC_CONV_HEX_INT, NPF_FMT_SPEC_CONV_UNSIGNED_INT}"
    and "npf_extract_unsigned (length_modifier fs) x = 0" and "prints_nothing fs"
  shows "\<exists>fs' cv. npf_unsigned fs (x # args) = Some (fs', cv, args) \<and> renders B m fs' cv fs (unsigned_text fs x)"
proof (cases "conv_spec fs = NPF_FMT_SPEC_CONV_OCTAL \<and> alt_form fs")
  case True
  with assms show ?thesis
    by (simp add: npf_unsigned_def unsigned_text_numeral render_defs spec_ok_def prints_nothing_def npf_pad_c_def)
next
  case False
  with assms show ?thesis
    by (auto simp: npf_unsigned_def unsigned_text_numeral render_defs spec_ok_def prints_nothing_def)
qed

lemma digits_render:
  fixes fs x
  assumes "spec_ok fs" and "64 - 2 ^ 31 \<le> prec fs"
    and "conv_spec fs \<in> {NPF_FMT_SPEC_CONV_OCTAL, NPF_FMT_SPEC_CONV_HEX_INT, NPF_FMT_SPEC_CONV_UNSIGNED_INT}"
  defines "v \<equiv> npf_extract_unsigned (length_modifier fs) x"
  assumes n: "v \<noteq> 0 \<or> \<not> prints_nothing fs"
  shows "\<exists>fs' cv. npf_unsigned fs (x # args) = Some (fs', cv, args) \<and> renders B m fs' cv fs (unsigned_text fs x)"
proof -
  define ds where "ds = numeral_text (case_adjust fs) (text_base (conv_spec fs)) (unat v)"
  note ut = unsigned_text_numeral[of fs x, folded v_def, folded ds_def]
  have nb: "conv_spec fs \<noteq> NPF_FMT_SPEC_CONV_BINARY" using assms(3) by auto
  have num: "npf_utoa_rev v (npf_base fs) (case_adjust fs) = Some (rev ds)"
    using utoa_numeral[OF unat_base(2)[of fs]] unat_base(1)[OF nb] by (simp add: ds_def)
  have len: "length ds \<le> 22"
    unfolding ds_def using nb by (intro numeral_length_buffer unat_lt64) (simp add: text_base_def)
  have ds: "ds \<noteq> []" by (simp add: ds_def numeral_text_def)
  have skip: "(v = 0 \<and> prec_opt fs \<noteq> NPF_FMT_SPEC_OPT_NONE \<and> prec fs = 0) = False"
    "(v = 0 \<and> prints_nothing fs) = False"
    using n by (auto simp: prints_nothing_def)
  show ?thesis
  proof (cases "v \<noteq> 0 \<and> alt_form fs")
    case True
    moreover have "case_adjust fs = 0 \<or> case_adjust fs = 32" using assms(1) by (simp add: spec_ok_def)
    ultimately show ?thesis
      using assms(1-3) len ds num nb unfolding npf_unsigned_def ut Let_def skip v_def[symmetric]
      by (elim insertE emptyE disjE) (simp_all add: render_defs spec_ok_def v_def[symmetric])
  next
    case plain: False
    then have need: "(v \<noteq> 0 \<and> alt_form fs) = False" "(v = 0 \<or> \<not> alt_form fs) = True"
      "(alt_form fs \<and> conv_spec fs = NPF_FMT_SPEC_CONV_OCTAL \<and> (v \<noteq> 0 \<or> ds = [])) = False"
      using ds by auto
    have "npf_unsigned fs (x # args) = Some (fs, \<lparr>payload = Cbuf (rev ds), cbuf_len = int (length ds),
        sign_c = 0, need_0x = 0, zero = (v = 0)\<rparr>, args)"
      using nb unfolding npf_unsigned_def Let_def va_arg.simps bind.bind_lunit prod.case v_def[symmetric] skip num need
      by (simp add: conj_assoc[symmetric] need)
    moreover have "unsigned_text fs x = ([], ds, v = 0)"
      unfolding ut Let_def skip need if_True if_False ..
    moreover have "conv_spec fs \<noteq> NPF_FMT_SPEC_CONV_STRING" using assms(3) by auto
    ultimately show ?thesis using assms(1,2) len by (simp add: render_defs spec_ok_def)
  qed
qed

lemma unsigned_renders:
  assumes "spec_ok fs" and "64 - 2 ^ 31 \<le> prec fs"
    and "conv_spec fs \<in> {NPF_FMT_SPEC_CONV_BINARY, NPF_FMT_SPEC_CONV_OCTAL, NPF_FMT_SPEC_CONV_HEX_INT,
      NPF_FMT_SPEC_CONV_UNSIGNED_INT}"
  shows "\<exists>fs' cv. npf_unsigned fs (x # args) = Some (fs', cv, args) \<and> renders B m fs' cv fs (unsigned_text fs x)"
proof (cases "conv_spec fs = NPF_FMT_SPEC_CONV_BINARY")
  case True
  with assms(1,2) show ?thesis by (rule binary_renders)
next
  case False
  with assms(3) have "conv_spec fs \<in> {NPF_FMT_SPEC_CONV_OCTAL, NPF_FMT_SPEC_CONV_HEX_INT,
    NPF_FMT_SPEC_CONV_UNSIGNED_INT}" by blast
  then show ?thesis using zero_renders digits_render assms(1,2) by blast
qed

lemma pointer_renders:
  assumes "spec_ok fs" and "64 - 2 ^ 31 \<le> prec fs" and "conv_spec fs = NPF_FMT_SPEC_CONV_POINTER"
  shows "\<exists>cv. npf_pointer (x # args) = Some (cv, args)
    \<and> renders B m fs cv fs ([of_char CHR ''0'', of_char CHR ''x''], numeral_text 32 16 (unat x), False)"
proof -
  have "npf_utoa_rev x 16 32 = Some (rev (numeral_text 32 16 (unat x)))"
    using utoa_numeral[of 16 x 32] by simp
  moreover have "length (numeral_text 32 16 (unat x)) \<le> 64" by (rule numeral_length[OF _ unat_lt64]) simp
  ultimately show ?thesis
    using assms by (simp add: npf_pointer_def cbuf_conversion_def render_defs spec_ok_def)
qed

lemma string_renders:
  assumes "spec_ok fs" and "64 - 2 ^ 31 \<le> prec fs" and "conv_spec fs = NPF_FMT_SPEC_CONV_STRING"
    and "c_string (readable B m) (str_limit fs) p = Some bs" and "length bs \<le> INT_MAX"
  shows "\<exists>cv. npf_string m fs (p # args) = Some (cv, args) \<and> renders B m fs cv fs ([], bs, False)"
proof -
  have "npf_strlen m p fs 0 = Some (length bs)"
    and bs: "\<forall>j < length bs. m (p + of_nat j) = bs ! j \<and> p + of_nat j \<notin> B"
    using c_string_length[of B m 0 fs p bs] assms(4,5) by (simp_all add: option.map_id[unfolded id_def])
  moreover have "map (\<lambda>i. m (p + of_nat i)) [0..<length bs] = bs"
    using bs by (intro nth_equalityI) simp_all
  ultimately show ?thesis
    using assms(1-3) by (simp add: npf_string_def render_defs spec_ok_def)
qed

lemma simple_renders:
  assumes "spec_ok fs" and "64 - 2 ^ 31 \<le> prec fs" and "conv_spec fs \<noteq> NPF_FMT_SPEC_CONV_STRING"
    and "length ds \<le> 1"
  shows "renders B m fs (cbuf_conversion ds) fs ([], ds, False)"
proof -
  have "rev ds = ds" using assms(4) by (cases ds) auto
  then show ?thesis using assms by (simp add: cbuf_conversion_def render_defs spec_ok_def)
qed

text \<open>Every conversion of the code renders the text of its specification.\<close>

lemma convert_text:
  assumes "conv_text (readable B m) fs args = Some (t, args')" and "spec_ok fs" and "64 - 2 ^ 31 \<le> prec fs"
    and "length (fst (snd t)) \<le> INT_MAX"
  shows "\<exists>fs' cv. npf_convert m fs args = Some (fs', cv, args') \<and> renders B m fs' cv fs t"
proof (cases args)
  case Nil
  then show ?thesis
    using assms(1) simple_renders[OF assms(2,3)]
    by (cases "conv_spec fs") (auto simp: conv_text_def npf_convert_def)
next
  case (Cons x xs)
  show ?thesis
  proof (cases "conv_spec fs")
    case NPF_FMT_SPEC_CONV_SIGNED_INT
    then show ?thesis
      using assms(1) signed_renders[OF assms(2,3), of x xs B m]
      by (auto simp: conv_text_def npf_convert_def Cons)
  next
    case NPF_FMT_SPEC_CONV_STRING
    then show ?thesis
      using assms(1,4) string_renders[OF assms(2,3), of B m x _ xs]
      by (fastforce simp: conv_text_def npf_convert_def Cons)
  next
    case NPF_FMT_SPEC_CONV_POINTER
    then show ?thesis
      using assms(1) pointer_renders[OF assms(2,3), of x xs B m]
      by (auto simp: conv_text_def npf_convert_def Cons)
  qed (use assms(1) simple_renders[OF assms(2,3)] unsigned_renders[OF assms(2,3), of x xs B m] in
      \<open>auto simp: conv_text_def npf_convert_def Cons\<close>)
qed

section \<open>The whole format\<close>

lemma parse_flags_case: "case_adjust (fst (parse_flags fs s)) = case_adjust fs"
  by (induction fs s rule: parse_flags.induct) auto

lemma parse_digits_nonneg: "0 \<le> w \<Longrightarrow> 0 \<le> fst (parse_digits w s)"
proof (induction w s rule: parse_digits.induct)
  case (2 w c cs)
  have "is_digit c \<Longrightarrow> 48 \<le> (of_char c :: int)"
    unfolding is_digit_def by (metis of_nat_numeral of_nat_le_iff of_nat_of_char)
  with 2 show ?case by simp
qed simp

lemma parse_width_ok: "case_adjust (fst (parse_width fs s)) = case_adjust fs"
  "0 \<le> field_width fs \<Longrightarrow> 0 \<le> field_width (fst (parse_width fs s))"
  using parse_digits_nonneg[of 0 s] by (auto simp: parse_width_def split: prod.splits)

lemma parse_flags_width: "field_width (fst (parse_flags fs s)) = field_width fs"
  by (induction fs s rule: parse_flags.induct) auto

lemma parse_prec_ok: "case_adjust (fst (parse_prec fs s)) = case_adjust fs"
  "field_width (fst (parse_prec fs s)) = field_width fs" "0 \<le> prec (fst (parse_prec fs s))"
  using parse_digits_nonneg[of 0 "tl s"] parse_digits_nonneg[of 0 "tl (tl s)"]
  by (auto simp: parse_prec_def Let_def split: prod.splits)

lemma parse_conv_ok:
  assumes "parse_conv fs c = Some fs'"
  shows "field_width fs' = field_width fs" "prec fs' = prec fs"
    "case_adjust fs' = 0 \<or> case_adjust fs' = case_adjust fs"
    "conv_spec fs' = NPF_FMT_SPEC_CONV_OCTAL \<Longrightarrow> prec_opt fs' \<noteq> NPF_FMT_SPEC_OPT_NONE \<Longrightarrow> \<not> leading_zero_pad fs'"
  using assms by (auto simp: parse_conv_def set_int_conv_def Let_def split: if_splits)

lemma npf_spec_init_fields: "case_adjust npf_spec_init = 32" "field_width npf_spec_init = 0"
  by (simp_all add: npf_spec_init_def)

lemma parse_spec_ok:
  assumes "npf_parse_format_spec s = Npf_spec fs r"
  shows "spec_ok fs \<and> 0 \<le> prec fs"
proof -
  obtain fs1 cur1 fs2 cur2 fs3 cur3 lm cur4 where p:
    "parse_flags npf_spec_init (tl s) = (fs1, cur1)" "parse_width fs1 cur1 = (fs2, cur2)"
    "parse_prec fs2 cur2 = (fs3, cur3)" "parse_length cur3 = (lm, cur4)"
    by (metis surj_pair)
  have fs3: "case_adjust fs3 = 32" "0 \<le> field_width fs3" "0 \<le> prec fs3"
    using parse_flags_case[of npf_spec_init "tl s"] parse_flags_width[of npf_spec_init "tl s"]
      parse_width_ok[of fs1 cur1] parse_prec_ok[of fs2 cur2]
    unfolding p fst_conv npf_spec_init_fields by simp_all
  from assms obtain c where c: "parse_conv (fs3\<lparr>length_modifier := lm\<rparr>) c = Some fs"
    and w: "int32 (field_width fs3) \<noteq> None" "int32 (prec fs3) \<noteq> None"
    unfolding npf_parse_format_spec_def p Let_def prod.case
    by (auto split: if_splits list.splits option.splits)
  from w have "field_width fs3 < 2 ^ 31" "prec fs3 < 2 ^ 31" by (auto simp: int32_def split: if_splits)
  with parse_conv_ok[OF c] fs3 show ?thesis by (auto simp: spec_ok_def)
qed

lemma star_args_ok:
  assumes "star_args fs args = Some (fs', args')" and "spec_ok fs"
  shows "spec_ok fs'"
proof -
  have "sint x < 2 ^ 31" for x :: u32 using sint_lt[of x] by simp
  then show ?thesis
    using assms
    by (auto simp: star_args_def spec_ok_def int32_def Let_def split: if_splits bind_splits)
qed

lemma layout_length: "length lead + length body \<le> length (layout left pad_c width lead body)"
  by (simp add: layout_def Let_def)

lemma field_body_length: "length ds \<le> length (field_body fs ds)"
  by (simp add: field_body_def)

context npf_sink
begin

lemma field_prints:
  assumes "ok s" and "\<forall>x. x \<notin> B \<longrightarrow> out_mem s x = m x" and "spec_ok fs"
    and "field_text (readable B m) fs args = Some (t, args')" and "length t < 2 ^ 31"
  shows "npf_field pc fs args s = Some (args', put_all t s)"
proof -
  have rd: "readable B m = readable B (out_mem s)" using assms(2) by (auto simp: readable_def)
  from assms(4)[unfolded rd] obtain fs1 args1 lead ds z where star: "star_args fs args = Some (fs1, args1)"
    and pr: "64 - 2 ^ 31 \<le> prec fs1"
    and cv: "conv_text (readable B (out_mem s)) fs1 args1 = Some ((lead, ds, z), args')"
    and t: "t = layout (left_justified fs1) (npf_pad_c fs1 z) (nat (field_width fs1)) lead (field_body fs1 ds)"
    unfolding field_text_eq by (auto split: bind_splits if_splits)
  note ok1 = star_args_ok[OF star assms(3)]
  have "length ds \<le> length t"
    using layout_length[of lead "field_body fs1 ds" "left_justified fs1" "npf_pad_c fs1 z" "nat (field_width fs1)"]
      field_body_length[of ds fs1] unfolding t by linarith
  then have "length (fst (snd (lead, ds, z))) \<le> INT_MAX" using assms(5) by (simp add: INT_MAX_def)
  from convert_text[OF cv ok1 pr this] obtain fs' c where
    c: "npf_convert (out_mem s) fs1 args1 = Some (fs', c, args')" and r: "renders B (out_mem s) fs' c fs1 (lead, ds, z)"
    by blast
  have "t = layout (left_justified fs') (npf_pad_c fs' (zero c)) (nat (field_width fs')) (lead_text c)
      (body_text (out_mem s) fs' c)"
    using r by (simp add: renders_def t)
  from write_text[OF assms(1) _ _ _ this assms(5)] r have "npf_write pc fs' c s = Some (put_all t s)"
    by (simp add: renders_def)
  then show ?thesis by (simp add: npf_field_def star c)
qed

lemma loop_prints:
  assumes "ok s" and "\<forall>x. x \<notin> B \<longrightarrow> out_mem s x = m x"
    and "printf_text (readable B m) cs args = Some t" and "length t < 2 ^ 31"
  shows "npf_loop pc cs args s = Some (put_all t s)"
  using assms
proof (induction "length cs" arbitrary: cs args s t rule: less_induct)
  case less
  show ?case
  proof (cases cs)
    case Nil
    then show ?thesis using less.prems by simp
  next
    case (Cons c cs')
    let ?parse = "if c \<noteq> CHR ''%'' then Npf_literal else npf_parse_format_spec (c # cs')"
    have frame: "ok (put_all u s)" "\<forall>x. x \<notin> B \<longrightarrow> out_mem (put_all u s) x = m x" for u
      using put_all_ok[OF less.prems(1)] put_all_frame[OF less.prems(1)] less.prems(2) by simp_all
    show ?thesis
    proof (cases ?parse)
      case Npf_undefined
      then show ?thesis using less.prems(3) by (simp add: Cons)
    next
      case Npf_literal
      then obtain u where u: "printf_text (readable B m) cs' args = Some u" "t = of_char c # u"
        using less.prems(3) by (auto simp: Cons)
      have "npf_loop pc cs' args (put_all [of_char c] s) = Some (put_all u (put_all [of_char c] s))"
        using less.prems(4) by (intro less.hyps frame u(1)) (simp_all add: Cons u(2))
      then show ?thesis unfolding Cons npf_loop.simps Npf_literal by (simp add: u(2))
    next
      case (Npf_spec fs r)
      then have p: "npf_parse_format_spec (c # cs') = Npf_spec fs r" by (simp split: if_splits)
      obtain v args1 u where f: "field_text (readable B m) fs args = Some (v, args1)"
        "printf_text (readable B m) r args1 = Some u" "t = v @ u"
        using less.prems(3) unfolding Cons printf_text.simps Npf_spec
        by (auto split: bind_splits)
      have "npf_field pc fs args s = Some (args1, put_all v s)"
        using less.prems(4) parse_spec_ok[OF p]
        by (intro field_prints[OF less.prems(1,2) _ f(1)]) (simp_all add: f(3))
      moreover have "npf_loop pc r args1 (put_all v s) = Some (put_all u (put_all v s))"
        using less.prems(4) npf_parse_shorter[OF p] by (intro less.hyps frame f(2)) (simp_all add: Cons f(3))
      ultimately show ?thesis unfolding Cons npf_loop.simps Npf_spec by (simp add: f(3))
    qed
  qed
qed

theorem vpprintf_prints:
  assumes "ok s" and "printf_text (readable B (out_mem s)) (takeWhile (\<lambda>c. c \<noteq> CHR 0x00) format) args = Some t"
    and "length t < 2 ^ 31"
  shows "npf_vpprintf pc format args s = Some (put_all t (s\<lparr>out_n := 0\<rparr>))
    \<and> out_n (put_all t (s\<lparr>out_n := 0\<rparr>)) = int (length t)"
proof -
  have ok: "ok (s\<lparr>out_n := 0\<rparr>)" using assms(1) by (rule count_ok)
  have n: "out_n (put_all t (s\<lparr>out_n := 0\<rparr>)) = int (length t)" using put_all_count[OF ok] by simp
  have "npf_loop pc (takeWhile (\<lambda>c. c \<noteq> CHR 0x00) format) args (s\<lparr>out_n := 0\<rparr>)
      = Some (put_all t (s\<lparr>out_n := 0\<rparr>))"
    using assms(2,3) by (intro loop_prints[OF ok, of "out_mem s"]) simp_all
  then show ?thesis using assms(3) by (simp add: npf_vpprintf_def n int32_eq)
qed

end

end
