(* ===== verification/NpfFormat.thy ===== *)
theory NpfFormat
  imports NpfText
begin

text \<open>
  The format specifications as a notation: every specification that the parser can produce in one
  way only is written as a string, and the parser reads the string back.
\<close>

definition flag_string :: "npf_format_spec \<Rightarrow> string" where
  "flag_string fs =
     (if left_justified fs then ''-'' else if leading_zero_pad fs then ''0'' else '''')
     @ (if prepend fs = of_char CHR ''+'' then ''+'' else if prepend fs = of_char CHR '' '' then '' '' else '''')
     @ (if alt_form fs then ''#'' else '''')"

definition decimal_string :: "nat \<Rightarrow> string" where
  "decimal_string k = map (\<lambda>d. char_of (48 + d)) (digits 10 k)"

definition width_string :: "npf_format_spec \<Rightarrow> string" where
  "width_string fs = (case field_width_opt fs of
     NPF_FMT_SPEC_OPT_NONE \<Rightarrow> '''' | NPF_FMT_SPEC_OPT_STAR \<Rightarrow> ''*''
   | NPF_FMT_SPEC_OPT_LITERAL \<Rightarrow> decimal_string (nat (field_width fs)))"

definition prec_string :: "npf_format_spec \<Rightarrow> string" where
  "prec_string fs = (case prec_opt fs of
     NPF_FMT_SPEC_OPT_NONE \<Rightarrow> '''' | NPF_FMT_SPEC_OPT_STAR \<Rightarrow> ''.*''
   | NPF_FMT_SPEC_OPT_LITERAL \<Rightarrow> CHR ''.'' # decimal_string (nat (prec fs)))"

fun length_string :: "npf_len_mod \<Rightarrow> string" where
  "length_string NPF_FMT_SPEC_LEN_MOD_SHORT = ''h''"
| "length_string NPF_FMT_SPEC_LEN_MOD_CHAR = ''hh''"
| "length_string NPF_FMT_SPEC_LEN_MOD_LONG = ''l''"
| "length_string NPF_FMT_SPEC_LEN_MOD_LARGE_LONG_LONG = ''ll''"
| "length_string NPF_FMT_SPEC_LEN_MOD_LARGE_INTMAX = ''j''"
| "length_string NPF_FMT_SPEC_LEN_MOD_LARGE_SIZET = ''z''"
| "length_string NPF_FMT_SPEC_LEN_MOD_LARGE_PTRDIFFT = ''t''"
| "length_string _ = ''''"

fun conv_char :: "npf_conv \<Rightarrow> bool \<Rightarrow> char" where
  "conv_char NPF_FMT_SPEC_CONV_CHAR up = CHR ''c''"
| "conv_char NPF_FMT_SPEC_CONV_STRING up = CHR ''s''"
| "conv_char NPF_FMT_SPEC_CONV_SIGNED_INT up = CHR ''d''"
| "conv_char NPF_FMT_SPEC_CONV_BINARY up = (if up then CHR ''B'' else CHR ''b'')"
| "conv_char NPF_FMT_SPEC_CONV_OCTAL up = CHR ''o''"
| "conv_char NPF_FMT_SPEC_CONV_HEX_INT up = (if up then CHR ''X'' else CHR ''x'')"
| "conv_char NPF_FMT_SPEC_CONV_UNSIGNED_INT up = CHR ''u''"
| "conv_char NPF_FMT_SPEC_CONV_POINTER up = CHR ''p''"
| "conv_char _ up = CHR ''%''"

definition spec_string :: "npf_format_spec \<Rightarrow> string" where
  "spec_string fs = CHR ''%'' # flag_string fs @ width_string fs @ prec_string fs
     @ length_string (length_modifier fs) @ [conv_char (conv_spec fs) (case_adjust fs = 0)]"

text \<open>Specifications in normal form: no field holds a value that its string cannot show.\<close>

definition normal_spec :: "npf_format_spec \<Rightarrow> bool" where
  "normal_spec fs \<longleftrightarrow>
     (left_justified fs \<longrightarrow> \<not> leading_zero_pad fs)
     \<and> prepend fs \<in> {0, of_char CHR ''+'', of_char CHR '' ''}
     \<and> (if field_width_opt fs = NPF_FMT_SPEC_OPT_LITERAL then 0 < field_width fs \<and> field_width fs < 2 ^ 31
        else field_width fs = 0)
     \<and> (if prec_opt fs = NPF_FMT_SPEC_OPT_LITERAL then 0 \<le> prec fs \<and> prec fs < 2 ^ 31 else prec fs = 0)
     \<and> length_modifier fs \<noteq> NPF_FMT_SPEC_LEN_MOD_LONG_DOUBLE
     \<and> conv_spec fs \<noteq> NPF_FMT_SPEC_CONV_NONE
     \<and> (conv_spec fs \<in> {NPF_FMT_SPEC_CONV_PERCENT, NPF_FMT_SPEC_CONV_CHAR, NPF_FMT_SPEC_CONV_POINTER}
          \<longrightarrow> prec_opt fs = NPF_FMT_SPEC_OPT_NONE)
     \<and> (conv_spec fs = NPF_FMT_SPEC_CONV_STRING \<longrightarrow> \<not> leading_zero_pad fs)
     \<and> (conv_spec fs \<in> {NPF_FMT_SPEC_CONV_SIGNED_INT, NPF_FMT_SPEC_CONV_OCTAL, NPF_FMT_SPEC_CONV_HEX_INT,
          NPF_FMT_SPEC_CONV_UNSIGNED_INT} \<and> prec_opt fs \<noteq> NPF_FMT_SPEC_OPT_NONE \<longrightarrow> \<not> leading_zero_pad fs)
     \<and> (case_adjust fs = 32 \<or> case_adjust fs = 0
          \<and> conv_spec fs \<in> {NPF_FMT_SPEC_CONV_HEX_INT, NPF_FMT_SPEC_CONV_BINARY})"

section \<open>The characters that end a part\<close>

definition flag_chars :: "char set" where
  "flag_chars = {CHR ''-'', CHR ''0'', CHR ''+'', CHR '' '', CHR ''#''}"

lemma parse_flags_stop: "s = [] \<or> hd s \<notin> flag_chars \<Longrightarrow> parse_flags fs s = (fs, s)"
  by (cases s) (auto simp: flag_chars_def)

lemma parse_flag_string:
  assumes "s = [] \<or> hd s \<notin> flag_chars" and "left_justified fs \<longrightarrow> \<not> leading_zero_pad fs"
    and "prepend fs \<in> {0, of_char CHR ''+'', of_char CHR '' ''}"
  shows "parse_flags npf_spec_init (flag_string fs @ s) = (npf_spec_init\<lparr>left_justified := left_justified fs,
    leading_zero_pad := leading_zero_pad fs, prepend := prepend fs, alt_form := alt_form fs\<rparr>, s)"
  using assms(2,3) parse_flags_stop[OF assms(1)]
  by (cases "left_justified fs"; cases "leading_zero_pad fs"; cases "alt_form fs")
     (auto simp: flag_string_def npf_spec_init_def)

lemma digit_of_char: "d < 10 \<Longrightarrow> is_digit (char_of (48 + d)) \<and> (of_char (char_of (48 + d)) :: int) = 48 + int d"
  for d :: nat
proof -
  assume d: "d < 10"
  then have n: "(of_char (char_of (48 + d)) :: nat) = 48 + d" by simp
  have "(of_char (char_of (48 + d)) :: int) = int (of_char (char_of (48 + d)))" by (rule of_nat_of_char[symmetric])
  then show ?thesis unfolding n is_digit_def using d by simp
qed

lemma parse_digit_list:
  assumes "s = [] \<or> \<not> is_digit (hd s)" and "\<forall>d \<in> set ds. d < (10 :: nat)"
  shows "parse_digits (int w) (map (\<lambda>d. char_of (48 + d)) ds @ s) = (int (foldl (\<lambda>a d. a * 10 + d) w ds), s)"
  using assms(2)
proof (induction ds arbitrary: w)
  case Nil
  then show ?case using assms(1) by (cases s) auto
next
  case (Cons d ds)
  then show ?case using digit_of_char[of d] Cons.IH[of "w * 10 + d"] by simp
qed

lemma parse_decimal_string:
  assumes "s = [] \<or> \<not> is_digit (hd s)"
  shows "parse_digits 0 (decimal_string k @ s) = (int k, s)"
  using parse_digit_list[OF assms, of "digits 10 k" 0] digits_below[of 10 _ k] digits_value_digits[of 10 k]
  by (simp add: decimal_string_def digits_value_def)

lemma digits_hd: "2 \<le> b \<Longrightarrow> 0 < k \<Longrightarrow> hd (digits b k) \<noteq> 0"
proof (induction b k rule: digits.induct)
  case (1 b k)
  then show ?case by (cases "k < b") (auto simp: digits.simps[of b k] hd_append div_greater_zero_iff)
qed

lemma decimal_head:
  "decimal_string k \<noteq> []" "is_digit (hd (decimal_string k))" "0 < k \<Longrightarrow> hd (decimal_string k) \<notin> flag_chars"
proof -
  have d: "hd (digits 10 k) < 10" using digits_below[of 10 _ k] by simp
  then have n: "(of_char (hd (decimal_string k)) :: nat) = 48 + hd (digits 10 k)"
    by (simp add: decimal_string_def hd_map)
  show "decimal_string k \<noteq> []" by (simp add: decimal_string_def)
  show "is_digit (hd (decimal_string k))" using d by (simp add: is_digit_def n)
  show "hd (decimal_string k) \<notin> flag_chars" if "0 < k"
  proof
    assume "hd (decimal_string k) \<in> flag_chars"
    then have "(of_char (hd (decimal_string k)) :: nat) \<le> 48" by (auto simp: flag_chars_def)
    then show False using n digits_hd[of 10 k] that by simp
  qed
qed

section \<open>Reading the parts back\<close>

definition letters :: "char set" where
  "letters = set ''hljztcsdBboXxup%''"

lemma letter: "c \<in> letters \<Longrightarrow> c \<notin> flag_chars \<and> \<not> is_digit c \<and> c \<noteq> CHR ''*'' \<and> c \<noteq> CHR ''.''"
  unfolding letters_def flag_chars_def is_digit_def by auto

lemma conv_char_letter: "conv_char conv up \<in> letters"
  by (cases conv) (simp_all add: letters_def)

lemma length_string_head: "hd (length_string lm @ conv_char conv up # s) \<in> letters"
  using conv_char_letter[of conv up] by (cases lm) (simp_all add: letters_def)

lemma parse_width_string:
  assumes "s \<noteq> []" and "\<not> is_digit (hd s)" and "hd s \<noteq> CHR ''*''"
    and "if field_width_opt fs = NPF_FMT_SPEC_OPT_LITERAL then 0 < field_width fs else field_width fs = 0"
    and "field_width g = 0"
  shows "parse_width g (width_string fs @ s)
    = (g\<lparr>field_width := field_width fs, field_width_opt := field_width_opt fs\<rparr>, s)"
proof (cases "field_width_opt fs")
  case NPF_FMT_SPEC_OPT_NONE
  moreover have "parse_digits 0 s = (0, s)" using assms(1,2) by (cases s) auto
  ultimately show ?thesis using assms by (simp add: width_string_def parse_width_def at_char_def)
next
  case NPF_FMT_SPEC_OPT_STAR
  then show ?thesis using assms(4,5) by (simp add: width_string_def parse_width_def at_char_def)
next
  case NPF_FMT_SPEC_OPT_LITERAL
  let ?d = "decimal_string (nat (field_width fs))"
  have "hd (?d @ s) = hd ?d" "?d @ s \<noteq> []" "is_digit (hd ?d)" using decimal_head[of "nat (field_width fs)"] by auto
  moreover have "hd ?d \<noteq> CHR ''*''" using decimal_head(2)[of "nat (field_width fs)"] by (auto simp: is_digit_def)
  ultimately show ?thesis
    using NPF_FMT_SPEC_OPT_LITERAL assms parse_decimal_string[of s "nat (field_width fs)"]
    by (simp add: width_string_def parse_width_def at_char_def)
qed

lemma parse_prec_string:
  assumes "s \<noteq> []" and "\<not> is_digit (hd s)" and "hd s \<noteq> CHR ''.''"
    and "if prec_opt fs = NPF_FMT_SPEC_OPT_LITERAL then 0 \<le> prec fs else prec fs = 0"
  shows "parse_prec g (prec_string fs @ s) = (g\<lparr>prec := prec fs, prec_opt := prec_opt fs\<rparr>, s)"
proof (cases "prec_opt fs")
  case NPF_FMT_SPEC_OPT_NONE
  then show ?thesis using assms by (simp add: prec_string_def parse_prec_def at_char_def)
next
  case NPF_FMT_SPEC_OPT_STAR
  then show ?thesis using assms(4) by (simp add: prec_string_def parse_prec_def at_char_def)
next
  case NPF_FMT_SPEC_OPT_LITERAL
  let ?d = "decimal_string (nat (prec fs))"
  have "hd (?d @ s) = hd ?d" "?d \<noteq> []" using decimal_head[of "nat (prec fs)"] by auto
  moreover have "hd ?d \<noteq> CHR ''*''" "hd ?d \<noteq> CHR ''-''"
    using decimal_head(2)[of "nat (prec fs)"] by (auto simp: is_digit_def)
  ultimately show ?thesis
    using NPF_FMT_SPEC_OPT_LITERAL assms parse_decimal_string[of s "nat (prec fs)"]
    by (simp add: prec_string_def parse_prec_def at_char_def)
qed

lemma parse_length_string:
  assumes "lm \<noteq> NPF_FMT_SPEC_LEN_MOD_LONG_DOUBLE"
  shows "parse_length (length_string lm @ conv_char conv up # s) = (lm, conv_char conv up # s)"
proof -
  have "conv_char conv up \<notin> set ''hljzt''" by (cases conv) simp_all
  then show ?thesis using assms by (cases lm) (simp_all add: parse_length_def at_char_def)
qed

lemma parse_conv_char:
  assumes "normal_spec fs" and "g = fs\<lparr>case_adjust := 32, conv_spec := NPF_FMT_SPEC_CONV_NONE\<rparr>"
  shows "parse_conv g (conv_char (conv_spec fs) (case_adjust fs = 0)) = Some fs"
proof -
  note n = assms(1)[unfolded normal_spec_def]
  consider "case_adjust fs = 32" | "case_adjust fs = 0" "conv_spec fs \<in> {NPF_FMT_SPEC_CONV_HEX_INT, NPF_FMT_SPEC_CONV_BINARY}"
    using n by blast
  then show ?thesis
  proof cases
    case 1
    then show ?thesis
      using n by (cases "conv_spec fs") (simp_all add: parse_conv_def set_int_conv_def Let_def assms(2))
  next
    case 2
    then show ?thesis
      using n by (elim insertE emptyE conjE) (simp_all add: parse_conv_def set_int_conv_def Let_def assms(2))
  qed
qed

text \<open>
  C20. Specifications survive printing and parsing: the parser reads the string of every
  specification in normal form back as that specification, and leaves what follows it.
\<close>

theorem npf_parse_reads_back:
  assumes "normal_spec fs"
  shows "npf_parse_format_spec (spec_string fs @ rest) = Npf_spec fs rest"
proof -
  define t4 where "t4 = conv_char (conv_spec fs) (case_adjust fs = 0) # rest"
  define t3 where "t3 = length_string (length_modifier fs) @ t4"
  define t2 where "t2 = prec_string fs @ t3"
  define t1 where "t1 = width_string fs @ t2"
  have t3: "t3 \<noteq> []" "hd t3 \<in> letters" using length_string_head by (auto simp: t3_def t4_def)
  then have hd2: "t2 \<noteq> []" "hd t2 = CHR ''.'' \<or> hd t2 \<in> letters"
    by (auto simp: t2_def prec_string_def split: npf_opt.split)
  then have t2: "\<not> is_digit (hd t2)" "hd t2 \<noteq> CHR ''*''" "hd t2 \<notin> flag_chars"
    using letter[of "hd t2"] by (auto simp: is_digit_def flag_chars_def)
  have "t1 = [] \<or> hd t1 \<notin> flag_chars"
  proof (cases "field_width_opt fs")
    case NPF_FMT_SPEC_OPT_LITERAL
    then show ?thesis
      using assms decimal_head(1,3)[of "nat (field_width fs)"] by (simp add: t1_def width_string_def normal_spec_def)
  qed (use t2 in \<open>simp_all add: t1_def width_string_def flag_chars_def\<close>)
  then have flags: "parse_flags npf_spec_init (flag_string fs @ t1) = (npf_spec_init\<lparr>left_justified := left_justified fs,
      leading_zero_pad := leading_zero_pad fs, prepend := prepend fs, alt_form := alt_form fs\<rparr>, t1)"
    using assms by (intro parse_flag_string) (auto simp: normal_spec_def)
  have width: "parse_width g t1 = (g\<lparr>field_width := field_width fs, field_width_opt := field_width_opt fs\<rparr>, t2)"
    if "field_width g = 0" for g
    unfolding t1_def using assms that hd2(1) t2 by (intro parse_width_string) (auto simp: normal_spec_def)
  have prec: "parse_prec g t2 = (g\<lparr>prec := prec fs, prec_opt := prec_opt fs\<rparr>, t3)" for g
    unfolding t2_def using assms t3 letter[of "hd t3"] by (intro parse_prec_string) (auto simp: normal_spec_def)
  have len: "parse_length t3 = (length_modifier fs, t4)"
    unfolding t3_def t4_def using assms by (intro parse_length_string) (simp add: normal_spec_def)
  have conv: "parse_conv (fs\<lparr>case_adjust := 32, conv_spec := NPF_FMT_SPEC_CONV_NONE\<rparr>)
      (conv_char (conv_spec fs) (case_adjust fs = 0)) = Some fs"
    using assms refl by (rule parse_conv_char)
  have "tl (spec_string fs @ rest) = flag_string fs @ t1"
    by (simp add: spec_string_def t1_def t2_def t3_def t4_def)
  moreover have "int32 (field_width fs) \<noteq> None" "int32 (prec fs) \<noteq> None"
    using assms by (auto simp: normal_spec_def int32_def split: if_splits)
  moreover have "fs\<lparr>case_adjust := 32, conv_spec := NPF_FMT_SPEC_CONV_NONE\<rparr>
    = npf_spec_init\<lparr>left_justified := left_justified fs, leading_zero_pad := leading_zero_pad fs,
        prepend := prepend fs, alt_form := alt_form fs, field_width := field_width fs,
        field_width_opt := field_width_opt fs, prec := prec fs, prec_opt := prec_opt fs,
        length_modifier := length_modifier fs\<rparr>"
    by (simp add: npf_spec_init_def)
  ultimately show ?thesis
    using conv by (simp add: npf_parse_format_spec_def flags width prec len t4_def npf_spec_init_fields)
qed

definition padded_hex :: npf_format_spec where
  "padded_hex = npf_spec_init\<lparr>leading_zero_pad := True, alt_form := True, field_width := 18,
     field_width_opt := NPF_FMT_SPEC_OPT_LITERAL, length_modifier := NPF_FMT_SPEC_LEN_MOD_LARGE_LONG_LONG,
     conv_spec := NPF_FMT_SPEC_CONV_HEX_INT\<rparr>"

theorem npf_parse_reads_back_witness: "npf_parse_format_spec ''%0#18llx\<newline>'' = Npf_spec padded_hex ''\<newline>''"
proof -
  have "spec_string padded_hex = ''%0#18llx''"
    by (simp add: spec_string_def padded_hex_def npf_spec_init_def flag_string_def width_string_def prec_string_def
        decimal_string_def digits.simps[of 10] char_of_def bit_0)
  moreover have "normal_spec padded_hex" by (simp add: normal_spec_def padded_hex_def npf_spec_init_def)
  ultimately show ?thesis using npf_parse_reads_back[of padded_hex "''\<newline>''"] by simp
qed

section \<open>The type of a specification\<close>

lemma star_args_type:
  assumes "star_args fs args = Some (fs', args')" and "0 \<le> prec fs"
  shows "prec_opt fs' = NPF_FMT_SPEC_OPT_NONE \<or> 0 \<le> prec fs'"
    and "length args \<le> length args' + of_bool (field_width_opt fs = NPF_FMT_SPEC_OPT_STAR) + of_bool (prec_opt fs = NPF_FMT_SPEC_OPT_STAR)"
  using assms by (cases args; cases "tl args"; auto simp: star_args_def Let_def split: if_splits bind_splits)+

text \<open>
  C21. What the parser returns is well-typed: it takes at least one character; width and precision are not
  negative and fit a C \<open>int\<close>, the case bit is 0 or that of the lower case, and an octal specification with a
  precision has no zero flag.  The star arguments, whatever their values, keep this, save that a negative precision is
  switched off, and take one argument for each star.
\<close>

theorem npf_spec_well_typed:
  assumes "npf_parse_format_spec s = Npf_spec fs r"
  shows "length r < length s \<and> spec_ok fs \<and> 0 \<le> prec fs
    \<and> (\<forall>args fs' args'. star_args fs args = Some (fs', args') \<longrightarrow> spec_ok fs'
        \<and> (prec_opt fs' = NPF_FMT_SPEC_OPT_NONE \<or> 0 \<le> prec fs')
        \<and> length args \<le> length args' + of_bool (field_width_opt fs = NPF_FMT_SPEC_OPT_STAR) + of_bool (prec_opt fs = NPF_FMT_SPEC_OPT_STAR))"
  using npf_parse_shorter[OF assms] parse_spec_ok[OF assms] star_args_ok star_args_type by blast

text \<open>A star width of -5 and a star precision of -1.\<close>

theorem npf_spec_well_typed_witness:
  "\<exists>fs fs'. npf_parse_format_spec ''%*.*d'' = Npf_spec fs [] \<and> star_args fs [- 5, - 1, 42] = Some (fs', [42]) \<and> spec_ok fs'
    \<and> field_width fs' = 5 \<and> left_justified fs'"
proof -
  obtain fs where fs: "npf_parse_format_spec ''%*.*d'' = Npf_spec fs []" "field_width_opt fs = NPF_FMT_SPEC_OPT_STAR"
    "prec_opt fs = NPF_FMT_SPEC_OPT_STAR"
    by (simp add: npf_parse_format_spec_def parse_width_def parse_prec_def parse_length_def parse_conv_def set_int_conv_def npf_spec_init_def
        at_char_def Let_def int32_def)
  obtain fs' where fs': "star_args fs [- 5, - 1, 42] = Some (fs', [42])" "field_width fs' = 5" "left_justified fs'"
    by (simp add: star_args_def fs int32_def Let_def)
  have "spec_ok fs'" using npf_spec_well_typed[OF fs(1)] fs'(1) by blast
  with fs(1) fs' show ?thesis by blast
qed

end
