(* ===== verification/Serio.thy ===== *)
theory Serio
  imports Machine
begin

text \<open>
  The serial port, \<^verbatim>\<open>kernel/src/dev/serio.c\<close>, and the initialisation of the keyboard
  controller, \<^verbatim>\<open>kernel/src/dev/i8042/i8024.c\<close>.  The driver polls the line status before
  every byte; a port that never becomes ready is waited for without end.
\<close>

section \<open>The driver\<close>

definition PORT :: u16 where "PORT = 0x3f8"

definition is_transmit_empty :: "'a machine_scheme \<Rightarrow> u8 \<times> 'a machine_scheme" where
  "is_transmit_empty s = (let (v, s1) = inb (PORT + 5) s in (v AND 0x20, s1))"

partial_function (option) wait_transmit :: "'a machine_scheme \<Rightarrow> 'a machine_scheme option" where
  "wait_transmit s = (let (v, s1) = is_transmit_empty s in if v = 0 then wait_transmit s1 else Some s1)"

text \<open>The bytes from \<open>buf[i]\<close> on, \<open>n\<close> of them.\<close>

fun serio_print_loop :: "ptr \<Rightarrow> nat \<Rightarrow> nat \<Rightarrow> 'a machine_scheme \<Rightarrow> 'a machine_scheme option" where
  "serio_print_loop buf i 0 s = Some s"
| "serio_print_loop buf i (Suc n) s =
     Option.bind (wait_transmit s) (\<lambda>s1.
       serio_print_loop buf (Suc i) n (outb PORT (mem s1 (buf + of_nat i)) s1))"

definition serio_print :: "ptr \<Rightarrow> int \<Rightarrow> 'a machine_scheme \<Rightarrow> 'a machine_scheme option" where
  "serio_print buf n s = serio_print_loop buf 0 (nat n) s"

text \<open>\<open>lit\<close> gives the addresses of the string literals.\<close>

definition serio_rule :: string where
  "serio_rule = replicate 29 CHR ''='' @ ''\<newline>''"

definition serio_banner :: string where
  "serio_banner = ''  Soaplin Kernel Logs:START  \<newline>''"

definition serio_setup :: "'a machine_scheme \<Rightarrow> 'a machine_scheme" where
  "serio_setup s =
     (let s1 = outb (PORT + 1) 0x00 s; s2 = outb (PORT + 3) 0x80 s1; s3 = outb (PORT + 0) 0x03 s2;
          s4 = outb (PORT + 1) 0x00 s3; s5 = outb (PORT + 3) 0x03 s4; s6 = outb (PORT + 2) 0xC7 s5;
          s7 = outb (PORT + 4) 0x0B s6; s8 = outb (PORT + 4) 0x1E s7
      in outb (PORT + 0) 0xAE s8)"

definition serio_init :: "(string \<Rightarrow> ptr) \<Rightarrow> 'a machine_scheme \<Rightarrow> (int \<times> 'a machine_scheme) option" where
  "serio_init lit s =
     (let (v, s1) = inb (PORT + 0) (serio_setup s)
      in if v \<noteq> 0xAE then Some (1, s1)
         else Option.bind (serio_print (lit serio_rule) 30 (outb (PORT + 4) 0x0F s1)) (\<lambda>s2.
              Option.bind (serio_print (lit serio_banner) 30 s2) (\<lambda>s3.
              Option.bind (serio_print (lit serio_rule) 30 s3) (\<lambda>s4. Some (0, s4)))))"

definition PS2_IOPORT :: u16 where "PS2_IOPORT = 0x60"

definition i8042_init :: "'a machine_scheme \<Rightarrow> 'a machine_scheme" where
  "i8042_init s = snd (inb PS2_IOPORT (outb PS2_IOPORT 0xA7 (outb PS2_IOPORT 0xAD s)))"

section \<open>What reaches the line\<close>

text \<open>The bytes written to the data port, in order.\<close>

fun sent :: "event list \<Rightarrow> u8 list" where
  "sent [] = []"
| "sent (Outb p v # es) = (if p = PORT then v # sent es else sent es)"
| "sent (_ # es) = sent es"

lemma sent_append [simp]: "sent (es @ fs) = sent es @ sent fs"
  by (induction es rule: sent.induct) auto

text \<open>
  Nothing but polls of the line status and bytes sent, every byte after a status that says the port is ready:
  \<open>r\<close> is the last answer.
\<close>

fun polite :: "bool \<Rightarrow> event list \<Rightarrow> bool" where
  "polite r [] = True"
| "polite r (Inb p v # es) = (p = PORT + 5 \<and> polite (v AND 0x20 \<noteq> 0) es)"
| "polite r (Outb p v # es) = (p = PORT \<and> r \<and> polite False es)"
| "polite r (_ # es) = False"

text \<open>The port is ready at the latest with the \<open>k\<close>-th poll from now on; a responsive port always
becomes ready again.\<close>

fun poll_ready :: "(event list \<Rightarrow> u16 \<Rightarrow> u8) \<Rightarrow> event list \<Rightarrow> nat \<Rightarrow> bool" where
  "poll_ready d h 0 = (d h (PORT + 5) AND 0x20 \<noteq> 0)"
| "poll_ready d h (Suc k) = (d h (PORT + 5) AND 0x20 \<noteq> 0
     \<or> poll_ready d (h @ [Inb (PORT + 5) (d h (PORT + 5))]) k)"

definition responsive :: "'a machine_scheme \<Rightarrow> bool" where
  "responsive s \<longleftrightarrow> (\<forall>h. \<exists>k. poll_ready (dev s) h k)"

lemma responsive_emit [simp]: "responsive (s\<lparr>trace := t\<rparr>) = responsive s"
  by (simp add: responsive_def)

lemma wait_transmit_ready:
  "poll_ready (dev s) (trace s) k \<Longrightarrow> \<exists>es. wait_transmit s = Some (s\<lparr>trace := trace s @ es\<rparr>)
     \<and> sent es = [] \<and> (\<forall>r v fs. polite r (es @ Outb PORT v # fs) = polite False fs)"
proof (induction k arbitrary: s)
  case 0
  then show ?case
    by (subst wait_transmit.simps)
       (auto simp: is_transmit_empty_def inb_def emit_def Let_def intro!: exI[of _ "[Inb (PORT + 5) (dev s (trace s) (PORT + 5))]"])
next
  case (Suc k)
  let ?v = "dev s (trace s) (PORT + 5)"
  let ?e = "Inb (PORT + 5) ?v" and ?s1 = "s\<lparr>trace := trace s @ [Inb (PORT + 5) (dev s (trace s) (PORT + 5))]\<rparr>"
  show ?case
  proof (cases "?v AND 0x20 = 0")
    case True
    then have "poll_ready (dev ?s1) (trace ?s1) k" using Suc.prems by simp
    then obtain es where es: "wait_transmit ?s1 = Some (?s1\<lparr>trace := trace ?s1 @ es\<rparr>)" "sent es = []"
      "\<forall>r v fs. polite r (es @ Outb PORT v # fs) = polite False fs"
      using Suc.IH by blast
    have "wait_transmit s = wait_transmit ?s1"
      using True by (subst wait_transmit.simps) (simp add: is_transmit_empty_def inb_def emit_def Let_def)
    with es show ?thesis by (intro exI[of _ "?e # es"]) simp
  next
    case False
    then show ?thesis
      by (subst wait_transmit.simps)
         (auto simp: is_transmit_empty_def inb_def emit_def Let_def intro!: exI[of _ "[?e]"])
  qed
qed

lemma serio_print_loop_sends:
  "responsive s \<Longrightarrow> \<exists>es. serio_print_loop buf i k s = Some (s\<lparr>trace := trace s @ es\<rparr>)
     \<and> sent es = map (\<lambda>j. mem s (buf + of_nat j)) [i..<i + k] \<and> (\<forall>r. polite r es)"
proof (induction k arbitrary: i s)
  case 0
  show ?case by (intro exI[of _ "[]"]) simp
next
  case (Suc k)
  obtain n where "poll_ready (dev s) (trace s) n" using Suc.prems by (auto simp: responsive_def)
  then obtain es where es: "wait_transmit s = Some (s\<lparr>trace := trace s @ es\<rparr>)" "sent es = []"
    "\<forall>r v fs. polite r (es @ Outb PORT v # fs) = polite False fs"
    using wait_transmit_ready by blast
  let ?e = "Outb PORT (mem s (buf + of_nat i))"
  let ?s1 = "s\<lparr>trace := trace s @ es @ [Outb PORT (mem s (buf + of_nat i))]\<rparr>"
  have "responsive ?s1" using Suc.prems by simp
  from Suc.IH[OF this, of "Suc i"] obtain fs where
    fs: "serio_print_loop buf (Suc i) k ?s1 = Some (s\<lparr>trace := trace s @ es @ ?e # fs\<rparr>)"
    "sent fs = map (\<lambda>j. mem s (buf + of_nat j)) [Suc i..<Suc i + k]" "\<forall>r. polite r fs"
    by auto
  have "outb PORT (mem s (buf + of_nat i)) (s\<lparr>trace := trace s @ es\<rparr>) = ?s1"
    by (simp add: outb_def emit_def)
  then have "serio_print_loop buf i (Suc k) s = Some (s\<lparr>trace := trace s @ es @ ?e # fs\<rparr>)"
    using fs(1) by (simp add: es(1))
  moreover have "sent (es @ ?e # fs) = map (\<lambda>j. mem s (buf + of_nat j)) [i..<i + Suc k]"
    using es(2) fs(2) upt_conv_Cons[of i "i + Suc k"] by (simp del: upt_Suc)
  moreover have "\<forall>r. polite r (es @ ?e # fs)" using es(3) fs(3) by simp
  ultimately show ?case by blast
qed

lemma serio_print_runs:
  assumes "responsive s"
  shows "\<exists>es. serio_print buf n s = Some (s\<lparr>trace := trace s @ es\<rparr>)
    \<and> sent es = bytes_at (mem s) buf (nat n) \<and> polite False es"
  using serio_print_loop_sends[OF assms, of buf 0 "nat n"] by (auto simp: serio_print_def bytes_at_def)

text \<open>
  C34. \<open>serio_print\<close> on a port that always becomes ready again returns, having sent exactly the
  \<open>len\<close> bytes of the buffer in order, each of them only after the port had said it was ready; it changes
  nothing but the trace of port accesses.
\<close>

theorem serio_print_sends:
  assumes "responsive s"
  shows "\<exists>es. serio_print buf n s = Some (s\<lparr>trace := trace s @ es\<rparr>)
    \<and> sent es = bytes_at (mem s) buf (nat n) \<and> polite False es"
  by (rule serio_print_runs[OF assms])

text \<open>A port that is never ready is waited for without end.\<close>

lemma wait_transmit_none:
  assumes "wait_transmit s = Some s'"
  shows "\<exists>h. dev s h (PORT + 5) AND 0x20 \<noteq> 0"
  using assms
proof (rule wait_transmit.raw_induct[where P = "\<lambda>s s'. \<exists>h. dev s h (PORT + 5) AND 0x20 \<noteq> 0", rotated])
  fix wait :: "'a machine_scheme \<Rightarrow> 'a machine_scheme option" and s s' :: "'a machine_scheme"
  assume ih: "\<And>s s'. wait s = Some s' \<Longrightarrow> \<exists>h. dev s h (PORT + 5) AND 0x20 \<noteq> 0"
    and run: "(let (v, s1) = is_transmit_empty s in if v = 0 then wait s1 else Some s1) = Some s'"
  show "\<exists>h. dev s h (PORT + 5) AND 0x20 \<noteq> 0"
  proof (cases "dev s (trace s) (PORT + 5) AND 0x20 = 0")
    case True
    then have "wait (snd (is_transmit_empty s)) = Some s'"
      using run by (simp add: is_transmit_empty_def inb_def Let_def split: prod.splits)
    from ih[OF this] show ?thesis by (simp add: is_transmit_empty_def inb_def Let_def)
  qed blast
qed

text \<open>
  There is no time limit: on a port that never reports an empty transmitter \<open>serio_print\<close> of
  at least one byte does not return.
\<close>

theorem serio_print_hangs:
  assumes "\<forall>h. dev s h (PORT + 5) AND 0x20 = 0" and "0 < n"
  shows "serio_print buf n s = None"
proof -
  have "wait_transmit s = None" using wait_transmit_none[of s] assms(1) by (cases "wait_transmit s") auto
  then show ?thesis using assms(2) by (cases "nat n") (simp_all add: serio_print_def)
qed

section \<open>Sample devices\<close>

text \<open>Every port of the device answers with the same byte.\<close>

definition steady :: "u8 \<Rightarrow> machine" where
  "steady v = \<lparr>mem = (\<lambda>x. ucast x), trace = [], dev = (\<lambda>_ _. v)\<rparr>"

lemma steady_responsive: "responsive (steady 0x20)"
  by (auto simp: responsive_def steady_def intro!: exI[of _ 0])

theorem serio_print_sends_witness:
  "\<exists>es. serio_print 0x41 3 (steady 0x20) = Some ((steady 0x20)\<lparr>trace := es\<rparr>) \<and> sent es = [0x41, 0x42, 0x43]"
  using serio_print_sends[OF steady_responsive, of "0x41" 3] by (auto simp: steady_def bytes_at_def upt_rec)

theorem serio_print_hangs_witness: "serio_print 0x41 3 (steady 0) = None"
  by (rule serio_print_hangs) (simp_all add: steady_def)

section \<open>The self test\<close>

lemma serio_setup_trace:
  "serio_setup s = s\<lparr>trace := trace s @ [Outb (PORT + 1) 0x00, Outb (PORT + 3) 0x80, Outb PORT 0x03,
     Outb (PORT + 1) 0x00, Outb (PORT + 3) 0x03, Outb (PORT + 2) 0xC7, Outb (PORT + 4) 0x0B,
     Outb (PORT + 4) 0x1E, Outb PORT 0xAE]\<rparr>"
  by (simp add: serio_setup_def outb_def emit_def Let_def)

text \<open>What the driver writes before it reads the test byte back, and the modem control register of the chip.\<close>

definition serio_program :: "event list" where
  "serio_program = [Outb 0x3f9 0x00, Outb 0x3fb 0x80, Outb 0x3f8 0x03, Outb 0x3f9 0x00, Outb 0x3fb 0x03, Outb 0x3fa 0xC7,
     Outb 0x3fc 0x0B, Outb 0x3fc 0x1E, Outb 0x3f8 0xAE]"

fun modem_control :: "u8 \<Rightarrow> event list \<Rightarrow> u8" where
  "modem_control c [] = c"
| "modem_control c (Outb p v # es) = modem_control (if p = 0x3fc then v else c) es"
| "modem_control c (_ # es) = modem_control c es"

text \<open>Bit 4 of the register switches loopback mode on.\<close>

definition loopback :: "event list \<Rightarrow> bool" where
  "loopback es \<longleftrightarrow> modem_control 0 es AND 0x10 \<noteq> 0"

lemma modem_control_append: "modem_control c (es @ fs) = modem_control (modem_control c es) fs"
  by (induction c es rule: modem_control.induct) auto

lemma polite_modem: "polite r es \<Longrightarrow> modem_control c es = c"
  by (induction r es rule: polite.induct) (auto simp: PORT_def)

lemma polite_append: "polite r es \<Longrightarrow> \<forall>r. polite r fs \<Longrightarrow> polite r (es @ fs)"
  by (induction r es rule: polite.induct) auto

lemma banner_line:
  assumes "responsive s" and "cstr_at (mem s) a (map of_char str)" and "length str = 30"
  shows "\<exists>fs. serio_print a 30 (s\<lparr>trace := t\<rparr>) = Some (s\<lparr>trace := t @ fs\<rparr>) \<and> sent fs = map of_char str \<and> (\<forall>r. polite r fs)"
proof -
  have "bytes_at (mem s) a (Suc (length str)) = map of_char str @ [0]" using assms(2) by (simp add: cstr_at_def)
  then have "map (\<lambda>j. mem s (a + of_nat j)) [0..<30] = map of_char str"
    using assms(3) by (simp add: bytes_at_def eval_nat_numeral)
  moreover have "responsive (s\<lparr>trace := t\<rparr>)" using assms(1) by simp
  ultimately show ?thesis
    using serio_print_loop_sends[of "s\<lparr>trace := t\<rparr>" a 0 30] by (auto simp: serio_print_def)
qed

text \<open>
  C35. \<open>serio_init\<close> sets the chip up with exactly the nine writes of \<open>serio_program\<close>, the last but one of which switches
  loopback mode on, and decides by the test byte that comes back.  If another byte comes back it returns 1 and does
  nothing more, which leaves the chip in loopback mode; if it is the test byte, it takes the chip out of
  loopback mode and sends the three lines of the banner, each without its NUL and each byte when the port is ready.
\<close>

theorem serio_init_selftest:
  assumes "responsive s" and "\<forall>str \<in> {serio_rule, serio_banner}. cstr_at (mem s) (lit str) (map of_char str)"
  shows "let v = dev s (trace s @ serio_program) 0x3f8 in
     if v = 0xAE
     then \<exists>es. serio_init lit s = Some (0, s\<lparr>trace := trace s @ serio_program @ Inb 0x3f8 v # Outb 0x3fc 0x0F # es\<rparr>)
       \<and> sent es = map of_char (serio_rule @ serio_banner @ serio_rule) \<and> polite False es
       \<and> \<not> loopback (serio_program @ Inb 0x3f8 v # Outb 0x3fc 0x0F # es)
     else serio_init lit s = Some (1, s\<lparr>trace := trace s @ serio_program @ [Inb 0x3f8 v]\<rparr>)
       \<and> loopback (serio_program @ [Inb 0x3f8 v])"
proof -
  let ?v = "dev s (trace s @ serio_program) 0x3f8" and ?t = "trace s @ serio_program"
  have start0: "serio_setup s = s\<lparr>trace := ?t\<rparr>" by (simp add: serio_setup_trace serio_program_def PORT_def)
  have inb: "inb PORT (serio_setup s) = (?v, s\<lparr>trace := ?t @ [Inb 0x3f8 ?v]\<rparr>)"
    unfolding start0 by (simp add: inb_def emit_def Let_def PORT_def)
  have on: "modem_control 0 serio_program = 0x1E" by (simp add: serio_program_def)
  show ?thesis
  proof (cases "?v = 0xAE")
    case False
    then show ?thesis by (simp add: serio_init_def inb loopback_def modem_control_append on)
  next
    case True
    let ?u = "?t @ [Inb 0x3f8 ?v, Outb 0x3fc 0x0F]"
    have start: "outb (PORT + 4) 0x0F (s\<lparr>trace := ?t @ [Inb 0x3f8 ?v]\<rparr>) = s\<lparr>trace := ?u\<rparr>"
      by (simp add: outb_def emit_def PORT_def)
    have line: "\<exists>fs. serio_print (lit str) 30 (s\<lparr>trace := t\<rparr>) = Some (s\<lparr>trace := t @ fs\<rparr>)
        \<and> sent fs = map of_char str \<and> (\<forall>r. polite r fs)" if "str \<in> {serio_rule, serio_banner}" for str t
      using that assms(2) by (intro banner_line[OF assms(1)]) (auto simp: serio_rule_def serio_banner_def)
    obtain f1 where f1: "serio_print (lit serio_rule) 30 (s\<lparr>trace := ?u\<rparr>) = Some (s\<lparr>trace := ?u @ f1\<rparr>)"
      "sent f1 = map of_char serio_rule" "\<forall>r. polite r f1" using line[of serio_rule ?u] by blast
    obtain f2 where f2: "serio_print (lit serio_banner) 30 (s\<lparr>trace := ?u @ f1\<rparr>) = Some (s\<lparr>trace := (?u @ f1) @ f2\<rparr>)"
      "sent f2 = map of_char serio_banner" "\<forall>r. polite r f2" using line[of serio_banner "?u @ f1"] by blast
    obtain f3 where f3: "serio_print (lit serio_rule) 30 (s\<lparr>trace := (?u @ f1) @ f2\<rparr>) = Some (s\<lparr>trace := ((?u @ f1) @ f2) @ f3\<rparr>)"
      "sent f3 = map of_char serio_rule" "\<forall>r. polite r f3" using line[of serio_rule "(?u @ f1) @ f2"] by blast
    have "serio_init lit s = Some (0, s\<lparr>trace := ?u @ f1 @ f2 @ f3\<rparr>)"
      unfolding serio_init_def add_0_right inb prod.case Let_def start using True f1(1) f2(1) f3(1) by simp
    moreover have pol: "polite False (f1 @ f2 @ f3)" using f1(3) f2(3) f3(3) by (simp add: polite_append)
    moreover have "\<not> loopback (serio_program @ Inb 0x3f8 ?v # Outb 0x3fc 0x0F # f1 @ f2 @ f3)"
      using polite_modem[OF pol] by (simp add: loopback_def modem_control_append on)
    moreover have "sent (f1 @ f2 @ f3) = map of_char (serio_rule @ serio_banner @ serio_rule)"
      using f1(2) f2(2) f3(2) by simp
    ultimately show ?thesis using True by (auto simp: Let_def)
  qed
qed

definition banner_lit :: "string \<Rightarrow> ptr" where
  "banner_lit str = (if str = serio_rule then 0x1000 else 0x2000)"

definition banner_mem :: mem where
  "banner_mem x =
     (if unat (x - 0x1000) < 31 then (map of_char serio_rule @ [0]) ! unat (x - 0x1000)
      else (map of_char serio_banner @ [0]) ! unat (x - 0x2000))"

lemma banner_in_memory:
  "\<forall>str \<in> {serio_rule, serio_banner}. cstr_at banner_mem (banner_lit str) (map of_char str)"
proof -
  have len: "length serio_rule = 30" "length serio_banner = 30" by (simp_all add: serio_rule_def serio_banner_def)
  have "serio_banner \<noteq> serio_rule" by (simp add: serio_rule_def serio_banner_def eval_nat_numeral)
  moreover have "0 \<notin> set (map of_char serio_rule :: u8 list)" "0 \<notin> set (map of_char serio_banner :: u8 list)"
    by (simp_all add: serio_rule_def serio_banner_def)
  moreover have "bytes_at banner_mem 0x1000 (Suc 30) = map of_char serio_rule @ [0]"
    by (intro nth_equalityI) (auto simp: len bytes_at_def banner_mem_def unat_of_nat simp del: upt_Suc)
  moreover have "bytes_at banner_mem 0x2000 (Suc 30) = map of_char serio_banner @ [0]"
  proof (intro nth_equalityI)
    fix i assume "i < length (bytes_at banner_mem 0x2000 (Suc 30))"
    then have i: "i < 31" by simp
    then have "unat (of_nat i :: u64) = i" by (simp add: unat_of_nat)
    moreover have "\<not> unat (0x2000 + of_nat i - 0x1000 :: u64) < 31"
      using i by (simp add: unat_word_ariths unat_of_nat)
    ultimately show "bytes_at banner_mem 0x2000 (Suc 30) ! i = (map of_char serio_banner @ [0]) ! i"
      using i by (simp add: bytes_at_def banner_mem_def del: upt_Suc)
  qed (simp add: len)
  ultimately show ?thesis by (simp add: cstr_at_def len banner_lit_def)
qed

theorem serio_init_selftest_witness:
  "(\<exists>es. serio_init banner_lit \<lparr>mem = banner_mem, trace = [], dev = (\<lambda>_ _. 0xAE)\<rparr>
      = Some (0, \<lparr>mem = banner_mem, trace = serio_program @ Inb 0x3f8 0xAE # Outb 0x3fc 0x0F # es, dev = (\<lambda>_ _. 0xAE)\<rparr>)
    \<and> sent es = map of_char (serio_rule @ serio_banner @ serio_rule))
   \<and> serio_init banner_lit \<lparr>mem = banner_mem, trace = [], dev = (\<lambda>_ _. 0x20)\<rparr>
      = Some (1, \<lparr>mem = banner_mem, trace = serio_program @ [Inb 0x3f8 0x20], dev = (\<lambda>_ _. 0x20)\<rparr>)"
proof -
  have "responsive \<lparr>mem = banner_mem, trace = [], dev = (\<lambda>_ _. v)\<rparr>" if "v \<in> {0xAE, 0x20}" for v
    using that by (auto simp: responsive_def intro!: exI[of _ 0])
  note run = serio_init_selftest[OF this, of _ banner_lit, simplified, OF _ banner_in_memory[simplified]]
  show ?thesis using run[of "0xAE"] run[of "0x20"] by (auto simp: Let_def)
qed

end
