(* ===== verification/Spinlock.thy ===== *)
theory Spinlock
  imports Prelude
begin

text \<open>
  The spin lock, \<^verbatim>\<open>kernel/src/core/lock/spinlock.c\<close>.  One iteration of the loop is an atomic
  test-and-set of the lock with what follows it; the loop of one thread and the steps of all
  threads together are built from it.  The counter \<open>cnt\<close> is not initialised, so it starts from
  an arbitrary value.
\<close>

section \<open>The code\<close>

datatype spin_state = Idle | Spinning u64 | Holding | Deadlocked

text \<open>\<open>__atomic_test_and_set\<close> returns the old value and leaves the lock taken.\<close>

definition atomic_test_and_set :: "bool \<Rightarrow> bool \<times> bool" where
  "atomic_test_and_set locked = (locked, True)"

definition atomic_clear :: "bool \<Rightarrow> bool" where
  "atomic_clear locked = False"

definition spin_iteration :: "u64 \<Rightarrow> bool \<Rightarrow> spin_state \<times> bool" where
  "spin_iteration cnt locked =
     (let (held, locked') = atomic_test_and_set locked
      in if held then if cnt > 30000 then (Deadlocked, locked') else (Spinning (cnt + 1), locked')
         else (Holding, locked'))"

text \<open>
  The loop, in an environment that shows the lock as \<open>obs i\<close> at the \<open>i\<close>-th try: the number of
  the try that took the lock, or \<open>None\<close> where the loop calls \<open>panic\<close> (which does not return).
\<close>

function spin :: "(nat \<Rightarrow> bool) \<Rightarrow> nat \<Rightarrow> u64 \<Rightarrow> nat option" where
  "spin obs i cnt =
     (case fst (spin_iteration cnt (obs i)) of
        Holding \<Rightarrow> Some i
      | Spinning cnt' \<Rightarrow> spin obs (Suc i) cnt'
      | _ \<Rightarrow> None)"
  by pat_completeness auto
termination
proof (relation "measure (\<lambda>(obs, i, cnt). 30001 - unat cnt)")
  fix obs :: "nat \<Rightarrow> bool" and i cnt cnt'
  assume "fst (spin_iteration cnt (obs i)) = Spinning cnt'"
  then have "\<not> cnt > 30000" "cnt' = cnt + 1"
    by (auto simp: spin_iteration_def atomic_test_and_set_def split: if_splits)
  then have "unat cnt \<le> 30000" "unat cnt' = Suc (unat cnt)"
    by (simp_all add: word_less_nat_alt not_less unat_plus_small)
  then show "((obs, Suc i, cnt'), obs, i, cnt) \<in> measure (\<lambda>(obs, i, cnt). 30001 - unat cnt)" by simp
qed simp

declare spin.simps [simp del]

definition spinlock_acquire :: "(nat \<Rightarrow> bool) \<Rightarrow> u64 \<Rightarrow> nat option" where
  "spinlock_acquire obs cnt = spin obs 0 cnt"

definition spinlock_release :: "bool \<Rightarrow> bool" where
  "spinlock_release locked = atomic_clear locked"

section \<open>One thread\<close>

lemma spin_free: "\<not> obs i \<Longrightarrow> spin obs i cnt = Some i"
  by (subst spin.simps) (simp add: spin_iteration_def atomic_test_and_set_def)

lemma spin_held:
  "obs i \<Longrightarrow> spin obs i cnt = (if cnt > 30000 then None else spin obs (Suc i) (cnt + 1))"
  by (subst spin.simps) (simp add: spin_iteration_def atomic_test_and_set_def)

lemma spin_waits:
  assumes "\<forall>j. i \<le> j \<and> j < i + k \<longrightarrow> obs j" and "\<not> obs (i + k)" and "unat cnt + k \<le> 30001"
  shows "spin obs i cnt = Some (i + k)"
  using assms
proof (induction k arbitrary: i cnt)
  case 0
  then show ?case by (simp add: spin_free)
next
  case (Suc k)
  then have o: "obs i" and c: "unat cnt + 1 < 2 ^ 64" "\<not> cnt > 30000"
    by (auto simp: word_less_nat_alt)
  have "spin obs (Suc i) (cnt + 1) = Some (Suc i + k)"
    using Suc.prems c(1) by (intro Suc.IH) (auto simp: unat_plus_small)
  then show ?case using o c(2) by (simp add: spin_held)
qed

lemma spin_panics:
  assumes "\<forall>j. i \<le> j \<and> j \<le> i + (30001 - unat cnt) \<longrightarrow> obs j"
  shows "spin obs i cnt = None"
  using assms
proof (induction "30001 - unat cnt" arbitrary: i cnt)
  case 0
  then have "obs i" "cnt > 30000" by (auto simp: word_less_nat_alt)
  then show ?case by (simp add: spin_held)
next
  case (Suc k)
  then have c: "obs i" "\<not> cnt > 30000" "unat (cnt + 1) = Suc (unat cnt)"
    by (auto simp: word_less_nat_alt unat_plus_small)
  have "spin obs (Suc i) (cnt + 1) = None"
    using Suc.hyps(2) Suc.prems c(3) by (intro Suc.hyps(1)) auto
  then show ?case using c(1,2) by (simp add: spin_held)
qed

text \<open>
  \<open>spinlock_acquire\<close> always comes to an end: if the lock is seen free within the first
  30002 tries less the initial value of the counter it takes the lock at the first such try,
  otherwise it panics.  With a counter that starts above 30000 a single failed try is a panic.
\<close>

theorem spinlock_acquire_bounded:
  "spinlock_acquire obs cnt =
     (if \<exists>k \<le> 30001 - unat cnt. \<not> obs k then Some (LEAST k. \<not> obs k) else None)"
proof (cases "\<exists>k \<le> 30001 - unat cnt. \<not> obs k")
  case True
  then obtain k where k: "k \<le> 30001 - unat cnt" "\<not> obs k" by blast
  define l where "l = (LEAST k. \<not> obs k)"
  have l: "\<not> obs l" "l \<le> k" "\<forall>j < l. obs j"
    using LeastI[of "\<lambda>k. \<not> obs k" k, OF k(2)] Least_le[of "\<lambda>k. \<not> obs k" k, OF k(2)] not_less_Least
    unfolding l_def by blast+
  have "spin obs 0 cnt = Some l"
  proof (cases "unat cnt \<le> 30001")
    case True
    have "unat cnt + l \<le> 30001" using k(1) l(2) True by linarith
    then show ?thesis using spin_waits[of 0 l obs cnt] l(1,3) by simp
  next
    case False
    with k(1) l(2) have "l = 0" by simp
    with l(1) show ?thesis by (metis spin_free)
  qed
  with True show ?thesis by (simp add: spinlock_acquire_def l_def)
next
  case False
  then show ?thesis using spin_panics[of 0 cnt obs] by (auto simp: spinlock_acquire_def)
qed

section \<open>Many threads\<close>

record spin_world =
  lock_bit :: bool
  state_of :: "nat \<Rightarrow> spin_state"

text \<open>
  A thread that is outside starts to acquire the lock with an arbitrary counter; a thread that spins makes
  its next try; the holder releases the lock.
\<close>

inductive spin_step :: "spin_world \<Rightarrow> spin_world \<Rightarrow> bool" where
  enter: "state_of w t = Idle \<Longrightarrow> spin_step w (w\<lparr>state_of := (state_of w)(t := Spinning cnt)\<rparr>)"
| try_lock: "state_of w t = Spinning cnt \<Longrightarrow> spin_iteration cnt (lock_bit w) = (p, locked) \<Longrightarrow>
    spin_step w (w\<lparr>lock_bit := locked, state_of := (state_of w)(t := p)\<rparr>)"
| leave: "state_of w t = Holding \<Longrightarrow>
    spin_step w (w\<lparr>lock_bit := spinlock_release (lock_bit w), state_of := (state_of w)(t := Idle)\<rparr>)"

definition spin_init :: spin_world where
  "spin_init = \<lparr>lock_bit = False, state_of = (\<lambda>_. Idle)\<rparr>"

definition lock_inv :: "spin_world \<Rightarrow> bool" where
  "lock_inv w \<longleftrightarrow> (if lock_bit w then \<exists>t. state_of w t = Holding \<and> (\<forall>u. state_of w u = Holding \<longrightarrow> u = t)
     else \<forall>t. state_of w t \<noteq> Holding)"

lemma lock_inv_other:
  assumes "lock_inv w" and "state_of w t \<noteq> Holding" and "p \<noteq> Holding"
  shows "lock_inv (w\<lparr>state_of := (state_of w)(t := p)\<rparr>)"
proof (cases "lock_bit w")
  case True
  then obtain h where "state_of w h = Holding" "\<forall>u. state_of w u = Holding \<longrightarrow> u = h"
    using assms(1) by (auto simp: lock_inv_def)
  with True assms(2,3) show ?thesis by (auto simp: lock_inv_def intro!: exI[of _ h])
qed (use assms in \<open>auto simp: lock_inv_def\<close>)

lemma lock_inv_take:
  assumes "lock_inv w" and "\<not> lock_bit w"
  shows "lock_inv (w\<lparr>lock_bit := True, state_of := (state_of w)(t := Holding)\<rparr>)"
  using assms by (auto simp: lock_inv_def intro!: exI[of _ t])

lemma lock_inv_release:
  assumes "lock_inv w" and "state_of w t = Holding"
  shows "lock_inv (w\<lparr>lock_bit := False, state_of := (state_of w)(t := Idle)\<rparr>)"
proof -
  have "\<forall>u. state_of w u = Holding \<longrightarrow> u = t"
    using assms unfolding lock_inv_def by (cases "lock_bit w") auto
  then show ?thesis by (auto simp: lock_inv_def)
qed

lemma lock_inv_step: "spin_step w w' \<Longrightarrow> lock_inv w \<Longrightarrow> lock_inv w'"
proof (induction rule: spin_step.induct)
  case (enter w t cnt)
  then show ?case by (simp add: lock_inv_other)
next
  case (try_lock w t cnt p locked)
  show ?case
  proof (cases "lock_bit w")
    case True
    then have "locked" "p \<noteq> Holding"
      using try_lock(2) by (auto simp: spin_iteration_def atomic_test_and_set_def split: if_splits)
    moreover have "w\<lparr>lock_bit := True, state_of := (state_of w)(t := p)\<rparr> = w\<lparr>state_of := (state_of w)(t := p)\<rparr>"
      using True by simp
    ultimately show ?thesis using lock_inv_other[OF try_lock(3), of t p] try_lock(1) by simp
  next
    case False
    then have "locked" "p = Holding"
      using try_lock(2) by (auto simp: spin_iteration_def atomic_test_and_set_def)
    with lock_inv_take[OF try_lock(3) False] show ?thesis by simp
  qed
next
  case (leave w t)
  then show ?case by (simp add: lock_inv_release spinlock_release_def atomic_clear_def)
qed

lemma reachable_inv: "spin_step\<^sup>*\<^sup>* spin_init w \<Longrightarrow> lock_inv w"
proof (induction rule: rtranclp_induct)
  case base
  then show ?case by (simp add: spin_init_def lock_inv_def)
next
  case (step w w')
  then show ?case by (simp add: lock_inv_step)
qed

text \<open>
  C30. Mutual exclusion: however the threads interleave, never more than one of them holds the
  lock, and the lock is marked as taken exactly while one does.
\<close>

theorem spinlock_mutual_exclusion:
  assumes "spin_step\<^sup>*\<^sup>* spin_init w" and "state_of w t = Holding" and "state_of w u = Holding"
  shows "t = u \<and> lock_bit w"
proof -
  from assms(1) have "lock_inv w" by (rule reachable_inv)
  with assms(2,3) show ?thesis unfolding lock_inv_def by (cases "lock_bit w") auto
qed

theorem spinlock_mutual_exclusion_witness:
  "\<exists>w. spin_step\<^sup>*\<^sup>* spin_init w \<and> state_of w 3 = Holding \<and> lock_bit w"
proof -
  define w1 where "w1 = spin_init\<lparr>state_of := (state_of spin_init)(3 := Spinning 0)\<rparr>"
  define w2 where "w2 = w1\<lparr>lock_bit := True, state_of := (state_of w1)(3 := Holding)\<rparr>"
  have "spin_step spin_init w1" unfolding w1_def by (rule enter) (simp add: spin_init_def)
  moreover have "spin_step w1 w2" unfolding w2_def
    by (rule try_lock[where cnt = 0]) (simp_all add: w1_def spin_init_def spin_iteration_def atomic_test_and_set_def)
  ultimately have "spin_step\<^sup>*\<^sup>* spin_init w2" by (meson converse_rtranclp_into_rtranclp rtranclp.rtrancl_refl)
  moreover have "state_of w2 3 = Holding" by (simp add: w2_def)
  ultimately show ?thesis using spinlock_mutual_exclusion[of w2 3 3] by blast
qed

end
