(* ===== verification/Console.thy ===== *)
theory Console
  imports Serio Spinlock Npf
begin

text \<open>
  The console: the terminal \<^verbatim>\<open>kernel/src/dev/tty.c\<close> (less its font), the framebuffer
  \<^verbatim>\<open>kernel/src/dev/fb.c\<close>, the logger \<^verbatim>\<open>kernel/src/sys/log.c\<close> and the panic screen
  \<^verbatim>\<open>kernel/src/sys/panic.c\<close>.  The terminal emulator flanterm is a git submodule: a call of it is
  an event of the trace, and its initialisation an argument of \<open>tty_enable\<close>.

  The operations run on one processor and are not preempted, as in the boot sequence, which
  unmasks the timer interrupt at its very end; so a lock that is seen taken stays taken.
\<close>

section \<open>State and outcomes\<close>

record framebuffer =
  fb_address :: ptr
  fb_width :: u64
  fb_height :: u64
  fb_pitch :: u64
  fb_bpp :: u16
  fb_memory_model :: u8
  fb_red_mask_size :: u8
  fb_red_mask_shift :: u8
  fb_green_mask_size :: u8
  fb_green_mask_shift :: u8
  fb_blue_mask_size :: u8
  fb_blue_mask_shift :: u8

definition load16 :: "mem \<Rightarrow> ptr \<Rightarrow> u16" where "load16 m a = of_nat (load m a 2)"

definition read_framebuffer :: "mem \<Rightarrow> ptr \<Rightarrow> framebuffer" where
  "read_framebuffer m f =
     \<lparr>fb_address = load64 m f, fb_width = load64 m (f + 8), fb_height = load64 m (f + 16),
      fb_pitch = load64 m (f + 24), fb_bpp = load16 m (f + 32), fb_memory_model = m (f + 34),
      fb_red_mask_size = m (f + 35), fb_red_mask_shift = m (f + 36), fb_green_mask_size = m (f + 37),
      fb_green_mask_shift = m (f + 38), fb_blue_mask_size = m (f + 39), fb_blue_mask_shift = m (f + 40)\<rparr>"

text \<open>
  The fields of flanterm's context that \<open>tty_set_margin\<close> reads and writes, of type \<open>size_t\<close>: the size of the
  screen and of a character in pixels, the size of the text area in characters, and its place on the screen.
\<close>

record term_geometry =
  width :: u64
  height :: u64
  glyph_width :: u64
  glyph_height :: u64
  cols :: u64
  rows :: u64
  offset_x :: u64
  offset_y :: u64

text \<open>
  \<open>stack_buf\<close> is where the local buffers \<open>buf[2048]\<close> of the printing functions lie (their calls do
  not overlap in time), \<open>stack_cnt\<close> what the uninitialised counter of a spin loop holds, \<open>lit\<close> the
  address of a string literal.
\<close>

record console = machine +
  framebuf :: ptr
  ftctx :: ptr
  tty_enabled :: bool
  tty_lock :: bool
  tty_fg :: u32
  tty_bg :: u32
  logger_lock :: bool
  stack_buf :: ptr
  stack_cnt :: u64
  lit :: "string \<Rightarrow> ptr"
  geometry :: term_geometry

text \<open>
  How a call ends: it returns, it calls \<open>panic\<close> with a cause, or it has no further behaviour to
  speak of (it never returns, or is undefined).
\<close>

datatype 'a outcome = Done 'a | Panicked int 'a | Stuck

primrec and_then :: "'a outcome \<Rightarrow> ('a \<Rightarrow> 'a outcome) \<Rightarrow> 'a outcome" where
  "and_then (Done c) f = f c"
| "and_then (Panicked cause c) f = Panicked cause c"
| "and_then Stuck f = Stuck"

definition returning :: "'a option \<Rightarrow> 'a outcome" where
  "returning r = (case r of None \<Rightarrow> Stuck | Some c \<Rightarrow> Done c)"

definition DEADLOCKED_KERNEL_COMPONENT :: int where "DEADLOCKED_KERNEL_COMPONENT = 2"
definition KMODE_CPU_EXCEPTION :: int where "KMODE_CPU_EXCEPTION = 1"
definition UNKNOWN :: int where "UNKNOWN = 0"
definition MAX_CAUSE :: int where "MAX_CAUSE = 2"

section \<open>The terminal\<close>

definition tty_acquire :: "'a console_scheme \<Rightarrow> 'a console_scheme outcome" where
  "tty_acquire c =
     (case spinlock_acquire (\<lambda>_. tty_lock c) (stack_cnt c) of
        None \<Rightarrow> Panicked DEADLOCKED_KERNEL_COMPONENT c
      | Some _ \<Rightarrow> Done (c\<lparr>tty_lock := True\<rparr>))"

definition tty_release :: "'a console_scheme \<Rightarrow> 'a console_scheme" where
  "tty_release c = c\<lparr>tty_lock := spinlock_release (tty_lock c)\<rparr>"

definition fb_get :: "'a console_scheme \<Rightarrow> ptr" where
  "fb_get c = framebuf c"

text \<open>A call of the emulator through \<open>ftctx\<close>, which must not be NULL.\<close>

definition term_call :: "event \<Rightarrow> 'a console_scheme \<Rightarrow> 'a console_scheme outcome" where
  "term_call e c = (if ftctx c = NULL then Stuck else Done (emit e c))"

definition tty_enable :: "(framebuffer \<Rightarrow> ptr) \<Rightarrow> 'a console_scheme \<Rightarrow> 'a console_scheme outcome" where
  "tty_enable flanterm_fb_init c =
     and_then (tty_acquire c) (\<lambda>c.
       if tty_enabled c then Done c
       else let c1 = (if ftctx c = NULL
              then (emit (Term_init (fb_get c)) c)\<lparr>ftctx := flanterm_fb_init (read_framebuffer (mem c) (fb_get c))\<rparr>
              else c)
            in and_then (term_call Term_clear c1) (\<lambda>c2. Done (tty_release (c2\<lparr>tty_enabled := True\<rparr>))))"

definition tty_clear :: "'a console_scheme \<Rightarrow> 'a console_scheme outcome" where
  "tty_clear c =
     and_then (tty_acquire c) (\<lambda>c. and_then (term_call Term_clear c) (\<lambda>c. Done (tty_release c)))"

text \<open>
  The product is computed in \<open>int\<close>, the rest in \<open>size_t\<close>; dividing by the size of a character is undefined when that
  is 0.
\<close>

definition tty_set_margin :: "int \<Rightarrow> 'a console_scheme \<Rightarrow> 'a console_scheme outcome" where
  "tty_set_margin margin c =
     and_then (tty_acquire c) (\<lambda>c.
       let g = geometry c; w = width g - of_int (margin * 2); h = height g - of_int (margin * 2)
       in if ftctx c = NULL \<or> int32 (margin * 2) = None \<or> glyph_width g = 0 \<or> glyph_height g = 0 then Stuck
          else Done (tty_release (c\<lparr>geometry := g\<lparr>cols := w div glyph_width g, rows := h div glyph_height g,
                 offset_x := of_int margin + (w mod glyph_width g) div 2,
                 offset_y := of_int margin + (h mod glyph_height g) div 2\<rparr>\<rparr>)))"

definition tty_set_fg :: "u32 \<Rightarrow> 'a console_scheme \<Rightarrow> 'a console_scheme outcome" where
  "tty_set_fg fg c =
     and_then (tty_acquire c) (\<lambda>c.
       if \<not> tty_enabled c then Done c
       else and_then (term_call (Term_fg fg) (c\<lparr>tty_fg := fg\<rparr>)) (\<lambda>c. Done (tty_release c)))"

definition tty_set_bg :: "u32 \<Rightarrow> 'a console_scheme \<Rightarrow> 'a console_scheme outcome" where
  "tty_set_bg bg c =
     and_then (tty_acquire c) (\<lambda>c.
       if \<not> tty_enabled c then Done c
       else and_then (term_call (Term_bg bg) (c\<lparr>tty_bg := bg\<rparr>)) (\<lambda>c. Done (tty_release c)))"

definition tty_reset_col :: "'a console_scheme \<Rightarrow> 'a console_scheme outcome" where
  "tty_reset_col c =
     and_then (tty_acquire c) (\<lambda>c.
       if \<not> tty_enabled c then Done c
       else and_then (term_call Term_default_bg c) (\<lambda>c.
            and_then (term_call Term_default_fg c) (\<lambda>c. Done (tty_release c))))"

definition tty_disable :: "'a console_scheme \<Rightarrow> 'a console_scheme outcome" where
  "tty_disable c =
     and_then (tty_acquire c) (\<lambda>c.
       if \<not> tty_enabled c then Done c else Done (tty_release (c\<lparr>tty_enabled := False\<rparr>)))"

definition tty_print :: "ptr \<Rightarrow> u64 \<Rightarrow> 'a console_scheme \<Rightarrow> 'a console_scheme outcome" where
  "tty_print str n c =
     and_then (tty_acquire c) (\<lambda>c.
       if \<not> tty_enabled c then Done c
       else and_then (term_call (Term_write (bytes_at (mem c) str (unat n))) c) (\<lambda>c. Done (tty_release c)))"

text \<open>Formatting into the local buffer, and the length of what is there.\<close>

definition format_buf :: "string \<Rightarrow> va_list \<Rightarrow> 'a console_scheme \<Rightarrow> 'a console_scheme outcome" where
  "format_buf format args c =
     returning (map_option (\<lambda>(_, m). c\<lparr>mem := m\<rparr>) (npf_vsnprintf (stack_buf c) 2048 format args (mem c)))"

definition buf_len :: "'a console_scheme \<Rightarrow> nat option" where
  "buf_len c = strlen (stack_buf c) (mem c)"

definition tty_printf :: "string \<Rightarrow> va_list \<Rightarrow> 'a console_scheme \<Rightarrow> 'a console_scheme outcome" where
  "tty_printf format args c =
     (if \<not> tty_enabled c then Done c
      else and_then (format_buf format args c) (\<lambda>c.
           case buf_len c of None \<Rightarrow> Stuck | Some k \<Rightarrow> tty_print (stack_buf c) (of_nat k) c))"

definition serio_printf :: "string \<Rightarrow> va_list \<Rightarrow> 'a console_scheme \<Rightarrow> 'a console_scheme outcome" where
  "serio_printf format args c =
     and_then (format_buf format args c) (\<lambda>c.
       case buf_len c of None \<Rightarrow> Stuck | Some k \<Rightarrow> returning (serio_print (stack_buf c) (int k) c))"

section \<open>The logger\<close>

fun fg_lt :: "logtype \<Rightarrow> u32" where
  "fg_lt Lg_warn = 0xf7d514"
| "fg_lt Lg_info = 0x147ef7"
| "fg_lt Lg_panic_lg = 0x750202"
| "fg_lt Lg_err = 0xd10000"
| "fg_lt Lg_progress = 0x027512"

fun nm_lt :: "logtype \<Rightarrow> string" where
  "nm_lt Lg_warn = ''warn''"
| "nm_lt Lg_info = ''info''"
| "nm_lt Lg_panic_lg = ''panic''"
| "nm_lt Lg_err = ''err''"
| "nm_lt Lg_progress = ''progress''"

definition logger_acquire :: "'a console_scheme \<Rightarrow> 'a console_scheme outcome" where
  "logger_acquire c =
     (case spinlock_acquire (\<lambda>_. logger_lock c) (stack_cnt c) of
        None \<Rightarrow> Panicked DEADLOCKED_KERNEL_COMPONENT c
      | Some _ \<Rightarrow> Done (c\<lparr>logger_lock := True\<rparr>))"

text \<open>\<open>logln\<close> between taking the lock and giving it back.\<close>

definition log_body :: "logtype \<Rightarrow> string \<Rightarrow> string \<Rightarrow> va_list \<Rightarrow> 'a console_scheme \<Rightarrow> 'a console_scheme outcome" where
  "log_body lt cmp msg args c =
     and_then (tty_printf ''%s - '' [lit c cmp] c) (\<lambda>c.
     and_then (tty_set_fg (fg_lt lt) c) (\<lambda>c.
     and_then (tty_printf (nm_lt lt) [] c) (\<lambda>c.
     and_then (tty_reset_col c) (\<lambda>c.
     and_then (tty_print (lit c '': '') 2 c) (\<lambda>c.
     and_then (serio_printf ''%s - %s: '' [lit c cmp, lit c (nm_lt lt)] c) (\<lambda>c.
     and_then (format_buf msg args c) (\<lambda>c.
     case buf_len c of
       None \<Rightarrow> Stuck
     | Some i \<Rightarrow> and_then (tty_print (stack_buf c) (of_nat i) c) (\<lambda>c.
         returning (serio_print (stack_buf c) (int i) c)))))))))"

definition log_line :: "logtype \<Rightarrow> string \<Rightarrow> string \<Rightarrow> va_list \<Rightarrow> 'a console_scheme \<Rightarrow> 'a console_scheme outcome" where
  "log_line lt cmp msg args c =
     and_then (logger_acquire c) (\<lambda>c.
     and_then (log_body lt cmp msg args c) (\<lambda>c.
       Done (c\<lparr>logger_lock := spinlock_release (logger_lock c)\<rparr>)))"

section \<open>The panic screen\<close>

definition ex_msgs :: "string list" where
  "ex_msgs = [''UNKNOWN'', ''KMODE_CPU_EXCEPTION'', ''DEADLOCKED_KERNEL_COMPONENT'']"

definition explainations :: "string list" where
  "explainations =
     [''We can't give any info: this panic cause is unknown to us.'',
      ''Your CPU thrown an exception interrupt due to it being in a bad state.'',
      ''A component of the operating system kernel entered a deadlocked state.'']"

definition panic_banner :: "string list" where
  "panic_banner =
     [''  ,-.,--.   ,--.,-.   \<newline>'',
      '' / .' '' @ [CHR 0x5C] @ ''  `.'  / '. '' @ [CHR 0x5C] @ ''  \<newline>'',
      ''|  |   .'    '' @ [CHR 0x5C] @ ''   |  | \<newline>'',
      ''|  |  /  .'.  '' @ [CHR 0x5C] @ ''  |  | \<newline>'',
      '' '' @ [CHR 0x5C] @ '' '.'--'' @ [CHR 0x27] @ ''   '' @ [CHR 0x27] @ ''--'.' /  \<newline>'',
      ''  `-'           `-'   \<newline>'',
      replicate 75 CHR ''!'' @ ''\<newline>\<newline>'',
      ''A problem has been detected and your Soaplin-based OS has been shut down\<newline>'',
      ''to prevent damage to your computer.\<newline>\<newline>'']"

definition panic_advice :: "string list" where
  "panic_advice =
     [''If this is the first time you've seen this Stop error screen,\<newline>'',
      ''restart your computer. if this screen appears again, follow\<newline>'',
      ''these steps:\<newline>\<newline>'',
      ''Check to make sure any new hardware or software is properly installed.\<newline>'',
      ''If this is a new installation, ask your hardware or software manufacturer\<newline>'',
      ''for any kernel patches you might need.\<newline>\<newline>'',
      ''If problems continue, you might try debugging Soaplin\<newline>'',
      ''using a tool such as GNU Debug Bridge (gdb), or LLVM Debug Bridge (lldb).\<newline>'',
      ''Technical information: \<newline>'']"

fun tty_lines :: "string list \<Rightarrow> 'a console_scheme \<Rightarrow> 'a console_scheme outcome" where
  "tty_lines [] c = Done c"
| "tty_lines (l # ls) c = and_then (tty_printf l [] c) (\<lambda>c. tty_lines ls c)"

definition panic_arg :: "ptr \<Rightarrow> 'a console_scheme \<Rightarrow> u32" where
  "panic_arg args c = (if args \<noteq> NULL then load32 (mem c) args else - 1)"

text \<open>
  What \<open>panic\<close> prints before it halts.  The first line takes \<open>ex_msgs[cause]\<close> as it is; a cause
  out of range is replaced by 0 only further down.
\<close>

definition panic_screen :: "int \<Rightarrow> ptr \<Rightarrow> 'a console_scheme \<Rightarrow> 'a console_scheme outcome" where
  "panic_screen cause args c =
     (if cause < 0 \<or> int (length ex_msgs) \<le> cause then Stuck
      else let i = nat (if cause > MAX_CAUSE then 0 else cause)
           in and_then (log_line Lg_info ''kernel'' ''panic! %s\<newline>'' [lit c (ex_msgs ! nat cause)] c) (\<lambda>c.
              and_then (tty_clear c) (\<lambda>c.
              and_then (tty_lines panic_banner c) (\<lambda>c.
              and_then (tty_printf ''%s\<newline>\<newline>'' [lit c (explainations ! i)] c) (\<lambda>c.
              and_then (tty_lines panic_advice c) (\<lambda>c.
              and_then (tty_printf ''*** STOP: %s (Arg1: %d)\<newline>\<newline>'' [lit c (ex_msgs ! i), ucast (panic_arg args c)] c) (\<lambda>c.
                tty_printf (replicate 75 CHR ''!'' @ ''\<newline>\<newline>'') [] c)))))))"

text \<open>
  \<open>panic\<close> ends in a loop that halts the processor: \<open>Some c\<close> is the state in which it gets there.
  Where the screen itself panics, the call is nested in the first one.
\<close>

partial_function (option) panic :: "int \<Rightarrow> ptr \<Rightarrow> 'a console_scheme \<Rightarrow> 'a console_scheme option" where
  "panic cause args c =
     (case panic_screen cause args c of
        Done c1 \<Rightarrow> Some (emit Hlt (emit Cli c1))
      | Panicked cause' c1 \<Rightarrow> panic cause' NULL c1
      | Stuck \<Rightarrow> None)"

end
