(* ===== verification/NpfBuffer.thy ===== *)
theory NpfBuffer
  imports NpfText
begin

text \<open>
  \<open>npf_vsnprintf\<close>: the two sinks it prints to, what the caller's buffer holds afterwards, and that
  what is printed can be read back.
\<close>

section \<open>The sinks\<close>

interpretation buf: npf_sink npf_bufputc "\<lambda>s. out_dst s = d \<and> out_len s = l" "{x. in_range d (unat l) x}"
  for d l
  by unfold_locales (auto simp: npf_bufputc_def in_range_def word_less_nat_alt)

interpretation nop: npf_sink npf_bufputc_nop "\<lambda>_. True" "{}"
  by unfold_locales (simp_all add: npf_bufputc_nop_def)

text \<open>The buffer takes what fits.\<close>

lemma bufputc_fold:
  assumes "out_cur s \<le> out_len s"
    and "s' = fold (npf_putc_cnt npf_bufputc) t s"
    and "k = min (length t) (unat (out_len s - out_cur s))"
  shows "out_dst s' = out_dst s \<and> out_len s' = out_len s \<and> out_cur s' = out_cur s + of_nat k
    \<and> (\<forall>x. out_mem s' x = (if in_range (out_dst s + out_cur s) k x
          then t ! unat (x - (out_dst s + out_cur s)) else out_mem s x))"
  using assms
proof (induction t arbitrary: s k)
  case Nil
  then show ?case by (simp add: in_range_def)
next
  case (Cons c t)
  show ?case
  proof (cases "out_cur s < out_len s")
    case False
    with Cons.prems(1) have "out_cur s = out_len s" by simp
    then have step: "npf_putc_cnt npf_bufputc c s = s\<lparr>out_n := out_n s + 1\<rparr>"
      by (simp add: npf_putc_cnt_def npf_bufputc_def)
    have "k = 0" using Cons.prems(3) \<open>out_cur s = out_len s\<close> by simp
    show ?thesis
      using Cons.IH[of "s\<lparr>out_n := out_n s + 1\<rparr>" 0] Cons.prems \<open>out_cur s = out_len s\<close>
      by (simp add: step \<open>k = 0\<close> in_range_def)
  next
    case True
    let ?s1 = "npf_putc_cnt npf_bufputc c s" and ?a = "out_dst s + out_cur s"
    have s1: "out_dst ?s1 = out_dst s" "out_len ?s1 = out_len s" "out_cur ?s1 = out_cur s + 1"
      "out_mem ?s1 = (out_mem s)(?a := c)"
      using True by (simp_all add: npf_putc_cnt_def npf_bufputc_def)
    define k' where "k' = min (length t) (unat (out_len s - (out_cur s + 1)))"
    have le: "out_cur s + 1 \<le> out_len s" using True by (simp add: inc_le)
    have "unat (out_len s - out_cur s) = Suc (unat (out_len s - (out_cur s + 1)))"
      using True unat_inc[OF True] unat_minus_le[OF le] unat_minus_le[OF less_imp_le[OF True]]
      by (simp add: word_less_nat_alt)
    then have k: "k = Suc k'" by (simp add: Cons.prems(3) k'_def)
    then have k64: "Suc k' \<le> 2 ^ 64" using Cons.prems(3) unat_lt64[of "out_len s - out_cur s"] by simp
    have ih: "out_dst s' = out_dst s" "out_len s' = out_len s" "out_cur s' = out_cur s + 1 + of_nat k'"
      "out_mem s' x = (if in_range (?a + 1) k' x then t ! unat (x - (?a + 1)) else out_mem ?s1 x)" for x
      using Cons.IH[of ?s1 k'] le Cons.prems(2) by (simp_all add: s1 k'_def add.assoc)
    have "out_mem s' x = (if in_range ?a k x then (c # t) ! unat (x - ?a) else out_mem s x)" for x
    proof (cases "x = ?a")
      case True
      then have "\<not> in_range (?a + 1) k' x" using k64 unat_diff_wrap[of 0 1] by (simp add: in_range_def)
      with True show ?thesis by (simp add: ih(4) s1(4) k in_range_def)
    next
      case False
      then have "x - ?a \<noteq> 0" by simp
      then have "unat (x - ?a) = Suc (unat (x - (?a + 1)))"
        by (metis Suc_pred' diff_diff_add unat_gt_0 unat_minus_one)
      with False show ?thesis by (simp add: ih(4) s1(4) k in_range_Suc[OF k64])
    qed
    then show ?thesis using ih(1-3) by (simp add: k)
  qed
qed

lemma nop_fold:
  "out_mem (fold (npf_putc_cnt npf_bufputc_nop) t s) = out_mem s"
  using nop.put_all_inv[of t s] by (simp add: fun_eq_iff)

section \<open>What the caller's buffer holds\<close>

text \<open>The text of a format, read up to its terminating NUL.\<close>

definition printf :: "(ptr \<Rightarrow> u8 option) \<Rightarrow> string \<Rightarrow> va_list \<Rightarrow> u8 list option" where
  "printf rd format args = printf_text rd (takeWhile (\<lambda>c. c \<noteq> CHR 0x00) format) args"

definition buffer_bytes :: "ptr \<Rightarrow> u64 \<Rightarrow> ptr set" where
  "buffer_bytes buffer bufsz = (if buffer = NULL then {} else {x. in_range buffer (unat bufsz) x})"

lemma vsnprintf_effect:
  assumes "buffer \<noteq> NULL" and "bufsz \<noteq> 0"
    and "printf (readable (buffer_bytes buffer bufsz) m) format args = Some t" and "length t < 2 ^ 31"
    and "k = min (length t) (unat bufsz - 1)"
  shows "\<exists>m'. npf_vsnprintf buffer bufsz format args m = Some (int (length t), m')
    \<and> bytes_at m' buffer (Suc k) = take k t @ [0] \<and> same_outside buffer (unat bufsz) m m'"
proof -
  let ?init = "\<lparr>out_mem = m, out_dst = buffer, out_len = bufsz, out_cur = 0, out_n = 0\<rparr>"
  let ?s = "fold (npf_putc_cnt npf_bufputc) t ?init"
  have run: "npf_vpprintf npf_bufputc format args ?init = Some ?s" and n: "out_n ?s = int (length t)"
    using buf.vpprintf_prints[of ?init buffer bufsz format args t] assms(3,4)
    by (simp_all add: printf_def buffer_bytes_def assms(1))
  define j where "j = min (length t) (unat bufsz)"
  have e: "out_dst ?s = buffer" "out_len ?s = bufsz" "out_cur ?s = of_nat j"
    "out_mem ?s x = (if in_range buffer j x then t ! unat (x - buffer) else m x)" for x
    using bufputc_fold[of ?init ?s t j] by (simp_all add: j_def)
  have sz: "0 < unat bufsz" "unat bufsz < 2 ^ 64" using assms(2) unat_lt64 by (simp_all add: unat_gt_0)
  have j64: "unat (of_nat j :: u64) = j" by (rule unat_of_nat_small) (use sz(2) in \<open>simp add: j_def\<close>)
  let ?m1 = "out_mem (npf_bufputc 0 ?s)"
  have m1: "?m1 x = (if j < unat bufsz \<and> x = buffer + of_nat j then 0 else out_mem ?s x)" for x
    using e by (simp add: npf_bufputc_def word_less_nat_alt j64)
  define m' where "m' = ?m1(buffer + (bufsz - 1) := 0)"
  have v: "npf_vsnprintf buffer bufsz format args m = Some (int (length t), m')"
    using assms(1,2) by (simp add: npf_vsnprintf_def run n Let_def m'_def)
  have one: "unat (bufsz - 1) = unat bufsz - 1" using sz(1) by (simp add: unat_minus_one unat_gt_0)
  have at: "buffer + of_nat i = buffer + (bufsz - 1) \<longleftrightarrow> i = unat bufsz - 1" if "i < 2 ^ 64" for i
    using unat_of_nat_small[OF that] one by (metis add_left_cancel word_unat_eq_iff)
  have k: "Suc k \<le> 2 ^ 64" "k < unat bufsz" "k \<le> length t" using sz assms(5) by auto
  have "m' (buffer + of_nat i) = (take k t @ [0]) ! i" if "i < Suc k" for i
  proof -
    have i64: "i < 2 ^ 64" "unat (of_nat i :: u64) = i"
      using that k unat_of_nat_small[of i] sz by auto
    show ?thesis
    proof (cases "i = k")
      case True
      show ?thesis
      proof (cases "k = unat bufsz - 1")
        case True
        with \<open>i = k\<close> at[OF i64(1)] k(3) show ?thesis by (simp add: nth_append m'_def)
      next
        case False
        then have "k = length t" "k = j" "j < unat bufsz" using assms(5) sz(1) by (auto simp: j_def)
        with \<open>i = k\<close> show ?thesis by (simp add: m1 nth_append m'_def)
      qed
    next
      case False
      then have "i < k" using that by simp
      then have "i < j" "i \<noteq> unat bufsz - 1" "i < length t" using assms(5) by (auto simp: j_def)
      moreover have "buffer + of_nat i \<noteq> buffer + of_nat j"
        using i64(2) j64 \<open>i < j\<close> by (metis add_left_cancel less_irrefl)
      ultimately show ?thesis
        using \<open>i < k\<close> at[OF i64(1)] i64(2) by (simp add: m1 e(4) in_range_def nth_append m'_def)
    qed
  qed
  then have "bytes_at m' buffer (Suc k) = take k t @ [0]"
    using k(3) by (intro nth_equalityI) (simp_all add: bytes_at_def del: upt_Suc)
  moreover have "same_outside buffer (unat bufsz) m m'"
    unfolding same_outside_def
  proof (intro allI impI)
    fix x assume x: "\<not> in_range buffer (unat bufsz) x"
    then have "\<not> in_range buffer j x" by (auto simp: in_range_def j_def)
    moreover have "x \<noteq> buffer + (bufsz - 1)" using x one sz(1) by (auto simp: in_range_def)
    moreover have "\<not> (j < unat bufsz \<and> x = buffer + of_nat j)" using x j64 by (auto simp: in_range_def)
    ultimately show "m' x = m x" unfolding m'_def fun_upd_def m1 e(4) by presburger
  qed
  ultimately show ?thesis using v by blast
qed

lemma vsnprintf_dry:
  assumes "buffer = NULL \<or> bufsz = 0"
    and "printf (readable (buffer_bytes buffer bufsz) m) format args = Some t" and "length t < 2 ^ 31"
  shows "npf_vsnprintf buffer bufsz format args m = Some (int (length t), m)"
proof -
  let ?init = "\<lparr>out_mem = m, out_dst = buffer, out_len = bufsz, out_cur = 0, out_n = 0\<rparr>"
  have B: "buffer_bytes buffer bufsz = {}" using assms(1) by (auto simp: buffer_bytes_def in_range_def)
  show ?thesis
  proof (cases "buffer = NULL")
    case True
    show ?thesis
      using nop.vpprintf_prints[of ?init format args t] assms(2,3) nop.put_all_inv[of t ?init]
      unfolding B printf_def
      by (simp add: True npf_vsnprintf_def Let_def nop_fold npf_bufputc_nop_def)
  next
    case False
    then have z: "bufsz = 0" using assms(1) by simp
    let ?final = "fold (npf_putc_cnt npf_bufputc) t ?init"
    have "npf_vpprintf npf_bufputc format args ?init = Some ?final" "out_n ?final = int (length t)"
      using buf.vpprintf_prints[of ?init buffer bufsz format args t] assms(2,3)
      by (simp_all add: printf_def buffer_bytes_def False)
    moreover have "out_mem ?final = m" "out_len ?final = 0" "out_cur ?final = 0"
      using bufputc_fold[of ?init ?final t 0] z by (simp_all add: in_range_def fun_eq_iff)
    ultimately show ?thesis by (simp add: npf_vsnprintf_def z False Let_def npf_bufputc_def)
  qed
qed

text \<open>A text that fits is in the buffer as a string.\<close>

lemma snprintf_whole:
  assumes "buffer \<noteq> NULL" and "printf (readable (buffer_bytes buffer bufsz) m) format args = Some t"
    and "length t < unat bufsz" and "length t < 2 ^ 31" and "0 \<notin> set t"
  shows "\<exists>m'. npf_snprintf buffer bufsz format args m = Some (int (length t), m') \<and> cstr_at m' buffer t"
proof -
  have "bufsz \<noteq> 0" "min (length t) (unat bufsz - 1) = length t" using assms(3) by auto
  from vsnprintf_effect[OF assms(1) this(1) assms(2,4) refl, unfolded this(2)] assms(5) show ?thesis
    by (auto simp: cstr_at_def npf_snprintf_def)
qed

text \<open>
  C5. \<open>npf_vsnprintf\<close> prints the text its format stands for: it returns the length of the whole text,
  the caller's buffer holds as much of the text as fits with a terminating NUL behind it, and no byte outside of
  the buffer changes; with no buffer it only counts.  The texts of strings must lie outside of the
  buffer, and the text must be shorter than the largest \<open>int\<close>.
\<close>

theorem npf_vsnprintf_prints:
  assumes "printf (readable (buffer_bytes buffer bufsz) m) format args = Some t" and "length t < 2 ^ 31"
  shows "\<exists>m'. npf_vsnprintf buffer bufsz format args m = Some (int (length t), m')
    \<and> (if buffer = NULL \<or> bufsz = 0 then m' = m
       else let k = min (length t) (unat bufsz - 1)
            in bytes_at m' buffer (Suc k) = take k t @ [0] \<and> same_outside buffer (unat bufsz) m m')"
proof (cases "buffer = NULL \<or> bufsz = 0")
  case True
  then show ?thesis using vsnprintf_dry[OF True assms] by simp
next
  case False
  then show ?thesis using vsnprintf_effect[OF _ _ assms refl] by (simp add: Let_def)
qed

definition hi_mem :: mem where
  "hi_mem x = (if x = 0x2000 then 104 else if x = 0x2001 then 105 else 0)"

theorem npf_vsnprintf_prints_witness:
  "\<exists>m'. npf_vsnprintf 0x1000 3 ''%s!'' [0x2000] hi_mem = Some (3, m') \<and> bytes_at m' 0x1000 (Suc 2) = [104, 105, 0]"
proof -
  let ?rd = "readable (buffer_bytes 0x1000 3) hi_mem"
  have p: "npf_parse_format_spec ''%s!''
      = Npf_spec (npf_spec_init\<lparr>conv_spec := NPF_FMT_SPEC_CONV_STRING\<rparr>) ''!''" by code_simp
  have "c_string ?rd None 0x2000 = Some [104, 105]"
    by (simp add: c_string_Cons c_string_Nil readable_def buffer_bytes_def in_range_def hi_mem_def)
  then have "printf ?rd ''%s!'' [0x2000] = Some [104, 105, 33]"
    by (simp add: printf_def p field_text_eq)
       (simp add: star_args_def conv_text_def str_limit_def npf_spec_init_def npf_pad_c_def layout_def field_body_def)
  from npf_vsnprintf_prints[OF this] show ?thesis by (auto simp: min_def)
qed

section \<open>Reading back\<close>

definition read_decimal :: "u8 list \<Rightarrow> int" where
  "read_decimal t =
     (let value = (\<lambda>ds. int (digits_value 10 (map (\<lambda>c. unat c - 48) ds)))
      in if t \<noteq> [] \<and> hd t = of_char CHR ''-'' then - value (tl t) else value t)"

lemma decimal_digit: "d < 10 \<Longrightarrow> unat (digit_char ca (of_nat d)) = 48 + d"
proof -
  assume d: "d < 10"
  then have "(of_nat d :: u64) < 10" by (simp add: word_less_nat_alt unat_of_nat)
  moreover have "ucast (of_nat d :: u64) = (of_nat d :: u8)" using d by (simp add: word_unat_eq_iff unsigned_ucast_eq unat_of_nat take_bit_eq_mod)
  moreover have "unat (48 + of_nat d :: u8) = 48 + d" using d by (simp add: unat_word_ariths unat_of_nat)
  ultimately show ?thesis by (simp add: digit_char_def)
qed

lemma numeral_reads_back: "digits_value 10 (map (\<lambda>c. unat c - 48) (numeral_text ca 10 k)) = k"
proof -
  have "map (\<lambda>c. unat c - 48) (numeral_text ca 10 k) = map (\<lambda>d. d) (digits 10 k)"
    unfolding numeral_text_def map_map
    by (rule map_cong[OF refl]) (use digits_below[of 10] in \<open>simp add: decimal_digit\<close>)
  then show ?thesis by (simp add: digits_value_digits)
qed

lemma numeral_nonempty [simp]: "numeral_text ca b k \<noteq> []"
  by (simp add: numeral_text_def)

lemma numeral_head: "hd (numeral_text ca 10 k) \<noteq> of_char CHR ''-''"
proof
  assume "hd (numeral_text ca 10 k) = of_char CHR ''-''"
  then have "unat (digit_char ca (of_nat (hd (digits 10 k)))) = 45"
    by (simp add: numeral_text_def hd_map)
  moreover have "hd (digits 10 k) < 10" using digits_below[of 10 _ k] by simp
  ultimately show False by (simp add: decimal_digit)
qed

definition signed_decimal :: "int \<Rightarrow> u8 list" where
  "signed_decimal v = (if v < 0 then [of_char CHR ''-''] else []) @ numeral_text 32 10 (nat \<bar>v\<bar>)"

lemma signed_decimal_reads_back: "read_decimal (signed_decimal v) = v"
  using numeral_head[of 32 "nat \<bar>v\<bar>"]
  by (auto simp: read_decimal_def signed_decimal_def Let_def numeral_reads_back)

lemma parse_lld: "npf_parse_format_spec ''%lld'' =
  Npf_spec (npf_spec_init\<lparr>length_modifier := NPF_FMT_SPEC_LEN_MOD_LARGE_LONG_LONG,
    conv_spec := NPF_FMT_SPEC_CONV_SIGNED_INT\<rparr>) []"
  by code_simp

lemma signed_text_lld:
  "signed_text (npf_spec_init\<lparr>length_modifier := NPF_FMT_SPEC_LEN_MOD_LARGE_LONG_LONG,
      conv_spec := NPF_FMT_SPEC_CONV_SIGNED_INT\<rparr>) x
    = (if sint x < 0 then [of_char CHR ''-''] else [], numeral_text 32 10 (nat \<bar>sint x\<bar>), sint x = 0)"
  by (simp add: signed_text_def Let_def npf_spec_init_def prints_nothing_def sign_text_def)

lemma printf_lld: "printf rd ''%lld'' [x] = Some (signed_decimal (sint x))"
proof -
  have "field_text rd (npf_spec_init\<lparr>length_modifier := NPF_FMT_SPEC_LEN_MOD_LARGE_LONG_LONG,
      conv_spec := NPF_FMT_SPEC_CONV_SIGNED_INT\<rparr>) [x] = Some (signed_decimal (sint x), [])"
    by (simp add: field_text_eq star_args_def conv_text_def signed_text_lld)
       (simp add: npf_spec_init_def npf_pad_c_def field_body_def layout_def signed_decimal_def)
  then show ?thesis by (simp add: printf_def parse_lld)
qed

lemma signed_decimal_length: "length (signed_decimal (sint x)) \<le> 23" for x :: u64
proof -
  have "nat \<bar>sint x\<bar> < 2 ^ 64" unfolding unat_abs[symmetric] by (rule unat_lt64)
  then have "length (numeral_text 32 10 (nat \<bar>sint x\<bar>)) \<le> 22" by (intro numeral_length_buffer) simp_all
  then show ?thesis unfolding signed_decimal_def by (cases "sint x < 0") simp_all
qed

lemma numeral_no_nul: "0 \<notin> set (numeral_text ca 10 k)"
proof
  assume "0 \<in> set (numeral_text ca 10 k)"
  then obtain d where "d \<in> set (digits 10 k)" "digit_char ca (of_nat d) = 0"
    by (auto simp: numeral_text_def)
  then show False using decimal_digit[of d ca] digits_below[of 10 d k] by simp
qed

text \<open>
  C22. Every 64-bit signed integer survives printing: \<open>npf_snprintf\<close> with the format \<open>%lld\<close> into
  a buffer of at least 24 bytes leaves a NUL-terminated string that reads back, as a decimal
  number, as the integer that was printed.
\<close>

theorem npf_decimal_reads_back:
  assumes "buffer \<noteq> NULL" and "24 \<le> bufsz"
  shows "\<exists>m' t. npf_snprintf buffer bufsz ''%lld'' [x] m = Some (int (length t), m')
    \<and> cstr_at m' buffer t \<and> read_decimal t = sint x"
proof -
  let ?t = "signed_decimal (sint x)"
  have "length ?t < unat bufsz"
    using signed_decimal_length[of x] assms(2) by (simp add: word_le_nat_alt)
  moreover have "length ?t < 2 ^ 31" using signed_decimal_length[of x] by simp
  moreover have "0 \<notin> set ?t" using numeral_no_nul[of 32] by (simp add: signed_decimal_def)
  ultimately show ?thesis
    using snprintf_whole[OF assms(1) printf_lld] signed_decimal_reads_back[of "sint x"] by metis
qed

theorem npf_decimal_reads_back_witness:
  "\<exists>m' t. npf_snprintf 0x1000 64 ''%lld'' [- 42] (\<lambda>_. 0) = Some (int (length t), m')
    \<and> cstr_at m' 0x1000 t \<and> read_decimal t = - 42"
  using npf_decimal_reads_back[of "0x1000" 64 "- 42" "\<lambda>_. 0"] by simp

section \<open>The conversion buffer\<close>

lemma utoa_length:
  assumes "npf_utoa_rev v base ca = Some cs" and "8 \<le> base"
  shows "length cs \<le> 22"
proof -
  have "2 \<le> base" "8 \<le> unat base" using assms(2) by (auto simp: word_le_nat_alt)
  then show ?thesis
    using assms(1) numeral_length_buffer[OF _ unat_lt64, of "unat base" ca v] by (auto simp: utoa_numeral)
qed

text \<open>
  C31. The conversion buffer of 23 characters is never overrun: whatever the specification and the
  argument, a conversion writes at most 23 characters to it, and an octal conversion with its leading zero
  takes them all.
\<close>

theorem npf_conversion_fits_buffer:
  assumes "npf_convert m fs args = Some (fs', cv, args')" and "payload cv = Cbuf cs"
  shows "length cs \<le> 23"
  using assms
proof (cases "conv_spec fs")
  case NPF_FMT_SPEC_CONV_SIGNED_INT
  with assms show ?thesis
    by (auto simp: npf_convert_def npf_signed_def Let_def dest!: utoa_length split: bind_splits if_splits)
next
  case NPF_FMT_SPEC_CONV_POINTER
  with assms show ?thesis
    by (auto simp: npf_convert_def npf_pointer_def cbuf_conversion_def dest!: utoa_length split: bind_splits)
next
  case NPF_FMT_SPEC_CONV_OCTAL
  with assms show ?thesis
    by (auto simp: npf_convert_def npf_unsigned_def npf_base_def Let_def dest!: utoa_length split: bind_splits if_splits)
next
  case NPF_FMT_SPEC_CONV_HEX_INT
  with assms show ?thesis
    by (auto simp: npf_convert_def npf_unsigned_def npf_base_def Let_def dest!: utoa_length split: bind_splits if_splits)
next
  case NPF_FMT_SPEC_CONV_UNSIGNED_INT
  with assms show ?thesis
    by (auto simp: npf_convert_def npf_unsigned_def npf_base_def Let_def dest!: utoa_length split: bind_splits if_splits)
next
  case NPF_FMT_SPEC_CONV_BINARY
  with assms show ?thesis
    by (auto simp: npf_convert_def npf_unsigned_def npf_base_def Let_def split: bind_splits if_splits)
qed (auto simp: npf_convert_def npf_string_def cbuf_conversion_def split: bind_splits)

definition octal_spec :: npf_format_spec where
  "octal_spec = npf_spec_init\<lparr>alt_form := True, conv_spec := NPF_FMT_SPEC_CONV_OCTAL,
     length_modifier := NPF_FMT_SPEC_LEN_MOD_LONG\<rparr>"

lemma octal_longest:
  "npf_convert (\<lambda>_. 0) octal_spec [- 1] = Some (octal_spec,
     \<lparr>payload = Cbuf (replicate 21 55 @ [49, 48]), cbuf_len = 23, sign_c = 0, need_0x = 0, zero = False\<rparr>, [])"
proof -
  have "digits 8 (2 ^ 64 - 1) = 1 # replicate 21 7"
    by (simp add: digits.simps) (simp add: numeral_eq_Suc)
  moreover have "unat (- 1 :: u64) = 2 ^ 64 - 1" using unat_diff_wrap[of 0 1] by simp
  ultimately have "npf_utoa_rev (- 1) 8 32 = Some (replicate 21 55 @ [49])"
    using utoa_numeral[of 8 "- 1" 32] by (simp add: numeral_text_def digit_char_def)
  then show ?thesis
    by (simp add: npf_convert_def npf_unsigned_def octal_spec_def npf_spec_init_def npf_base_def)
qed

theorem npf_conversion_fits_buffer_witness: "length (replicate 21 (55 :: u8) @ [49, 48]) \<le> 23"
  by (rule npf_conversion_fits_buffer[OF octal_longest]) simp

section \<open>A negative width\<close>

lemma digits_value_zeros: "digits_value b (ds @ replicate k 0) = digits_value b ds * b ^ k"
proof -
  have "foldl (\<lambda>a d. a * b + d) x (replicate k 0) = x * b ^ k" for x
    by (induction k arbitrary: x) simp_all
  then show ?thesis by (simp add: digits_value_def)
qed

lemma parse_star: "npf_parse_format_spec ''%0*d'' =
  Npf_spec (npf_spec_init\<lparr>leading_zero_pad := True, field_width_opt := NPF_FMT_SPEC_OPT_STAR,
    conv_spec := NPF_FMT_SPEC_CONV_SIGNED_INT\<rparr>) []"
  by code_simp

lemma printf_star:
  assumes "sint (ucast w :: u32) = - int k" and "0 < k" and "k < 2 ^ 31" and "sint (ucast x :: u32) = int v"
  shows "printf rd ''%0*d'' [w, x]
    = Some (numeral_text 32 10 v @ replicate (k - length (numeral_text 32 10 v)) (of_char CHR ''0''))"
proof -
  have "star_args (npf_spec_init\<lparr>leading_zero_pad := True, field_width_opt := NPF_FMT_SPEC_OPT_STAR,
      conv_spec := NPF_FMT_SPEC_CONV_SIGNED_INT\<rparr>) [w, x]
    = Some (npf_spec_init\<lparr>leading_zero_pad := True, field_width_opt := NPF_FMT_SPEC_OPT_STAR,
      conv_spec := NPF_FMT_SPEC_CONV_SIGNED_INT, field_width := int k, left_justified := True\<rparr>, [x])"
    using assms by (simp add: star_args_def npf_spec_init_def int32_def Let_def)
  moreover have "sint (scast (ucast x :: u32) :: u64) = int v" using assms(4) by (simp add: sint_up_scast is_up)
  ultimately show ?thesis
    by (simp add: printf_def parse_star field_text_eq)
       (simp add: conv_text_def signed_text_def npf_spec_init_def npf_pad_c_def field_body_def layout_def
          prints_nothing_def sign_text_def Let_def)
qed

text \<open>
  A negative \<open>*\<close> width asks for left justification, but the flag \<open>0\<close> stays in force: the code
  fills up with zeros on the right, so the number that is printed is multiplied by a power of ten.
\<close>

theorem npf_negative_width_appends_zeros:
  assumes "buffer \<noteq> NULL" and "24 + k \<le> unat bufsz" and "k < 2 ^ 30"
    and "sint (ucast w :: u32) = - int k" and "0 < k" and "sint (ucast x :: u32) = int v"
  shows "\<exists>m' t. npf_snprintf buffer bufsz ''%0*d'' [w, x] m = Some (int (length t), m')
    \<and> cstr_at m' buffer t \<and> read_decimal t = int v * 10 ^ (k - length (numeral_text 32 10 v))"
proof -
  let ?ds = "numeral_text 32 10 v"
  let ?t = "?ds @ replicate (k - length ?ds) (of_char CHR ''0'')"
  have "int v < 2 ^ 31" using sint_lt[of "ucast x :: u32"] assms(6) by simp
  then have v: "v < 2 ^ 64" by simp
  have ds: "length ?ds \<le> 22" using v by (intro numeral_length_buffer) simp_all
  have "length ?t < unat bufsz" "length ?t < 2 ^ 31" using ds assms(2,3) by auto
  moreover have "0 \<notin> set ?t" using numeral_no_nul[of 32 v] by auto
  moreover have "read_decimal ?t = int v * 10 ^ (k - length ?ds)"
    using numeral_head[of 32 v] by (simp add: read_decimal_def Let_def digits_value_zeros numeral_reads_back)
  moreover have "k < 2 ^ 31" using assms(3) by simp
  ultimately show ?thesis
    using snprintf_whole[OF assms(1) printf_star[OF assms(4,5) _ assms(6)]] by metis
qed

theorem npf_negative_width_appends_zeros_witness:
  "\<exists>m' t. npf_snprintf 0x1000 64 ''%0*d'' [- 5, 3] (\<lambda>_. 0) = Some (int (length t), m')
    \<and> cstr_at m' 0x1000 t \<and> read_decimal t = 30000"
proof -
  have "length (numeral_text 32 10 3) = 1" by (simp add: numeral_text_def digits.simps[of 10 3])
  then show ?thesis
    using npf_negative_width_appends_zeros[of "0x1000" 5 64 "- 5" 3 3 "\<lambda>_. 0"] by simp
qed

end
