(* ===== verification/ConsoleLog.thy ===== *)
theory ConsoleLog
  imports Console NpfBuffer
begin

text \<open>
  What the logger writes, on the terminal and on the serial line, and how it ends when the
  terminal is disabled or a lock is taken.
\<close>

section \<open>Locks\<close>

definition tty_ready :: "'a console_scheme \<Rightarrow> bool" where
  "tty_ready c \<longleftrightarrow> tty_enabled c \<and> ftctx c \<noteq> NULL \<and> \<not> tty_lock c"

lemma acquire_free: "\<not> held \<Longrightarrow> \<exists>k. spinlock_acquire (\<lambda>_. held) cnt = Some k"
  by (simp add: spinlock_acquire_def spin_free)

lemma acquire_held: "held \<Longrightarrow> spinlock_acquire (\<lambda>_. held) cnt = None"
  unfolding spinlock_acquire_def by (rule spin_panics) simp

lemma tty_acquire_free: "\<not> tty_lock c \<Longrightarrow> tty_acquire c = Done (c\<lparr>tty_lock := True\<rparr>)"
  using acquire_free[of "tty_lock c" "stack_cnt c"] by (auto simp: tty_acquire_def)

lemma tty_acquire_held: "tty_lock c \<Longrightarrow> tty_acquire c = Panicked DEADLOCKED_KERNEL_COMPONENT c"
  by (simp add: tty_acquire_def acquire_held)

lemma logger_acquire_free: "\<not> logger_lock c \<Longrightarrow> logger_acquire c = Done (c\<lparr>logger_lock := True\<rparr>)"
  using acquire_free[of "logger_lock c" "stack_cnt c"] by (auto simp: logger_acquire_def)

lemma logger_acquire_held: "logger_lock c \<Longrightarrow> logger_acquire c = Panicked DEADLOCKED_KERNEL_COMPONENT c"
  by (simp add: logger_acquire_def acquire_held)

lemmas tty_defs = tty_set_fg_def tty_set_bg_def tty_reset_col_def tty_print_def term_call_def tty_release_def
  spinlock_release_def atomic_clear_def

text \<open>On an enabled terminal every operation takes the lock, calls the emulator and gives the lock back.\<close>

lemma tty_ready_ops:
  assumes "tty_ready c"
  shows "tty_set_fg fg c = Done (emit (Term_fg fg) (c\<lparr>tty_fg := fg\<rparr>))"
    and "tty_set_bg bg c = Done (emit (Term_bg bg) (c\<lparr>tty_bg := bg\<rparr>))"
    and "tty_reset_col c = Done (emit Term_default_fg (emit Term_default_bg c))"
    and "tty_print str n c = Done (emit (Term_write (bytes_at (mem c) str (unat n))) c)"
    and "tty_clear c = Done (emit Term_clear c)"
  using assms by (simp_all add: tty_ready_def tty_defs tty_clear_def tty_acquire_free emit_def)

section \<open>Literals and the local buffer\<close>

text \<open>
  The memory that survives a call of a printing function: all of it but the local buffer.  A string
  literal is there.
\<close>

definition legible :: "'a console_scheme \<Rightarrow> ptr \<Rightarrow> u8 option" where
  "legible c = readable (buffer_bytes (stack_buf c) 2048) (mem c)"

definition literal_ok :: "'a console_scheme \<Rightarrow> string \<Rightarrow> bool" where
  "literal_ok c str \<longleftrightarrow> c_string (legible c) None (lit c str) = Some (map of_char str)"

lemma legible_same_outside:
  "stack_buf c \<noteq> NULL \<Longrightarrow> same_outside (stack_buf c) 2048 (mem c) m \<Longrightarrow> legible (c\<lparr>mem := m\<rparr>) = legible c"
  by (auto simp: legible_def readable_def same_outside_def buffer_bytes_def)

text \<open>
  Formatting: where the format stands for the text \<open>t\<close>, the buffer holds it and all else stays;
  \<open>strlen\<close> counts the NUL too.
\<close>

lemma format_buf_text:
  assumes "printf (legible c) format args = Some t" and "stack_buf c \<noteq> NULL"
    and "length t < 2048" and "0 \<notin> set t"
  obtains m where "format_buf format args c = Done (c\<lparr>mem := m\<rparr>)"
    and "strlen (stack_buf c) m = Some (Suc (length t))" and "bytes_at m (stack_buf c) (Suc (length t)) = t @ [0]"
    and "legible (c\<lparr>mem := m\<rparr>) = legible c"
proof -
  have "length t < 2 ^ 31" "(2048 :: u64) \<noteq> 0" "min (length t) (unat (2048 :: u64) - 1) = length t"
    using assms(3) by simp_all
  with vsnprintf_effect[OF assms(2) this(2) assms(1)[unfolded legible_def] this(1) refl] obtain m where
    m: "npf_vsnprintf (stack_buf c) 2048 format args (mem c) = Some (int (length t), m)"
    "bytes_at m (stack_buf c) (Suc (length t)) = t @ [0]" "same_outside (stack_buf c) 2048 (mem c) m" by auto
  have "format_buf format args c = Done (c\<lparr>mem := m\<rparr>)" by (simp add: format_buf_def returning_def m(1))
  moreover have "strlen (stack_buf c) m = Some (Suc (length t))"
    using strlen_loop_cstr[of m "stack_buf c" t 0] m(2) assms(3,4)
    by (simp add: strlen_def cstr_at_def INT_MAX_def)
  ultimately show ?thesis using that m(2) legible_same_outside[OF assms(2) m(3)] by blast
qed

section \<open>Calls that only write\<close>

text \<open>The bytes that the trace writes to the terminal, in order.\<close>

fun shown :: "event list \<Rightarrow> u8 list" where
  "shown [] = []"
| "shown (Term_write bs # es) = bs @ shown es"
| "shown (_ # es) = shown es"

lemma shown_append [simp]: "shown (es @ fs) = shown es @ shown fs"
  by (induction es rule: shown.induct) auto

lemma polite_shown: "polite r es \<Longrightarrow> shown es = []"
  by (induction r es rule: polite.induct) auto

text \<open>
  What a console satisfies between two calls; what stays the same over a call; and a call that writes
  \<open>ts\<close> to the terminal and \<open>bs\<close> to the serial line.
\<close>

definition console_ok :: "'a console_scheme \<Rightarrow> bool" where
  "console_ok c \<longleftrightarrow> tty_ready c \<and> stack_buf c \<noteq> NULL \<and> responsive c"

definition same_console :: "'a console_scheme \<Rightarrow> 'a console_scheme \<Rightarrow> bool" where
  "same_console c c' \<longleftrightarrow> legible c' = legible c \<and> dev c' = dev c \<and> framebuf c' = framebuf c \<and> ftctx c' = ftctx c
     \<and> tty_enabled c' = tty_enabled c \<and> tty_lock c' = tty_lock c \<and> logger_lock c' = logger_lock c
     \<and> stack_buf c' = stack_buf c \<and> stack_cnt c' = stack_cnt c \<and> lit c' = lit c"

definition prints :: "'a console_scheme \<Rightarrow> u8 list \<Rightarrow> u8 list \<Rightarrow> 'a console_scheme outcome \<Rightarrow> bool" where
  "prints c ts bs r \<longleftrightarrow> (\<exists>c'. r = Done c' \<and> same_console c c'
     \<and> shown (trace c') = shown (trace c) @ ts \<and> sent (trace c') = sent (trace c) @ bs)"

lemma same_console_keeps:
  assumes "same_console c c'"
  shows "console_ok c' = console_ok c" and "tty_ready c' = tty_ready c" and "literal_ok c' str = literal_ok c str"
    and "legible c' = legible c" and "stack_buf c' = stack_buf c" and "lit c' = lit c"
    and "logger_lock c' = logger_lock c" and "responsive c' = responsive c"
  using assms by (simp_all add: same_console_def console_ok_def tty_ready_def literal_ok_def responsive_def)

lemma prints_then:
  assumes "prints c ts bs r" and "\<And>c'. same_console c c' \<Longrightarrow> prints c' ts' bs' (g c')"
  shows "prints c (ts @ ts') (bs @ bs') (and_then r g)"
proof -
  obtain c1 where c1: "r = Done c1" "same_console c c1"
    "shown (trace c1) = shown (trace c) @ ts" "sent (trace c1) = sent (trace c) @ bs"
    using assms(1) by (auto simp: prints_def)
  obtain c2 where "g c1 = Done c2" "same_console c1 c2"
    "shown (trace c2) = shown (trace c1) @ ts'" "sent (trace c2) = sent (trace c1) @ bs'"
    using assms(2)[OF c1(2)] by (auto simp: prints_def)
  then show ?thesis using c1 by (auto simp: prints_def same_console_def)
qed

lemma same_console_refl: "same_console c c"
  by (simp add: same_console_def)

lemma prints_next:
  assumes "same_console c0 c" and "prints c ts bs r" and "\<And>c'. same_console c0 c' \<Longrightarrow> prints c' ts' bs' (g c')"
  shows "prints c (ts @ ts') (bs @ bs') (and_then r g)"
  by (rule prints_then[OF assms(2)], rule assms(3)) (use assms(1) in \<open>simp add: same_console_def\<close>)

lemma prints_done: "prints c [] [] (Done c)"
  by (simp add: prints_def same_console_def)

lemma prints_tty:
  assumes "tty_ready c"
  shows "prints c [] [] (tty_set_fg fg c)" and "prints c [] [] (tty_reset_col c)" and "prints c [] [] (tty_clear c)"
    and "prints c (bytes_at (mem c) str (unat n)) [] (tty_print str n c)"
  using tty_ready_ops[OF assms] by (simp_all add: prints_def same_console_def legible_def emit_def)

lemma prints_serio:
  assumes "responsive c"
  shows "prints c [] (bytes_at (mem c) p k) (returning (serio_print p (int k) c))"
proof -
  obtain es where "serio_print p (int k) c = Some (c\<lparr>trace := trace c @ es\<rparr>)"
    "sent es = bytes_at (mem c) p k" "polite False es"
    using serio_print_runs[OF assms, of p "int k"] by auto
  then show ?thesis by (simp add: prints_def returning_def same_console_def legible_def polite_shown)
qed

text \<open>After formatting, the buffer is written with its NUL.\<close>

definition c_line :: "string \<Rightarrow> u8 list" where "c_line str = map of_char str @ [0]"

lemma prints_formatted:
  assumes "printf (legible c) format args = Some t" and "stack_buf c \<noteq> NULL"
    and "length t < 2048" and "0 \<notin> set t"
    and "\<And>c'. same_console c c' \<Longrightarrow> buf_len c' = Some (Suc (length t)) \<Longrightarrow>
      bytes_at (mem c') (stack_buf c') (Suc (length t)) = t @ [0] \<Longrightarrow> prints c' ts bs (g c')"
  shows "prints c ts bs (and_then (format_buf format args c) g)"
proof -
  obtain m where m: "format_buf format args c = Done (c\<lparr>mem := m\<rparr>)"
    "strlen (stack_buf c) m = Some (Suc (length t))" "bytes_at m (stack_buf c) (Suc (length t)) = t @ [0]"
    "legible (c\<lparr>mem := m\<rparr>) = legible c"
    by (rule format_buf_text[OF assms(1-4)])
  have "same_console c (c\<lparr>mem := m\<rparr>)" using m(4) by (simp add: same_console_def)
  moreover from this have "prints (c\<lparr>mem := m\<rparr>) ts bs (g (c\<lparr>mem := m\<rparr>))"
    by (rule assms(5)) (simp_all add: buf_len_def m(2,3))
  ultimately show ?thesis by (auto simp: prints_def m(1) same_console_def)
qed

lemma print_buf:
  assumes "tty_ready c" and "bytes_at (mem c) (stack_buf c) (Suc (length t)) = t @ [0]" and "length t < 2048"
  shows "prints c (t @ [0]) [] (tty_print (stack_buf c) (of_nat (Suc (length t))) c)"
proof -
  have "unat (of_nat (Suc (length t)) :: u64) = Suc (length t)" using assms(3) by (intro unat_of_nat_small) simp
  then show ?thesis using prints_tty(4)[OF assms(1), of "stack_buf c" "of_nat (Suc (length t))"] assms(2) by metis
qed

lemma prints_printf:
  assumes "console_ok c" and "printf (legible c) format args = Some t" and "length t < 2048" and "0 \<notin> set t"
  shows "prints c (t @ [0]) [] (tty_printf format args c)" and "prints c [] (t @ [0]) (serio_printf format args c)"
proof -
  have buf: "stack_buf c \<noteq> NULL" and en: "\<not> \<not> tty_enabled c" using assms(1) by (simp_all add: console_ok_def tty_ready_def)
  show "prints c (t @ [0]) [] (tty_printf format args c)"
    unfolding tty_printf_def if_not_P[OF en]
  proof (rule prints_formatted[OF assms(2) buf assms(3,4)])
    fix c' assume c': "same_console c c'" "buf_len c' = Some (Suc (length t))"
      "bytes_at (mem c') (stack_buf c') (Suc (length t)) = t @ [0]"
    have "tty_ready c'" using assms(1) by (simp add: same_console_keeps[OF c'(1)] console_ok_def)
    from print_buf[OF this c'(3) assms(3)] show "prints c' (t @ [0]) [] (case buf_len c' of None \<Rightarrow> Stuck
        | Some k \<Rightarrow> tty_print (stack_buf c') (of_nat k) c')"
      by (simp add: c'(2) del: of_nat_Suc)
  qed
  show "prints c [] (t @ [0]) (serio_printf format args c)"
    unfolding serio_printf_def
  proof (rule prints_formatted[OF assms(2) buf assms(3,4)])
    fix c' assume c': "same_console c c'" "buf_len c' = Some (Suc (length t))"
      "bytes_at (mem c') (stack_buf c') (Suc (length t)) = t @ [0]"
    have "responsive c'" using assms(1) by (simp add: same_console_keeps[OF c'(1)] console_ok_def)
    from prints_serio[OF this, of "stack_buf c'" "Suc (length t)"]
    show "prints c' [] (t @ [0]) (case buf_len c' of None \<Rightarrow> Stuck
        | Some k \<Rightarrow> returning (serio_print (stack_buf c') (int k) c'))"
      by (simp add: c'(2,3) del: of_nat_Suc)
  qed
qed

section \<open>The logger\<close>

definition STRING :: npf_format_spec where
  "STRING = npf_spec_init\<lparr>conv_spec := NPF_FMT_SPEC_CONV_STRING\<rparr>"

lemma field_text_string:
  "c_string rd None p = Some bs \<Longrightarrow> field_text rd STRING (p # args) = Some (bs, args)"
  by (simp add: STRING_def field_text_eq star_args_def conv_text_def str_limit_def npf_spec_init_def npf_pad_c_def
      layout_def field_body_def)

definition DECIMAL :: npf_format_spec where
  "DECIMAL = npf_spec_init\<lparr>conv_spec := NPF_FMT_SPEC_CONV_SIGNED_INT\<rparr>"

text \<open>\<open>%d\<close> takes the low 32 bits of its argument.\<close>

lemma field_text_int: "field_text rd DECIMAL (x # args) = Some (signed_decimal (sint (ucast x :: u32)), args)"
proof -
  have "sint (scast (ucast x :: u32) :: u64) = sint (ucast x :: u32)" by (rule sint_up_scast) (simp add: is_up)
  then show ?thesis
    by (simp add: field_text_eq star_args_def conv_text_def signed_text_def Let_def DECIMAL_def)
       (simp add: npf_spec_init_def npf_pad_c_def field_body_def layout_def signed_decimal_def prints_nothing_def sign_text_def)
qed

lemma printf_text_string:
  "npf_parse_format_spec (CHR ''%'' # cs) = Npf_spec STRING r \<Longrightarrow> c_string rd None p = Some bs \<Longrightarrow>
     printf_text rd (CHR ''%'' # cs) (p # args) = map_option (\<lambda>u. bs @ u) (printf_text rd r args)"
  by (simp add: field_text_string split: option.splits bind_splits)

lemma printf_text_plain:
  "CHR ''%'' \<notin> set str \<Longrightarrow> printf_text rd (str @ cs) args = map_option ((@) (map of_char str)) (printf_text rd cs args)"
  by (induction str) (cases "printf_text rd cs args", auto)+

lemma printf_text_plain':
  "CHR ''%'' \<notin> set str \<Longrightarrow> printf_text rd str args = Some (map of_char str)"
  using printf_text_plain[of str rd "[]" args] by simp

lemma printf_no_nul: "CHR 0x00 \<notin> set str \<Longrightarrow> printf rd str args = printf_text rd str args"
proof -
  assume "CHR 0x00 \<notin> set str"
  then have "\<forall>c \<in> set str. c \<noteq> CHR 0x00" by auto
  then have "takeWhile (\<lambda>c. c \<noteq> CHR 0x00) str = str" by (rule takeWhile_eq_all_conv[THEN iffD2])
  then show ?thesis by (simp only: printf_def)
qed

lemma parse_string:
  "npf_parse_format_spec ''%s - '' = Npf_spec STRING '' - ''"
  "npf_parse_format_spec ''%s - %s: '' = Npf_spec STRING '' - %s: ''"
  "npf_parse_format_spec ''%s: '' = Npf_spec STRING '': ''"
  by code_simp+

lemma printf_cmp:
  assumes "c_string rd None p = Some bs"
  shows "printf rd ''%s - '' [p] = Some (bs @ map of_char '' - '')"
  by (subst printf_no_nul, simp)
     (simp only: printf_text_string[OF parse_string(1) assms] printf_text_plain', simp add: printf_text_plain')

lemma printf_prefix:
  assumes "c_string rd None p = Some bs" and "c_string rd None q = Some cs"
  shows "printf rd ''%s - %s: '' [p, q] = Some (bs @ map of_char '' - '' @ cs @ map of_char '': '')"
proof -
  have "printf_text rd ''%s: '' [q] = Some (cs @ map of_char '': '')"
    by (simp only: printf_text_string[OF parse_string(3) assms(2)]) (simp add: printf_text_plain')
  then have "printf_text rd '' - %s: '' [q] = Some (map of_char '' - '' @ cs @ map of_char '': '')"
    using printf_text_plain[of "'' - ''" rd "''%s: ''" "[q]"] by simp
  then show ?thesis
    by (subst printf_no_nul, simp) (simp only: printf_text_string[OF parse_string(2) assms(1)], simp)
qed

lemma nm_lt_plain: "CHR ''%'' \<notin> set (nm_lt lt)" "CHR 0x00 \<notin> set (nm_lt lt)" "length (nm_lt lt) \<le> 8"
  by (cases lt; simp)+

lemma prints_plain:
  assumes "console_ok c" and "CHR ''%'' \<notin> set str" and "CHR 0x00 \<notin> set str" and "length str < 2048"
  shows "prints c (c_line str) [] (tty_printf str args c)"
proof -
  have "0 \<notin> set (map of_char str :: u8 list)" using assms(3) by (auto simp: of_char_zero)
  then show ?thesis
    using prints_printf(1)[OF assms(1), of str args "map of_char str"] assms(2-4)
    by (simp add: c_line_def printf_no_nul printf_text_plain')
qed

lemma bytes_at_Suc: "bytes_at m p (Suc n) = m p # bytes_at m (p + 1) n"
  by (simp add: bytes_at_def upt_conv_Cons[of 0] map_Suc_upt[symmetric] add.assoc del: upt_Suc)

lemma literal_bytes:
  assumes "literal_ok c str"
  shows "bytes_at (mem c) (lit c str) (length str) = map of_char str"
proof -
  have "bytes_at m p (length bs) = bs" if "c_string (readable B m) None p = Some bs" for B m p and bs :: "u8 list"
    using that
  proof (induction bs arbitrary: p)
    case (Cons b bs)
    then show ?case by (auto simp: c_string_Cons readable_def bytes_at_Suc split: if_splits)
  qed (simp add: bytes_at_def)
  from this[OF assms[unfolded literal_ok_def legible_def]] show ?thesis by simp
qed

text \<open>What \<open>logln\<close> writes: to the terminal in four pieces, to the serial line in two.\<close>

definition terminal_text :: "logtype \<Rightarrow> string \<Rightarrow> u8 list \<Rightarrow> u8 list" where
  "terminal_text lt cmp t = c_line (cmp @ '' - '') @ c_line (nm_lt lt) @ map of_char '': '' @ t @ [0]"

definition serial_text :: "logtype \<Rightarrow> string \<Rightarrow> u8 list \<Rightarrow> u8 list" where
  "serial_text lt cmp t = c_line (cmp @ '' - '' @ nm_lt lt @ '': '') @ t @ [0]"

definition log_literals :: "'a console_scheme \<Rightarrow> logtype \<Rightarrow> string \<Rightarrow> bool" where
  "log_literals c lt cmp \<longleftrightarrow> literal_ok c cmp \<and> literal_ok c (nm_lt lt) \<and> literal_ok c '': ''
     \<and> CHR 0x00 \<notin> set cmp \<and> length cmp < 2000"

lemma log_literals_same: "same_console c c' \<Longrightarrow> log_literals c' lt cmp = log_literals c lt cmp"
  by (simp add: log_literals_def same_console_keeps)

lemma prints_message:
  assumes "console_ok c" and "printf (legible c) msg args = Some t" and "length t < 2048" and "0 \<notin> set t"
  shows "prints c (t @ [0]) (t @ [0]) (and_then (format_buf msg args c) (\<lambda>c.
     case buf_len c of
       None \<Rightarrow> Stuck
     | Some i \<Rightarrow> and_then (tty_print (stack_buf c) (of_nat i) c) (\<lambda>c.
         returning (serio_print (stack_buf c) (int i) c))))"
proof (rule prints_formatted[OF assms(2) _ assms(3,4)])
  show "stack_buf c \<noteq> NULL" using assms(1) by (simp add: console_ok_def)
  fix c' assume c': "same_console c c'" "buf_len c' = Some (Suc (length t))"
    "bytes_at (mem c') (stack_buf c') (Suc (length t)) = t @ [0]"
  have ok: "tty_ready c'" "responsive c'" using assms(1) by (simp_all add: same_console_keeps[OF c'(1)] console_ok_def)
  let ?c = "emit (Term_write (t @ [0])) c'"
  have "unat (of_nat (Suc (length t)) :: u64) = Suc (length t)" using assms(3) by (intro unat_of_nat_small) simp
  then have "tty_print (stack_buf c') (of_nat (Suc (length t))) c' = Done ?c"
    using tty_ready_ops(4)[OF ok(1), of "stack_buf c'" "of_nat (Suc (length t))"] c'(3) by metis
  moreover have "prints ?c [] (t @ [0]) (returning (serio_print (stack_buf ?c) (int (Suc (length t))) ?c))"
    using prints_serio[of ?c "stack_buf ?c" "Suc (length t)"] ok(2) c'(3)
    by (simp add: emit_def del: of_nat_Suc)
  ultimately show "prints c' (t @ [0]) (t @ [0]) (case buf_len c' of None \<Rightarrow> Stuck
      | Some i \<Rightarrow> and_then (tty_print (stack_buf c') (of_nat i) c') (\<lambda>c.
         returning (serio_print (stack_buf c) (int i) c)))"
    by (simp add: c'(2) prints_def same_console_def legible_def emit_def del: of_nat_Suc)
qed

lemma prints_log_body:
  assumes "console_ok c" and "log_literals c lt cmp"
    and "printf (legible c) msg args = Some t" and "length t < 2048" and "0 \<notin> set t"
  shows "prints c (terminal_text lt cmp t) (serial_text lt cmp t) (log_body lt cmp msg args c)"
proof -
  have zero: "0 \<notin> set (map of_char str :: u8 list)" if "CHR 0x00 \<notin> set str" for str
    using that by (auto simp: of_char_zero)
  have lits: "c_string (legible c) None (lit c cmp) = Some (map of_char cmp)"
    "c_string (legible c) None (lit c (nm_lt lt)) = Some (map of_char (nm_lt lt))"
    "CHR 0x00 \<notin> set cmp" "length cmp < 2000"
    using assms(2) by (simp_all add: log_literals_def literal_ok_def)
  have 1: "prints c (c_line (cmp @ '' - '')) [] (tty_printf ''%s - '' [lit c cmp] c)"
    using prints_printf(1)[OF assms(1) printf_cmp[OF lits(1)]] lits(3,4) zero[of "cmp @ '' - ''"]
    by (simp add: c_line_def)
  have 2: "prints c' (c_line (nm_lt lt)) [] (tty_printf (nm_lt lt) [] c')" if "same_console c c'" for c'
    using prints_plain[of c' "nm_lt lt"] assms(1) nm_lt_plain[of lt] by (simp add: same_console_keeps[OF that])
  have 3: "prints c' (map of_char '': '') [] (tty_print (lit c' '': '') 2 c')" if "same_console c c'" for c'
  proof -
    have r: "tty_ready c'" "literal_ok c' '': ''"
      using assms(1,2) by (simp_all add: same_console_keeps[OF that] console_ok_def log_literals_def)
    have two: "unat (2 :: u64) = length '': ''" by simp
    show ?thesis using prints_tty(4)[OF r(1), of "lit c' '': ''" 2] unfolding two literal_bytes[OF r(2)] .
  qed
  have 4: "prints c' [] (c_line (cmp @ '' - '' @ nm_lt lt @ '': ''))
      (serio_printf ''%s - %s: '' [lit c' cmp, lit c' (nm_lt lt)] c')" if "same_console c c'" for c'
    using prints_printf(2)[of c', OF _ printf_prefix[OF lits(1,2), folded same_console_keeps(4,6)[OF that]]]
      zero[of "cmp @ '' - '' @ nm_lt lt @ '': ''"] assms(1) lits(3,4) nm_lt_plain(2,3)[of lt]
    by (simp add: c_line_def same_console_keeps[OF that])
  have 5: "prints c' (t @ [0]) (t @ [0]) (and_then (format_buf msg args c') (\<lambda>c.
     case buf_len c of None \<Rightarrow> Stuck
     | Some i \<Rightarrow> and_then (tty_print (stack_buf c) (of_nat i) c) (\<lambda>c.
         returning (serio_print (stack_buf c) (int i) c))))" if "same_console c c'" for c'
    using assms(1,3-5) by (intro prints_message) (simp_all add: same_console_keeps[OF that])
  have tty: "prints c' [] [] (tty_set_fg fg c')" "prints c' [] [] (tty_reset_col c')" if "same_console c c'" for c' fg
    using prints_tty[of c'] assms(1) by (simp_all add: same_console_keeps[OF that] console_ok_def)
  have "prints c (c_line (cmp @ '' - '') @ [] @ c_line (nm_lt lt) @ [] @ map of_char '': '' @ [] @ t @ [0])
      ([] @ [] @ [] @ [] @ [] @ c_line (cmp @ '' - '' @ nm_lt lt @ '': '') @ t @ [0]) (log_body lt cmp msg args c)"
    unfolding log_body_def
    by (rule prints_next[OF same_console_refl 1])
       (rule prints_next, assumption, erule tty(1), rule prints_next, assumption, erule 2,
        rule prints_next, assumption, erule tty(2), rule prints_next, assumption, erule 3,
        rule prints_next, assumption, erule 4, erule 5)
  then show ?thesis by (simp add: terminal_text_def serial_text_def)
qed

lemma prints_log_line:
  assumes "console_ok c" and "\<not> logger_lock c" and "log_literals c lt cmp"
    and "printf (legible c) msg args = Some t" and "length t < 2048" and "0 \<notin> set t"
  shows "prints c (terminal_text lt cmp t) (serial_text lt cmp t) (log_line lt cmp msg args c)"
proof -
  let ?c = "c\<lparr>logger_lock := True\<rparr>"
  have leg: "legible ?c = legible c" by (simp add: legible_def)
  have "console_ok ?c" "log_literals ?c lt cmp"
    using assms(1,3) by (simp_all add: console_ok_def tty_ready_def responsive_def log_literals_def literal_ok_def leg)
  from prints_log_body[OF this, of msg args t] assms(4-6) obtain c1 where
    c1: "log_body lt cmp msg args ?c = Done c1" "same_console ?c c1"
    "shown (trace c1) = shown (trace c) @ terminal_text lt cmp t"
    "sent (trace c1) = sent (trace c) @ serial_text lt cmp t"
    by (auto simp: prints_def leg)
  have "log_line lt cmp msg args c = Done (c1\<lparr>logger_lock := False\<rparr>)"
    using assms(2) c1(1) by (simp add: log_line_def logger_acquire_free spinlock_release_def atomic_clear_def)
  moreover have "same_console c (c1\<lparr>logger_lock := False\<rparr>)"
    using c1(2) assms(2) by (auto simp: same_console_def legible_def)
  ultimately show ?thesis using c1(3,4) by (simp add: prints_def)
qed

text \<open>
  C11. \<open>logln\<close> on an enabled console whose locks are free writes the component, the name of the log type
  and the message to the terminal and to the serial line, gives both locks back and changes nothing
  else that lives on; each piece that passes through the local buffer is written with its NUL, since
  \<open>strlen\<close> counts it.
\<close>

theorem log_line_prints:
  assumes "console_ok c" and "\<not> logger_lock c" and "log_literals c lt cmp"
    and "printf (legible c) msg args = Some t" and "length t < 2048" and "0 \<notin> set t"
  shows "\<exists>c'. log_line lt cmp msg args c = Done c' \<and> same_console c c'
    \<and> shown (trace c') = shown (trace c) @ terminal_text lt cmp t
    \<and> sent (trace c') = sent (trace c) @ serial_text lt cmp t"
  using prints_log_line[OF assms] by (simp add: prints_def)

section \<open>The logger when a lock is taken\<close>

lemma log_line_held: "logger_lock c \<Longrightarrow> log_line lt cmp msg args c = Panicked DEADLOCKED_KERNEL_COMPONENT c"
  by (simp add: log_line_def logger_acquire_held)

text \<open>
  A panic in the logger starts by logging, finds the lock taken and panics again, without end: the
  processor is never halted.
\<close>

lemma panic_in_logger:
  assumes "panic cause args c = Some c'"
  shows "\<not> logger_lock c"
  using assms
proof (rule panic.raw_induct[where P = "\<lambda>cause args c c'. \<not> logger_lock c", rotated])
  fix rec :: "int \<Rightarrow> ptr \<Rightarrow> 'a console_scheme \<Rightarrow> 'a console_scheme option"
    and cause :: int and args :: ptr and c c' :: "'a console_scheme"
  assume ih: "\<And>cause args c c'. rec cause args c = Some c' \<Longrightarrow> \<not> logger_lock c"
    and run: "(case panic_screen cause args c of Done c1 \<Rightarrow> Some (emit Hlt (emit Cli c1))
      | Panicked cause' c1 \<Rightarrow> rec cause' NULL c1 | Stuck \<Rightarrow> None) = Some c'"
  show "\<not> logger_lock c"
  proof
    assume "logger_lock c"
    then have "rec DEADLOCKED_KERNEL_COMPONENT NULL c = Some c'"
      using run by (simp add: panic_screen_def log_line_held Let_def split: if_splits)
    from ih[OF this] \<open>logger_lock c\<close> show False ..
  qed
qed

text \<open>
  C40. On a console that is not enabled the functions of the terminal return with its lock taken.  So
  the first call of the logger panics on its second access to the terminal, with both locks
  taken, and that panic never gets to halt the processor.
\<close>

theorem disabled_console_never_halts:
  assumes "\<not> tty_enabled c" and "\<not> tty_lock c" and "\<not> logger_lock c"
  shows "log_line lt cmp msg args c
      = Panicked DEADLOCKED_KERNEL_COMPONENT (c\<lparr>logger_lock := True, tty_lock := True\<rparr>)
    \<and> panic DEADLOCKED_KERNEL_COMPONENT NULL (c\<lparr>logger_lock := True, tty_lock := True\<rparr>) = None"
proof
  show "log_line lt cmp msg args c
      = Panicked DEADLOCKED_KERNEL_COMPONENT (c\<lparr>logger_lock := True, tty_lock := True\<rparr>)"
    using assms
    by (simp add: log_line_def log_body_def logger_acquire_free tty_printf_def tty_set_fg_def tty_reset_col_def
        tty_acquire_free tty_acquire_held)
  show "panic DEADLOCKED_KERNEL_COMPONENT NULL (c\<lparr>logger_lock := True, tty_lock := True\<rparr>) = None"
    using panic_in_logger[of DEADLOCKED_KERNEL_COMPONENT NULL "c\<lparr>logger_lock := True, tty_lock := True\<rparr>"]
    by (cases "panic DEADLOCKED_KERNEL_COMPONENT NULL (c\<lparr>logger_lock := True, tty_lock := True\<rparr>)") auto
qed

section \<open>A sample console\<close>

text \<open>The literals lie 256 bytes apart.\<close>

definition sample_literals :: "string list" where
  "sample_literals =
     [''kernel'', ''info'', '': '', ''DEADLOCKED_KERNEL_COMPONENT'', explainations ! 2, ''progress'', ''warn'',
      ''arch/gdt'', ''arch/ints'', ''arch'', ''syscalls'', ''pmm'', ''vmm'', ''sched'', ''KMODE_CPU_EXCEPTION'', explainations ! 1]"

definition sample_lit :: "string \<Rightarrow> ptr" where
  "sample_lit str = 0x10000 + 256 * of_nat (length (takeWhile (\<lambda>l. l \<noteq> str) sample_literals))"

definition console_mem :: mem where
  "console_mem a =
     (let k = unat (a - 0x10000) div 256; j = unat a mod 256
      in if k < length sample_literals \<and> j < length (sample_literals ! k)
         then of_char (sample_literals ! k ! j) else 0)"

definition sample_console :: "bool \<Rightarrow> console" where
  "sample_console enabled =
     \<lparr>mem = console_mem, trace = [], dev = (\<lambda>_ _. 0x20), framebuf = 0x30000, ftctx = 0x40000,
      tty_enabled = enabled, tty_lock = False, tty_fg = 0xFFFFFF, tty_bg = 0x080808, logger_lock = False,
      stack_buf = 0x8000, stack_cnt = 0, lit = sample_lit,
      geometry = \<lparr>width = 1024, height = 768, glyph_width = 8, glyph_height = 16, cols = 128, rows = 48, offset_x = 0, offset_y = 0\<rparr>\<rparr>"

lemma sample_legible:
  "legible (sample_console e) = (\<lambda>a. if in_range 0x8000 2048 a then None else Some (console_mem a))"
  by (rule ext) (simp add: legible_def sample_console_def readable_def buffer_bytes_def)

lemma sample_legible_at:
  assumes "k < 16" and "j < 256"
  shows "legible (sample_console e) (0x10000 + 256 * of_nat k + of_nat j)
    = Some (if j < length (sample_literals ! k) then of_char (sample_literals ! k ! j) else 0)"
proof -
  let ?a = "0x10000 + 256 * of_nat k + of_nat j :: u64"
  have n: "unat (of_nat k :: u64) = k" "unat (of_nat j :: u64) = j" "j mod 256 = j" using assms by (simp_all add: unat_of_nat)
  have "unat (256 * of_nat k + of_nat j :: u64) = 256 * k + j"
    using assms by (simp add: unat_word_ariths n)
  then have off: "unat (?a - 0x10000) = 256 * k + j" by simp
  have addr: "unat ?a = 0x10000 + (256 * k + j)" using assms by (simp add: unat_word_ariths n)
  have "unat (0x8000 + (256 * of_nat k + of_nat j) :: u64) = 0x8000 + (256 * k + j)"
    using assms by (simp add: unat_word_ariths n)
  then have "legible (sample_console e) ?a = Some (console_mem ?a)" by (simp add: sample_legible in_range_def)
  moreover have "(256 * k + j) div 256 = k" using assms by simp
  moreover have "unat ?a mod 256 = j" proof -
    have "0x10000 + (256 * k + j) = j + (256 + k) * 256" by simp
    then show ?thesis unfolding addr using n(3) by (simp only: mod_mult_self1)
  qed
  moreover have "k < length sample_literals" using assms by (simp add: sample_literals_def)
  ultimately show ?thesis by (simp only: console_mem_def off Let_def simp_thms)
qed

lemma sample_string:
  assumes "k < 16" and "length (sample_literals ! k) < 256" and "CHR 0x00 \<notin> set (sample_literals ! k)"
  shows "c_string (legible (sample_console e)) None (0x10000 + 256 * of_nat k)
    = Some (map of_char (sample_literals ! k))"
proof -
  let ?str = "sample_literals ! k"
  have "c_string (legible (sample_console e)) None (0x10000 + 256 * of_nat k + of_nat j) = Some (drop j (map of_char ?str))"
    if "j \<le> length ?str" for j
    using that
  proof (induction rule: inc_induct)
    case base
    show ?case using sample_legible_at[OF assms(1), of "length ?str" e] assms(2) by (simp add: c_string_Nil)
  next
    case (step j)
    have "of_char (?str ! j) \<noteq> (0 :: u8)" using assms(3) nth_mem[OF step(2)] by (auto simp: of_char_zero)
    have split: "drop j (map of_char ?str) = of_char (?str ! j) # drop (Suc j) (map of_char ?str)"
      using step(2) by (simp add: Cons_nth_drop_Suc[symmetric])
    show ?case unfolding split c_string_Cons
      using step(2,3) sample_legible_at[OF assms(1), of j e] assms(2) \<open>of_char (?str ! j) \<noteq> 0\<close>
      by (simp add: algebra_simps)
  qed
  from this[of 0] show ?thesis by simp
qed

lemma sample_literal:
  assumes "str \<in> set sample_literals"
  shows "literal_ok (sample_console e) str"
proof -
  define k where "k = length (takeWhile (\<lambda>l. l \<noteq> str) sample_literals)"
  have "takeWhile (\<lambda>l. l \<noteq> str) sample_literals \<noteq> sample_literals"
    using assms by (simp add: takeWhile_eq_all_conv)
  then have "k \<noteq> length sample_literals" unfolding k_def by (metis takeWhile_eq_take take_all order_refl)
  then have k: "k < length sample_literals" using length_takeWhile_le[of "\<lambda>l. l \<noteq> str" sample_literals] by (simp add: k_def)
  then have str: "sample_literals ! k = str" using nth_length_takeWhile[of "\<lambda>l. l \<noteq> str" sample_literals] by (simp add: k_def)
  have "\<forall>l \<in> set sample_literals. length l < 256 \<and> CHR 0x00 \<notin> set l"
    by (simp add: sample_literals_def explainations_def)
  with assms have plain: "length str < 256" "CHR 0x00 \<notin> set str" by blast+
  have "k < 16" using k by (simp add: sample_literals_def)
  from sample_string[OF this, unfolded str, OF plain] show ?thesis
    by (simp add: literal_ok_def sample_console_def sample_lit_def k_def)
qed

lemma sample_literals_ok:
  "literal_ok (sample_console e) ''kernel''" "literal_ok (sample_console e) ''info''"
  "literal_ok (sample_console e) '': ''" "literal_ok (sample_console e) ''DEADLOCKED_KERNEL_COMPONENT''"
  "literal_ok (sample_console e) (explainations ! 2)"
  by (rule sample_literal, simp add: sample_literals_def)+

lemma sample_console_ok: "console_ok (sample_console True)" "log_literals (sample_console True) Lg_info ''kernel''"
  using sample_literals_ok[of True]
  by (auto simp: console_ok_def tty_ready_def responsive_def sample_console_def log_literals_def
      sample_literals_def intro!: exI[of _ 0])

theorem log_line_prints_witness:
  "\<exists>c'. log_line Lg_info ''kernel'' ''hi'' [] (sample_console True) = Done c'
    \<and> shown (trace c') = map of_char ''kernel - '' @ [0] @ map of_char ''info'' @ [0] @ map of_char '': hi'' @ [0]
    \<and> sent (trace c') = map of_char ''kernel - info: '' @ [0] @ map of_char ''hi'' @ [0]"
  using log_line_prints[OF sample_console_ok(1) _ sample_console_ok(2), of "''hi''" "[]" "map of_char ''hi''"]
  by (auto simp: printf_no_nul printf_text_plain' sample_console_def terminal_text_def serial_text_def c_line_def)

theorem disabled_console_never_halts_witness:
  "log_line Lg_info ''kernel'' ''hi'' [] (sample_console False)
    = Panicked DEADLOCKED_KERNEL_COMPONENT ((sample_console False)\<lparr>logger_lock := True, tty_lock := True\<rparr>)"
  using disabled_console_never_halts[of "sample_console False"] by (simp add: sample_console_def)

end
