(* ===== verification/ConsoleMargin.thy ===== *)
theory ConsoleMargin
  imports ConsoleLog
begin

text \<open>
  \<open>tty_set_margin\<close>: the text area in a screen with a margin.
\<close>

section \<open>One dimension\<close>

text \<open>
  \<open>n\<close> characters of size \<open>g\<close> that start at \<open>off\<close>, in a screen of size \<open>w\<close> with margin \<open>m\<close>: they lie between the
  margins, there is no room for one more, and they are centred up to a pixel.
\<close>

definition centred :: "nat \<Rightarrow> nat \<Rightarrow> nat \<Rightarrow> nat \<Rightarrow> nat \<Rightarrow> bool" where
  "centred w m g n off \<longleftrightarrow> m \<le> off \<and> off + n * g + m \<le> w \<and> w < 2 * m + (n + 1) * g
     \<and> (let right = w - (off + n * g) in right = off \<or> right = off + 1)"

lemma centred_area:
  assumes "2 * m \<le> w" and "0 < g"
  shows "centred w m g ((w - 2 * m) div g) (m + (w - 2 * m) mod g div 2)"
proof -
  have general: "centred (q * g + r + 2 * m) m g q (m + r div 2)" if "r < g" for q r
    using that by (auto simp: centred_def Let_def)
  have "w = (w - 2 * m) div g * g + (w - 2 * m) mod g + 2 * m" using assms(1) by simp
  with general[of "(w - 2 * m) mod g" "(w - 2 * m) div g"] assms(2) show ?thesis by simp
qed

lemma margin_words:
  assumes "0 \<le> m" and "2 * nat m \<le> unat w" and "g \<noteq> 0"
  shows "unat ((w - of_int (m * 2)) div g) = (unat w - 2 * nat m) div unat g"
    and "unat (of_int m + (w - of_int (m * 2)) mod g div 2 :: u64) = nat m + (unat w - 2 * nat m) mod unat g div 2"
proof -
  have lt: "unat w < 2 ^ 64" using unsigned_less[of w, where ?'a = nat] by simp
  have small: "unat (of_int k :: u64) = nat k" if "0 \<le> k" "k < 2 ^ 64" for k
    using that by (simp add: unsigned_of_int take_bit_int_eq_self)
  have "2 * nat m < 2 ^ 64" using assms(2) lt by linarith
  then have m: "m * 2 < 2 ^ 64" "nat (m * 2) = 2 * nat m" using assms(1) by simp_all
  have wd: "unat (of_int (m * 2) :: u64) = 2 * nat m" unfolding m(2)[symmetric] using assms(1) m(1) by (intro small) simp_all
  have wm: "unat (of_int m :: u64) = nat m" using assms(1) m(1) by (intro small) simp_all
  have w': "unat (w - of_int (m * 2)) = unat w - 2 * nat m" using assms(2) by (simp only: unat_sub word_le_nat_alt wd)
  then show "unat ((w - of_int (m * 2)) div g) = (unat w - 2 * nat m) div unat g" by (simp only: unat_div)
  have off: "unat ((w - of_int (m * 2)) mod g div 2) = (unat w - 2 * nat m) mod unat g div 2"
    by (simp only: unat_div unat_mod w') simp
  have fits: "n + x < b" if "x \<le> v - 2 * n" "2 * n \<le> v" "v < b" for n x v b :: nat using that by linarith
  have "(unat w - 2 * nat m) mod unat g div 2 \<le> unat w - 2 * nat m" by (rule order_trans[OF div_le_dividend mod_less_eq_dividend])
  from fits[OF this assms(2) lt] have "unat (of_int m :: u64) + unat ((w - of_int (m * 2)) mod g div 2) < 2 ^ 64"
    unfolding wm off .
  then show "unat (of_int m + (w - of_int (m * 2)) mod g div 2 :: u64) = nat m + (unat w - 2 * nat m) mod unat g div 2"
    by (simp only: unat_plus_small wm off)
qed

text \<open>
  C36. A margin that leaves room on the screen: \<open>tty_set_margin\<close> returns with its lock free, and in both directions the text area lies
  between the margins, is as large as whole characters allow, and is centred up to one pixel; only the four fields
  of the area change.
\<close>

theorem tty_set_margin_centres:
  fixes c :: "'a console_scheme"
  defines "g \<equiv> geometry c"
  assumes "tty_ready c" and "glyph_width g \<noteq> 0" and "glyph_height g \<noteq> 0"
    and "0 \<le> margin" and "2 * margin < 2 ^ 31" and "2 * nat margin \<le> min (unat (width g)) (unat (height g))"
  shows "\<exists>g'. tty_set_margin margin c = Done (c\<lparr>geometry := g'\<rparr>)
    \<and> centred (unat (width g)) (nat margin) (unat (glyph_width g)) (unat (cols g')) (unat (offset_x g'))
    \<and> centred (unat (height g)) (nat margin) (unat (glyph_height g)) (unat (rows g')) (unat (offset_y g'))
    \<and> width g' = width g \<and> height g' = height g \<and> glyph_width g' = glyph_width g \<and> glyph_height g' = glyph_height g"
proof -
  let ?w = "width g - of_int (margin * 2)" and ?h = "height g - of_int (margin * 2)"
  let ?g = "g\<lparr>cols := ?w div glyph_width g, rows := ?h div glyph_height g,
      offset_x := of_int margin + (?w mod glyph_width g) div 2, offset_y := of_int margin + (?h mod glyph_height g) div 2\<rparr>"
  have ready: "tty_acquire c = Done (c\<lparr>tty_lock := True\<rparr>)" "ftctx c \<noteq> NULL" "\<not> tty_lock c"
    using assms(2) by (simp_all add: tty_ready_def tty_acquire_free)
  have pos: "0 < unat (glyph_width g)" "0 < unat (glyph_height g)" using assms(3,4) by (simp_all add: unat_gt_0)
  have "c\<lparr>geometry := g', tty_lock := False\<rparr> = c\<lparr>geometry := g'\<rparr>" for g'
    using ready(3) by (cases c) simp
  then have "tty_set_margin margin c = Done (c\<lparr>geometry := ?g\<rparr>)"
    using ready assms(3-6) by (simp add: tty_set_margin_def tty_release_def spinlock_release_def int32_def g_def Let_def atomic_clear_def)
  then show ?thesis
    using margin_words[OF assms(5) _ assms(3)] margin_words[OF assms(5) _ assms(4)] centred_area[OF _ pos(1)] centred_area[OF _ pos(2)] assms(7)
    by (intro exI[of _ ?g]) simp
qed

theorem tty_set_margin_centres_witness:
  "\<exists>g'. tty_set_margin 13 (sample_console True) = Done ((sample_console True)\<lparr>geometry := g'\<rparr>)
    \<and> centred 1024 13 8 (unat (cols g')) (unat (offset_x g')) \<and> centred 768 13 16 (unat (rows g')) (unat (offset_y g'))"
proof -
  have "tty_ready (sample_console True)" by (simp add: tty_ready_def sample_console_def)
  from tty_set_margin_centres[OF this, of 13] show ?thesis by (simp add: sample_console_def) blast
qed

end
