(* ===== verification/AddressSpace.thy ===== *)
theory AddressSpace
  imports Prelude
begin

text \<open>
  The contract of a page table that is built on demand: writing the entry of one virtual page
  changes the translation of that page only, and costs one spare page for every table on the way
  that does not exist yet.  The virtual memory manager provides it (theory Vmm); the loops of its
  initialisation, which map whole ranges, are clients.
\<close>

locale address_space =
  fixes inv :: "'s \<Rightarrow> bool"
    and view :: "'s \<Rightarrow> 'k \<Rightarrow> u64 option"
    and tables :: "'s \<Rightarrow> 'k set"
    and spare :: "'s \<Rightarrow> nat"
    and put :: "u64 \<Rightarrow> u64 \<Rightarrow> 's \<Rightarrow> 's"
    and key :: "u64 \<Rightarrow> 'k"
    and spine :: "u64 \<Rightarrow> 'k set"
    and decode :: "u64 \<Rightarrow> u64 option"
  assumes spine_finite: "finite (spine va)"
    and inv_put: "inv s \<Longrightarrow> card (spine va - tables s) \<le> spare s \<Longrightarrow> inv (put va e s)"
    and view_put: "inv s \<Longrightarrow> card (spine va - tables s) \<le> spare s \<Longrightarrow>
      view (put va e s) = (view s)(key va := decode e)"
    and tables_put: "inv s \<Longrightarrow> card (spine va - tables s) \<le> spare s \<Longrightarrow>
      tables (put va e s) = tables s \<union> spine va"
    and spare_put: "inv s \<Longrightarrow> card (spine va - tables s) \<le> spare s \<Longrightarrow>
      spare (put va e s) + card (spine va - tables s) = spare s"
begin

text \<open>A list of writes needs one spare page for every missing table on any of the ways.\<close>

definition needed :: "(u64 \<times> u64) list \<Rightarrow> 's \<Rightarrow> 'k set" where
  "needed ws s = (\<Union>w \<in> set ws. spine (fst w)) - tables s"

definition writes :: "(u64 \<times> u64) list \<Rightarrow> 's \<Rightarrow> 's" where
  "writes ws = fold (\<lambda>(va, e). put va e) ws"

lemma finite_needed: "finite (needed ws s)"
  by (simp add: needed_def spine_finite)

lemma needed_split:
  assumes "inv s" and "card (spine va - tables s) \<le> spare s"
  shows "card (needed ((va, e) # ws) s)
    = card (spine va - tables s) + card (needed ws (put va e s))"
proof -
  have "needed ((va, e) # ws) s = (spine va - tables s) \<union> needed ws (put va e s)"
    "(spine va - tables s) \<inter> needed ws (put va e s) = {}"
    by (auto simp: needed_def tables_put[OF assms])
  then show ?thesis using card_Un_disjoint[of "spine va - tables s" "needed ws (put va e s)"]
    by (simp add: finite_needed spine_finite)
qed

lemma first_put_fits:
  assumes "card (needed ((va, e) # ws) s) \<le> spare s"
  shows "card (spine va - tables s) \<le> spare s"
proof -
  have "card (spine va - tables s) \<le> card (needed ((va, e) # ws) s)"
    by (rule card_mono[OF finite_needed]) (auto simp: needed_def)
  with assms show ?thesis by simp
qed

lemma rest_fits:
  assumes "inv s" and "card (needed ((va, e) # ws) s) \<le> spare s"
  shows "inv (put va e s)" and "card (needed ws (put va e s)) \<le> spare (put va e s)"
proof -
  note step = assms(1) first_put_fits[OF assms(2)]
  show "inv (put va e s)" by (rule inv_put[OF step])
  show "card (needed ws (put va e s)) \<le> spare (put va e s)"
    using needed_split[OF step, of e ws] spare_put[OF step, of e] assms(2) by simp
qed

lemma writes_Cons: "writes ((va, e) # ws) s = writes ws (put va e s)"
  by (simp add: writes_def)

lemma writes_law:
  assumes "inv s" and "card (needed ws s) \<le> spare s"
  shows "inv (writes ws s) \<and> tables (writes ws s) = tables s \<union> (\<Union>w \<in> set ws. spine (fst w))
    \<and> spare (writes ws s) + card (needed ws s) = spare s
    \<and> view (writes ws s) = fold (\<lambda>(va, e) f. f(key va := decode e)) ws (view s)"
  using assms
proof (induction ws arbitrary: s)
  case Nil
  then show ?case by (simp add: writes_def needed_def)
next
  case (Cons w ws)
  obtain va e where w: "w = (va, e)" by (cases w)
  note fits = first_put_fits[OF Cons.prems(2)[unfolded w]]
  note step = Cons.prems(1) fits
  from Cons.IH[OF rest_fits[OF Cons.prems(1) Cons.prems(2)[unfolded w]]] show ?case
    using needed_split[OF step, of e ws] spare_put[OF step, of e]
    by (simp add: w writes_Cons tables_put[OF step] view_put[OF step] Un_assoc)
qed

lemma fold_upd_other:
  "\<forall>w \<in> set ws. key (fst w) \<noteq> k \<Longrightarrow> fold (\<lambda>(va, e) f. f(key va := decode e)) ws f k = f k"
  by (induction ws arbitrary: f) auto

lemma fold_upd_hit:
  assumes "\<exists>w \<in> set ws. key (fst w) = k" and "\<forall>w \<in> set ws. key (fst w) = k \<longrightarrow> decode (snd w) = r"
  shows "fold (\<lambda>(va, e) f. f(key va := decode e)) ws f k = r"
  using assms
proof (induction ws arbitrary: f)
  case Nil
  then show ?case by simp
next
  case (Cons w ws)
  show ?case
  proof (cases "\<exists>w \<in> set ws. key (fst w) = k")
    case True
    with Cons show ?thesis by (auto simp: split_beta)
  next
    case False
    then have "\<forall>w \<in> set ws. key (fst w) \<noteq> k" by blast
    with Cons.prems show ?thesis by (cases w) (auto simp only: fold_simps fold_upd_other
        o_apply set_simps fst_conv snd_conv prod.case fun_upd_same)
  qed
qed

text \<open>What a list of writes makes of one page: nothing, or the entry all its writers agree on.\<close>

lemma view_writes_other:
  assumes "inv s" and "card (needed ws s) \<le> spare s" and "\<forall>w \<in> set ws. key (fst w) \<noteq> k"
  shows "view (writes ws s) k = view s k"
  using writes_law[OF assms(1,2)] fold_upd_other[OF assms(3)] by simp

lemma view_writes_hit:
  assumes "inv s" and "card (needed ws s) \<le> spare s"
    and "\<exists>w \<in> set ws. key (fst w) = k" and "\<forall>w \<in> set ws. key (fst w) = k \<longrightarrow> decode (snd w) = r"
  shows "view (writes ws s) k = r"
  using writes_law[OF assms(1,2)] fold_upd_hit[OF assms(3,4)] by simp

lemma writes_append: "writes (ws @ vs) s = writes vs (writes ws s)"
  by (simp add: writes_def)

lemma needed_append_card:
  assumes "inv s" and "card (needed ws s) \<le> spare s"
  shows "card (needed (ws @ vs) s) = card (needed ws s) + card (needed vs (writes ws s))"
proof -
  have "needed (ws @ vs) s = needed ws s \<union> needed vs (writes ws s)"
    "needed ws s \<inter> needed vs (writes ws s) = {}"
    using writes_law[OF assms] by (auto simp: needed_def)
  then show ?thesis using card_Un_disjoint[of "needed ws s"] by (simp add: finite_needed)
qed

end

text \<open>
  A table whose zero entry means unmapped: writing zero undoes a mapping, and the tables built for
  it stay, so that mapping the page again costs nothing.
\<close>

locale erasable_address_space = address_space +
  assumes decode_zero: "decode 0 = None"
begin

lemma erase_undoes:
  assumes "inv s" and "card (spine va - tables s) \<le> spare s"
  shows "view (put va 0 (put va e s)) = (view s)(key va := None)"
    and "spare (put va 0 (put va e s)) = spare (put va e s)"
proof -
  have none: "card (spine va - tables (put va e s)) = 0"
  proof -
    have "spine va - (tables s \<union> spine va) = {}" by blast
    then show ?thesis by (simp only: tables_put[OF assms] card.empty)
  qed
  then have again: "card (spine va - tables (put va e s)) \<le> spare (put va e s)" by simp
  note step = inv_put[OF assms] this
  show "view (put va 0 (put va e s)) = (view s)(key va := None)"
    by (simp add: view_put[OF step] view_put[OF assms] decode_zero)
  show "spare (put va 0 (put va e s)) = spare (put va e s)"
    using spare_put[OF step, of 0] none by simp
qed

end

end
