(* ===== verification/Vmm.thy ===== *)
theory Vmm
  imports Pmm AddressSpace
begin

text \<open>
  The virtual memory manager, \<^verbatim>\<open>kernel/src/mm/vmm.c\<close>: x86-64 page tables of four levels,
  built on demand in pages of the physical memory manager and written through the direct map at
  \<open>hhdm_off\<close>.  The operations come first; then the translation a table stands for, as the
  processor reads it, and the invariant under which an operation changes exactly what it means to.
\<close>

section \<open>State\<close>

definition PAGE_SIZE :: u64 where "PAGE_SIZE = 4096"
definition PTE_ADDR_MASK :: u64 where "PTE_ADDR_MASK = 0x000ffffffffff000"
definition PTE_GET_ADDR :: "u64 \<Rightarrow> u64" where "PTE_GET_ADDR v = v AND PTE_ADDR_MASK"

record vmm = pmm +
  hhdm_off :: u64
  kernel_phys_addr :: u64
  kernel_virt_addr :: u64
  vmm_kernel_pagemap :: ptr
  vmm_current_pagemap :: ptr

text \<open>The addresses of the linker script's symbols.\<close>

record linker_symbols =
  text_start_ld :: u64
  text_end_ld :: u64
  rodata_start_ld :: u64
  rodata_end_ld :: u64
  data_start_ld :: u64
  data_end_ld :: u64

definition PHYSICAL_TO_VIRTUAL :: "'a vmm_scheme \<Rightarrow> u64 \<Rightarrow> ptr" where
  "PHYSICAL_TO_VIRTUAL s p = p + hhdm_off s"

definition VIRTUAL_TO_PHYSICAL :: "'a vmm_scheme \<Rightarrow> ptr \<Rightarrow> u64" where
  "VIRTUAL_TO_PHYSICAL s p = p - hhdm_off s"

text \<open>\<open>struct pagemap\<close> and \<open>struct vma_region\<close> are packed; their fields are at these offsets.\<close>

definition topLevel :: "mem \<Rightarrow> ptr \<Rightarrow> ptr" where "topLevel m pm = load64 m pm"
definition vmaHead :: "mem \<Rightarrow> ptr \<Rightarrow> ptr" where "vmaHead m pm = load64 m (pm + 8)"
definition set_topLevel :: "ptr \<Rightarrow> ptr \<Rightarrow> mem \<Rightarrow> mem" where "set_topLevel pm v m = store64 m pm v"
definition set_vmaHead :: "ptr \<Rightarrow> ptr \<Rightarrow> mem \<Rightarrow> mem" where "set_vmaHead pm v m = store64 m (pm + 8) v"
definition set_vma_next :: "ptr \<Rightarrow> ptr \<Rightarrow> mem \<Rightarrow> mem" where "set_vma_next r v m = store64 m (r + 48) v"
definition set_vma_prev :: "ptr \<Rightarrow> ptr \<Rightarrow> mem \<Rightarrow> mem" where "set_vma_prev r v m = store64 m (r + 56) v"

section \<open>Operations\<close>

text \<open>Entry \<open>i\<close> of a table, read and written.\<close>

definition entry :: "mem \<Rightarrow> ptr \<Rightarrow> u64 \<Rightarrow> u64" where "entry m a i = load64 m (a + 8 * i)"
definition set_entry :: "ptr \<Rightarrow> u64 \<Rightarrow> u64 \<Rightarrow> mem \<Rightarrow> mem" where "set_entry a i v m = store64 m (a + 8 * i) v"

definition zero_page :: "ptr \<Rightarrow> mem \<Rightarrow> mem" where "zero_page p m = snd (memset p 0 PAGE_SIZE m)"

definition vmm_get_next_lvl :: "ptr \<Rightarrow> u64 \<Rightarrow> 'a vmm_scheme \<Rightarrow> ptr \<times> 'a vmm_scheme" where
  "vmm_get_next_lvl level i s =
     (if entry (mem s) level i AND 1 \<noteq> 0
      then (PHYSICAL_TO_VIRTUAL s (PTE_GET_ADDR (entry (mem s) level i)), s)
      else let (p, s1) = pmm_allocpage s;
               pml = PHYSICAL_TO_VIRTUAL s1 p;
               m1 = zero_page pml (mem s1);
               m2 = set_entry level i (VIRTUAL_TO_PHYSICAL s1 pml OR 1 OR 2 OR 3) m1
           in (pml, s1\<lparr>mem := m2\<rparr>))"

definition vmm_map :: "ptr \<Rightarrow> u64 \<Rightarrow> u64 \<Rightarrow> u64 \<Rightarrow> 'a vmm_scheme \<Rightarrow> 'a vmm_scheme" where
  "vmm_map pm vaddr paddr flags s =
     (let pml1_entry = drop_bit 12 vaddr AND 0x1ff;
          pml2_entry = drop_bit 21 vaddr AND 0x1ff;
          pml3_entry = drop_bit 30 vaddr AND 0x1ff;
          pml4_entry = drop_bit 39 vaddr AND 0x1ff;
          (pml3, s1) = vmm_get_next_lvl (topLevel (mem s) pm) pml4_entry s;
          (pml2, s2) = vmm_get_next_lvl pml3 pml3_entry s1;
          (pml1, s3) = vmm_get_next_lvl pml2 pml2_entry s2
      in s3\<lparr>mem := set_entry pml1 pml1_entry (paddr OR flags) (mem s3)\<rparr>)"

definition vmm_unmap :: "ptr \<Rightarrow> u64 \<Rightarrow> 'a vmm_scheme \<Rightarrow> 'a vmm_scheme" where
  "vmm_unmap pm vaddr s =
     (let pml1_entry = drop_bit 12 vaddr AND 0x1ff;
          pml2_entry = drop_bit 21 vaddr AND 0x1ff;
          pml3_entry = drop_bit 30 vaddr AND 0x1ff;
          pml4_entry = drop_bit 39 vaddr AND 0x1ff;
          (pml3, s1) = vmm_get_next_lvl (topLevel (mem s) pm) pml4_entry s;
          (pml2, s2) = vmm_get_next_lvl pml3 pml3_entry s1;
          (pml1, s3) = vmm_get_next_lvl pml2 pml2_entry s2
      in s3\<lparr>mem := set_entry pml1 pml1_entry 0 (mem s3)\<rparr>)"

definition vmm_load_pagemap :: "ptr \<Rightarrow> 'a vmm_scheme \<Rightarrow> 'a vmm_scheme" where
  "vmm_load_pagemap pml4 s =
     (if pml4 = NULL then s
      else let s1 = s\<lparr>vmm_current_pagemap := pml4\<rparr>
           in emit (Load_cr3 (VIRTUAL_TO_PHYSICAL s1 (topLevel (mem s1) pml4))) s1)"

text \<open>A page of the allocator, at its address in the direct map.\<close>

definition alloc_virtual :: "'a vmm_scheme \<Rightarrow> ptr \<times> 'a vmm_scheme" where
  "alloc_virtual s = (let (p, s1) = pmm_allocpage s in (PHYSICAL_TO_VIRTUAL s1 p, s1))"

definition vma_self_loop :: "ptr \<Rightarrow> mem \<Rightarrow> mem" where
  "vma_self_loop pm m =
     (let m1 = set_vma_next (vmaHead m pm) (vmaHead m pm) m
      in set_vma_prev (vmaHead m1 pm) (vmaHead m1 pm) m1)"

definition copy_kernel_half :: "ptr \<Rightarrow> ptr \<Rightarrow> mem \<Rightarrow> mem" where
  "copy_kernel_half pm kpm =
     fold (\<lambda>i m. set_entry (topLevel m pm) (of_nat i) (entry m (topLevel m kpm) (of_nat i)) m)
       [256..<512]"

definition vmm_new_pagemap :: "'a vmm_scheme \<Rightarrow> ptr \<times> 'a vmm_scheme" where
  "vmm_new_pagemap s =
     (let (pageMap, s1) = alloc_virtual s
      in if pageMap = NULL then (NULL, logln Lg_err ''vmm'' ''Allocation failed!\<newline>'' [] s1)
      else let s2 = s1\<lparr>mem := zero_page pageMap (mem s1)\<rparr>;
               (root, s3) = alloc_virtual s2;
               s4 = s3\<lparr>mem := set_topLevel pageMap root (mem s3)\<rparr>
           in if topLevel (mem s4) pageMap = NULL
              then (NULL, pmm_freepage (VIRTUAL_TO_PHYSICAL s4 pageMap)
                            (logln Lg_err ''vmm'' ''Allocation failed!\<newline>'' [] s4))
              else let s5 = s4\<lparr>mem := zero_page (topLevel (mem s4) pageMap) (mem s4)\<rparr>;
                       (vma, s6) = alloc_virtual s5;
                       s7 = s6\<lparr>mem := set_vmaHead pageMap vma (mem s6)\<rparr>
                   in if vmaHead (mem s7) pageMap = NULL
                      then (NULL, pmm_freepage (VIRTUAL_TO_PHYSICAL s7 pageMap)
                             (pmm_freepage (VIRTUAL_TO_PHYSICAL s7 (topLevel (mem s7) pageMap))
                               (logln Lg_err ''vmm'' ''Allocation failed!\<newline>'' [] s7)))
                      else let m8 = zero_page (vmaHead (mem s7) pageMap) (mem s7);
                               m9 = vma_self_loop pageMap m8
                           in (pageMap, s7\<lparr>mem := copy_kernel_half pageMap (vmm_kernel_pagemap s7) m9\<rparr>))"

text \<open>
  The mapping loops of \<open>vmm_init\<close>.  Their address wraps at \<open>2 ^ 64\<close>, so whether they end depends on
  the bounds: the loops are partial functions, and that they return is a theorem.
\<close>

partial_function (option) map_section ::
    "u64 \<Rightarrow> u64 \<Rightarrow> u64 \<Rightarrow> u64 \<Rightarrow> u64 \<Rightarrow> 'a vmm_scheme \<Rightarrow> 'a vmm_scheme option" where
  "map_section a stop virtBase physBase flags s =
     (if a < stop
      then map_section (a + PAGE_SIZE) stop virtBase physBase flags
             (vmm_map (vmm_kernel_pagemap s) a (a - virtBase + physBase) flags s)
      else Some s)"

partial_function (option) map_low :: "u64 \<Rightarrow> u64 \<Rightarrow> 'a vmm_scheme \<Rightarrow> 'a vmm_scheme option" where
  "map_low gb4 stop s =
     (if gb4 < stop
      then let s1 = vmm_map (vmm_kernel_pagemap s) gb4 gb4 (1 OR 2) s;
               s2 = vmm_map (vmm_kernel_pagemap s1) (PHYSICAL_TO_VIRTUAL s1 gb4) gb4 (1 OR 2) s1
           in map_low (gb4 + PAGE_SIZE) stop s2
      else Some s)"

definition ALIGN_DOWN :: "u64 \<Rightarrow> u64 \<Rightarrow> u64" where "ALIGN_DOWN x y = (x div y) * y"
definition DIV_ROUND_UP :: "u64 \<Rightarrow> u64 \<Rightarrow> u64" where "DIV_ROUND_UP x y = (x + (y - 1)) div y"
definition ALIGN_UP :: "u64 \<Rightarrow> u64 \<Rightarrow> u64" where "ALIGN_UP x y = DIV_ROUND_UP x y * y"

text \<open>The part of \<open>vmm_init\<close> that builds the empty kernel page map, and the whole of it.\<close>

definition vmm_init_tables :: "'a vmm_scheme \<Rightarrow> 'a vmm_scheme" where
  "vmm_init_tables s =
     (let (kpm, s1) = alloc_virtual s;
          s2 = s1\<lparr>vmm_kernel_pagemap := kpm, mem := zero_page kpm (mem s1)\<rparr>;
          (root, s3) = alloc_virtual s2;
          m3 = set_topLevel kpm root (mem s3);
          s4 = s3\<lparr>mem := zero_page (topLevel m3 kpm) m3\<rparr>;
          (vma, s5) = alloc_virtual s4;
          m5 = set_vmaHead kpm vma (mem s5);
          m6 = zero_page (vmaHead m5 kpm) m5
      in s5\<lparr>mem := vma_self_loop kpm m6\<rparr>)"

definition vmm_init :: "linker_symbols \<Rightarrow> 'a vmm_scheme \<Rightarrow> 'a vmm_scheme option" where
  "vmm_init ld s =
     (let s1 = vmm_init_tables (logln Lg_info ''vmm'' ''Creating the kernel page map...\<newline>'' [] s);
          physBase = kernel_phys_addr s1; virtBase = kernel_virt_addr s1;
          textStart = ALIGN_DOWN (text_start_ld ld) PAGE_SIZE;
          textEnd = ALIGN_UP (text_end_ld ld) PAGE_SIZE;
          roDataStart = ALIGN_DOWN (rodata_start_ld ld) PAGE_SIZE;
          roDataEnd = ALIGN_UP (rodata_end_ld ld) PAGE_SIZE;
          dataStart = ALIGN_DOWN (data_start_ld ld) PAGE_SIZE;
          dataEnd = ALIGN_UP (data_end_ld ld) PAGE_SIZE
      in Option.bind (map_section textStart textEnd virtBase physBase 1
           (logln Lg_info ''vmm'' ''Mapping .text section...\<newline>'' [] s1)) (\<lambda>s2.
         Option.bind (map_section roDataStart roDataEnd virtBase physBase (1 OR push_bit 63 1)
           (logln Lg_info ''vmm'' ''Mapping .rodata section...\<newline>'' [] s2)) (\<lambda>s3.
         Option.bind (map_section dataStart dataEnd virtBase physBase (1 OR 2 OR push_bit 63 1)
           (logln Lg_info ''vmm'' ''Mapping .data section...\<newline>'' [] s3)) (\<lambda>s4.
         Option.bind (map_low 0 0x100000000
           (logln Lg_info ''vmm'' ''Mapping address from 0x0 to 0x100000000...\<newline>'' [] s4)) (\<lambda>s5.
         Some (logln Lg_progress ''vmm'' ''Initialized!\<newline>'' []
           (vmm_load_pagemap (vmm_kernel_pagemap s5) s5)))))))"

section \<open>The translation a table stands for\<close>

text \<open>
  \<open>walk m h a is\<close> follows the present entries with indices \<open>is\<close> from the table at \<open>a\<close>, as the
  processor does, with tables at their direct-map address (offset \<open>h\<close>).  \<open>pte m h a k\<close> is the entry
  that the four indices \<open>k\<close> lead to, if it is present.
\<close>

fun walk :: "mem \<Rightarrow> u64 \<Rightarrow> ptr \<Rightarrow> u64 list \<Rightarrow> ptr option" where
  "walk m h a [] = Some a"
| "walk m h a (i # is) =
     (if entry m a i AND 1 \<noteq> 0 then walk m h (PTE_GET_ADDR (entry m a i) + h) is else None)"

definition present :: "u64 \<Rightarrow> u64 option" where
  "present e = (if e AND 1 \<noteq> 0 then Some e else None)"

definition indices :: "nat \<Rightarrow> u64 list set" where
  "indices n = {is. length is = n \<and> (\<forall>i \<in> set is. i < 512)}"

definition table_paths :: "u64 list set" where
  "table_paths = {is. length is < 4 \<and> (\<forall>i \<in> set is. i < 512)}"

definition pte :: "mem \<Rightarrow> u64 \<Rightarrow> ptr \<Rightarrow> u64 list \<Rightarrow> u64 option" where
  "pte m h a k = (if k \<in> indices 4
     then Option.bind (walk m h a (butlast k)) (\<lambda>t. present (entry m t (last k))) else None)"

definition key :: "u64 \<Rightarrow> u64 list" where
  "key va = [drop_bit 39 va AND 0x1ff, drop_bit 30 va AND 0x1ff,
     drop_bit 21 va AND 0x1ff, drop_bit 12 va AND 0x1ff]"

lemma index_bound: "x AND 0x1ff < 512" for x :: u64
proof -
  have "x AND 0x1ff \<le> 0x1ff" by (rule word_and_le1)
  then show ?thesis by (rule le_less_trans) simp
qed

lemma key_indices [simp]: "key va \<in> indices 4"
  by (simp add: key_def indices_def index_bound)

lemma walk_append:
  "walk m h a (is @ js) = Option.bind (walk m h a is) (\<lambda>t. walk m h t js)"
  by (induction "is" arbitrary: a) auto

lemma walk_snoc:
  "walk m h a (is @ [i]) = Option.bind (walk m h a is)
     (\<lambda>t. if entry m t i AND 1 \<noteq> 0 then Some (PTE_GET_ADDR (entry m t i) + h) else None)"
  by (simp add: walk_append cong: if_cong)

section \<open>Pages and entries\<close>

definition page_addr :: "u64 \<Rightarrow> ptr \<Rightarrow> bool" where
  "page_addr h a \<longleftrightarrow> unat a mod 4096 = 0 \<and> unat (a - h) mod 4096 = 0 \<and> unat (a - h) < 2 ^ 52"

lemma bit_unat: "bit x n \<Longrightarrow> bit (unat x) n" for x :: u64
  by (auto simp: bit_unsigned_iff dest: bit_imp_le_length)

lemma aligned_bit: "unat x mod 4096 = 0 \<Longrightarrow> bit x n \<Longrightarrow> 12 \<le> n" for x :: u64
proof (rule ccontr)
  assume x: "unat x mod 4096 = 0" "bit x n" "\<not> 12 \<le> n"
  have "take_bit 12 (unat x) = unat x mod 4096" by (simp add: take_bit_eq_mod)
  moreover have "bit (take_bit 12 (unat x)) n"
    using bit_unat[OF x(2)] x(3) by (simp only: bit_take_bit_iff not_le)
  ultimately show False using x(1) by simp
qed

lemma small_bit: "unat x < 2 ^ k \<Longrightarrow> bit x n \<Longrightarrow> n < k" for x :: u64
proof (rule ccontr)
  assume x: "unat x < 2 ^ k" "bit x n" "\<not> n < k"
  then have "take_bit k (unat x) = unat x" by (simp add: take_bit_nat_eq_self)
  moreover have "\<not> bit (take_bit k (unat x)) n" using x(3) by (simp add: bit_take_bit_iff)
  ultimately show False using bit_unat[OF x(2)] by simp
qed

lemma PTE_ADDR_MASK_bits: "PTE_ADDR_MASK = push_bit 12 (mask 40)"
  by (simp add: PTE_ADDR_MASK_def mask_eq_exp_minus_1 push_bit_eq_mult)

lemma PTE_GET_ADDR_entry:
  assumes "unat x mod 4096 = 0" and "unat x < 2 ^ 52"
  shows "PTE_GET_ADDR (x OR 1 OR 2 OR 3) = x"
proof (rule bit_word_eqI)
  fix n :: nat
  assume n: "n < LENGTH(64)"
  have low: "x OR 1 OR 2 OR 3 = x OR mask 2" by (simp add: mask_eq_exp_minus_1)
  show "bit (PTE_GET_ADDR (x OR 1 OR 2 OR 3)) n = bit x n"
    unfolding PTE_GET_ADDR_def low PTE_ADDR_MASK_bits
    using aligned_bit[OF assms(1), of n] small_bit[OF assms(2), of n] n
    by (auto simp: bit_and_iff bit_or_iff bit_mask_iff
        bit_push_bit_iff)
qed

lemma entry_present: "(x OR 1 OR 2 OR 3) AND 1 \<noteq> 0" for x :: u64
proof -
  have "bit ((x OR 1 OR 2 OR 3) AND 1) 0" 
    by (simp only: bit_and_iff bit_or_iff bit_1_iff simp_thms)
  then show ?thesis by (metis bit_0_eq bot_apply bot_bool_def)
qed

lemma unat_index: "i < 512 \<Longrightarrow> unat (8 * i) = 8 * unat i" for i :: u64
proof -
  assume "i < 512"
  then have "unat i < 512" by (simp add: word_less_nat_alt)
  moreover have "unat (8 * i) = (8 * unat i) mod 2 ^ 64" by (simp only: unat_word_ariths) simp
  ultimately show ?thesis by simp
qed

lemma entry_range: "i < 512 \<Longrightarrow> unat (8 * i) + 8 \<le> 4096" for i :: u64
  by (simp add: unat_index word_less_nat_alt)

text \<open>Reads of an entry after the writes the operations make.\<close>

lemma entry_other_page:
  assumes "disj_range a 4096 b 4096" and "i < 512" and "j < 512"
  shows "entry (set_entry a i v m) b j = entry m b j"
  using disj_range_fields[OF assms(1) entry_range[OF assms(2)] entry_range[OF assms(3)]]
  by (simp add: entry_def set_entry_def mem_simps)

lemma entry_same: "entry (set_entry a i v m) a i = v"
  by (simp add: entry_def set_entry_def)

lemma entry_other_index:
  assumes "i < 512" and "j < 512" and "i \<noteq> j"
  shows "entry (set_entry a i v m) a j = entry m a j"
proof -
  have "unat i \<noteq> unat j" using assms(3) unsigned_word_eqI by blast
  then have "disj_range (8 * i) 8 (8 * j) 8"
    using entry_range[OF assms(1)] entry_range[OF assms(2)]
    by (intro disj_range_nowrap) (auto simp: unat_index assms(1,2))
  then show ?thesis by (simp add: entry_def set_entry_def mem_simps)
qed

lemma entry_zero_page: "j < 512 \<Longrightarrow> entry (zero_page p m) p j = 0"
  using entry_range[of j] by (simp add: entry_def zero_page_def load64_memset_zero PAGE_SIZE_def)

lemma entry_zero_other:
  assumes "disj_range p 4096 b 4096" and "j < 512"
  shows "entry (zero_page p m) b j = entry m b j"
proof -
  have "disj_range p (unat PAGE_SIZE) (b + 8 * j) 8"
    using disj_range_fields[OF assms(1), of 0 4096] entry_range[OF assms(2)]
    by (simp add: PAGE_SIZE_def)
  then show ?thesis by (simp add: entry_def zero_page_def load64_memset_disj)
qed

section \<open>The shape of a page table\<close>

text \<open>
  The tables reachable from the top level form a tree of pages, none of which is one of the pages
  \<open>F\<close> the allocator has left (seen through the direct map).
\<close>

definition tree_ok :: "mem \<Rightarrow> u64 \<Rightarrow> ptr \<Rightarrow> ptr set \<Rightarrow> bool" where
  "tree_ok m h root F \<longleftrightarrow>
     (\<forall>p \<in> table_paths. \<forall>a. walk m h root p = Some a \<longrightarrow> page_addr h a \<and> a \<notin> F)
   \<and> (\<forall>p \<in> table_paths. \<forall>q \<in> table_paths. \<forall>a.
        walk m h root p = Some a \<longrightarrow> walk m h root q = Some a \<longrightarrow> p = q)
   \<and> (\<forall>a \<in> F. page_addr h a)"

lemma tree_okD:
  assumes "tree_ok m h root F"
  shows "p \<in> table_paths \<Longrightarrow> walk m h root p = Some a \<Longrightarrow> page_addr h a"
    and "p \<in> table_paths \<Longrightarrow> walk m h root p = Some a \<Longrightarrow> a \<notin> F"
    and "p \<in> table_paths \<Longrightarrow> q \<in> table_paths \<Longrightarrow> walk m h root p = Some a \<Longrightarrow>
      walk m h root q = Some a \<Longrightarrow> p = q"
    and "a \<in> F \<Longrightarrow> page_addr h a"
  using assms by (simp_all add: tree_ok_def)

lemma page_addr_aligned: "page_addr h a \<Longrightarrow> unat a mod 4096 = 0"
  by (simp add: page_addr_def)

lemma table_paths_snoc: "r @ [j] \<in> table_paths \<longleftrightarrow> r \<in> table_paths \<and> length r < 3 \<and> j < 512"
  by (auto simp: table_paths_def)

lemma table_paths_Nil [simp]: "[] \<in> table_paths"
  by (simp add: table_paths_def)

lemma indices_4_snoc: "k \<in> indices 4 \<longleftrightarrow>
    k \<noteq> [] \<and> butlast k \<in> table_paths \<and> length (butlast k) = 3 \<and> last k < 512"
  by (cases k rule: rev_cases) (auto simp: indices_def table_paths_def)

lemma tables_disj:
  assumes "tree_ok m h root F" and "p \<in> table_paths" "walk m h root p = Some a"
    and "q \<in> table_paths" "walk m h root q = Some b" and "p \<noteq> q"
  shows "disj_range a 4096 b 4096"
  using tree_okD(1,3)[OF assms(1)] assms(2-) page_disj page_addr_aligned by metis

lemma table_free_disj:
  assumes "tree_ok m h root F" and "p \<in> table_paths" "walk m h root p = Some a" and "f \<in> F"
  shows "disj_range f 4096 a 4096"
  using tree_okD(1,2,4)[OF assms(1)] assms(2-) page_disj page_addr_aligned by metis

text \<open>Hanging a fresh zeroed page below table \<open>p\<close>, as \<open>__vmm_get_next_lvl\<close> does.\<close>

definition hang :: "u64 \<Rightarrow> ptr \<Rightarrow> u64 \<Rightarrow> ptr \<Rightarrow> mem \<Rightarrow> mem" where
  "hang h t i a m = set_entry t i ((a - h) OR 1 OR 2 OR 3) (zero_page a m)"

lemma hang_entries:
  assumes "tree_ok m h root F" and "p \<in> table_paths" "walk m h root p = Some t" "i < 512" and "a \<in> F"
  shows "j < 512 \<Longrightarrow> entry (hang h t i a m) a j = 0"
    and "r \<in> table_paths \<Longrightarrow> walk m h root r = Some b \<Longrightarrow> j < 512 \<Longrightarrow> entry (hang h t i a m) b j =
      (if r = p \<and> j = i then (a - h) OR 1 OR 2 OR 3 else entry m b j)"
proof -
  note at = table_free_disj[OF assms(1,2,3,5)]
  show "entry (hang h t i a m) a j = 0" if "j < 512"
    using at that assms(4)
    by (simp add: hang_def entry_other_page disj_range_sym entry_zero_page)
  assume r: "r \<in> table_paths" "walk m h root r = Some b" and j: "j < 512"
  show "entry (hang h t i a m) b j =
      (if r = p \<and> j = i then (a - h) OR 1 OR 2 OR 3 else entry m b j)"
  proof (cases "r = p")
    case True
    then have "b = t" using r assms(3) by simp
    with True at j assms(4) show ?thesis
      by (simp add: hang_def entry_same entry_other_index entry_zero_other)
  next
    case False
    with tables_disj[OF assms(1,2,3) r] table_free_disj[OF assms(1) r assms(5)] j assms(4)
    show ?thesis by (simp add: hang_def entry_other_page entry_zero_other)
  qed
qed

lemma hang_walk:
  assumes "tree_ok m h root F" and "p \<in> table_paths" "walk m h root p = Some t" "i < 512" and "a \<in> F"
    and "entry m t i AND 1 = 0" and "r \<in> table_paths"
  shows "walk (hang h t i a m) h root r = (if r = p @ [i] then Some a else walk m h root r)"
  using assms(7)
proof (induction r rule: rev_induct)
  case Nil
  then show ?case by simp
next
  case (snoc j r)
  let ?m = "hang h t i a m"
  have r: "r \<in> table_paths" "j < 512" using snoc.prems by (simp_all add: table_paths_snoc)
  note IH = snoc.IH[OF r(1)]
  have new: "walk m h root (p @ [i]) = None" using assms(3,6) by (simp add: walk_snoc)
  show ?case
  proof (cases "r = p @ [i]")
    case True
    then have "walk m h root (r @ [j]) = None" and ne: "r @ [j] \<noteq> p @ [i]"
      using new walk_append[of m h root r "[j]"] by simp_all
    moreover have "walk ?m h root r = Some a" using IH True by simp
    then have "walk ?m h root (r @ [j]) = None"
      using hang_entries(1)[OF assms(1-5) r(2)] by (simp only: walk_snoc) simp
    ultimately show ?thesis by (simp only: if_not_P[OF ne] if_False)
  next
    case False
    show ?thesis
    proof (cases "walk m h root r")
      case None
      with False IH assms(3) show ?thesis by (auto simp: walk_snoc)
    next
      case (Some b)
      have a: "PTE_GET_ADDR ((a - h) OR 1 OR 2 OR 3) + h = a"
        using tree_okD(4)[OF assms(1,5)] by (simp only: PTE_GET_ADDR_entry page_addr_def) simp
      have e: "entry ?m b j = (if r = p \<and> j = i then (a - h) OR 1 OR 2 OR 3 else entry m b j)"
        using hang_entries(2)[OF assms(1-5) r(1) Some r(2)] .
      show ?thesis
      proof (cases "r = p \<and> j = i")
        case True
        with False Some IH e show ?thesis
          by (simp only: walk_snoc bind.bind_lunit if_True entry_present a simp_thms if_not_P not_False_eq_True)
      next
        case not: False
        with False Some IH e show ?thesis by (auto simp: walk_snoc)
      qed
    qed
  qed
qed


lemma hang_pte:
  assumes "tree_ok m h root F" and "p \<in> table_paths" "walk m h root p = Some t" "i < 512" and "a \<in> F"
    and "entry m t i AND 1 = 0" and "length p < 3"
  shows "pte (hang h t i a m) h root k = pte m h root k"
proof (cases "k \<in> indices 4")
  case True
  let ?m = "hang h t i a m" and ?r = "butlast k"
  have r: "?r \<in> table_paths" "length ?r = 3" "last k < 512"
    using True by (simp_all add: indices_4_snoc)
  have new: "walk m h root (p @ [i]) = None" using assms(3,6) by (simp add: walk_snoc)
  show ?thesis
  proof (cases "?r = p @ [i]")
    case True
    then have "walk ?m h root ?r = Some a" "walk m h root ?r = None"
      using hang_walk[OF assms(1-6) r(1)] new by simp_all
    then show ?thesis
      using hang_entries(1)[OF assms(1-5) r(3)] by (simp add: pte_def present_def)
  next
    case False
    then have w: "walk ?m h root ?r = walk m h root ?r" using hang_walk[OF assms(1-6) r(1)] by simp
    have "?r \<noteq> p" using r(2) assms(7) by auto
    with w hang_entries(2)[OF assms(1-5) r(1) _ r(3)] show ?thesis
      by (cases "walk m h root ?r") (simp_all add: pte_def)
  qed
qed (simp add: pte_def)

lemma hang_tree:
  assumes "tree_ok m h root F" and "p \<in> table_paths" "walk m h root p = Some t" "i < 512" and "a \<in> F"
    and "entry m t i AND 1 = 0"
  shows "tree_ok (hang h t i a m) h root (F - {a})"
proof -
  note w = hang_walk[OF assms] and T = tree_okD[OF assms(1)]
  show ?thesis
    unfolding tree_ok_def
  proof (intro conjI ballI allI impI)
    fix q b assume q: "q \<in> table_paths" "walk (hang h t i a m) h root q = Some b"
    then show "page_addr h b" "b \<notin> F - {a}"
      using w[OF q(1)] T(1,2)[of q b] T(4)[OF assms(5)] by (auto split: if_splits)
    fix r assume r: "r \<in> table_paths" "walk (hang h t i a m) h root r = Some b"
    show "q = r"
      using q r w[OF q(1)] w[OF r(1)] T(2)[of q b] T(2)[of r b] T(3)[of q r b] assms(5)
      by (auto split: if_splits)
  qed (use T(4) in auto)
qed

text \<open>Writing a leaf entry changes that translation and no table.\<close>

lemma leaf_walk:
  assumes "tree_ok m h root F" and "p \<in> table_paths" "walk m h root p = Some t" "i < 512"
    and "length p = 3" and "r \<in> table_paths"
  shows "walk (set_entry t i e m) h root r = walk m h root r"
  using assms(6)
proof (induction r rule: rev_induct)
  case (snoc j r)
  then have r: "r \<in> table_paths" "length r < 3" "j < 512" by (simp_all add: table_paths_snoc)
  have "r \<noteq> p" using r(2) assms(5) by auto
  with tables_disj[OF assms(1,2,3) r(1)] have
    "entry (set_entry t i e m) b j = entry m b j" if "walk m h root r = Some b" for b
    using that assms(4) r(3) by (simp add: entry_other_page)
  with snoc.IH[OF r(1)] show ?case by (cases "walk m h root r") (simp_all add: walk_snoc)
qed simp

lemma leaf_pte:
  assumes "tree_ok m h root F" and "p \<in> table_paths" "walk m h root p = Some t" "i < 512"
    and "length p = 3"
  shows "pte (set_entry t i e m) h root = (pte m h root)(p @ [i] := present e)"
proof
  fix k
  show "pte (set_entry t i e m) h root k = ((pte m h root)(p @ [i] := present e)) k"
  proof (cases "k \<in> indices 4")
    case False
    then have "k \<noteq> p @ [i]" using assms(2,4,5) by (auto simp: indices_4_snoc)
    with False show ?thesis by (simp add: pte_def)
  next
    case True
    then have r: "butlast k \<in> table_paths" "length (butlast k) = 3" "last k < 512" and
      k: "k = butlast k @ [last k]" by (simp_all add: indices_4_snoc)
    note w = leaf_walk[OF assms r(1), of e]
    show ?thesis
    proof (cases "butlast k = p")
      case same: True
      then have "k = p @ [i] \<longleftrightarrow> last k = i" using k by (metis last_snoc)
      with same True w assms(3,4) r(3) show ?thesis
        by (auto simp: pte_def entry_same entry_other_index)
    next
      case False
      then have "k \<noteq> p @ [i]" by auto
      have "entry (set_entry t i e m) b (last k) = entry m b (last k)"
        if "walk m h root (butlast k) = Some b" for b
        using tables_disj[OF assms(1,2,3) r(1) that] False assms(4) r(3)
        by (simp add: entry_other_page)
      with True w \<open>k \<noteq> p @ [i]\<close> show ?thesis
        by (cases "walk m h root (butlast k)") (simp_all add: pte_def)
    qed
  qed
qed

lemma leaf_tree:
  assumes "tree_ok m h root F" and "p \<in> table_paths" "walk m h root p = Some t" "i < 512"
    and "length p = 3"
  shows "tree_ok (set_entry t i e m) h root F"
  using assms(1) by (simp add: tree_ok_def leaf_walk[OF assms])


section \<open>The invariant of an address space\<close>

definition table_at :: "ptr \<Rightarrow> 'a vmm_scheme \<Rightarrow> u64 list \<Rightarrow> ptr option" where
  "table_at pm s = walk (mem s) (hhdm_off s) (topLevel (mem s) pm)"

definition translation :: "ptr \<Rightarrow> 'a vmm_scheme \<Rightarrow> u64 list \<Rightarrow> u64 option" where
  "translation pm s = pte (mem s) (hhdm_off s) (topLevel (mem s) pm)"

definition tables_of :: "ptr \<Rightarrow> 'a vmm_scheme \<Rightarrow> u64 list set" where
  "tables_of pm s = {p \<in> table_paths. table_at pm s p \<noteq> None}"

definition virtual_free :: "'a vmm_scheme \<Rightarrow> ptr set" where
  "virtual_free s = (\<lambda>p. p + hhdm_off s) ` set (free_pages s)"

text \<open>The pages an address space may write: its tables and what the allocator has left.\<close>

definition space_pages :: "ptr \<Rightarrow> 'a vmm_scheme \<Rightarrow> ptr set" where
  "space_pages pm s = {a. \<exists>p \<in> table_paths. table_at pm s p = Some a} \<union> virtual_free s"

definition vm_inv :: "ptr \<Rightarrow> 'a vmm_scheme \<Rightarrow> bool" where
  "vm_inv pm s \<longleftrightarrow> pmm_ok s \<and> distinct (free_pages s)
     \<and> tree_ok (mem s) (hhdm_off s) (topLevel (mem s) pm) (virtual_free s)
     \<and> (\<forall>a \<in> space_pages pm s. disj_range a 4096 pm 16)"

text \<open>What a step of the page-table code leaves alone.\<close>

definition vm_frame :: "ptr \<Rightarrow> 'a vmm_scheme \<Rightarrow> 'a vmm_scheme \<Rightarrow> bool" where
  "vm_frame pm s s' \<longleftrightarrow> hhdm_off s' = hhdm_off s \<and> vmm.more s' = vmm.more s
     \<and> vmm_kernel_pagemap s' = vmm_kernel_pagemap s \<and> vmm_current_pagemap s' = vmm_current_pagemap s
     \<and> kernel_phys_addr s' = kernel_phys_addr s \<and> kernel_virt_addr s' = kernel_virt_addr s
     \<and> trace s' = trace s \<and> dev s' = dev s \<and> pmm_free_blocks s' = pmm_free_blocks s
     \<and> topLevel (mem s') pm = topLevel (mem s) pm \<and> space_pages pm s' = space_pages pm s
     \<and> (\<forall>x. (\<forall>a \<in> space_pages pm s. \<not> in_range a 4096 x) \<longrightarrow> mem s' x = mem s x)"

lemma vm_frame_refl: "vm_frame pm s s"
  by (simp add: vm_frame_def)

lemma vm_frame_trans: "vm_frame pm s t \<Longrightarrow> vm_frame pm t u \<Longrightarrow> vm_frame pm s u"
  by (simp add: vm_frame_def)

text \<open>An allocation touches nothing but the allocator's own fields.\<close>

lemma allocpage_frame [frame_simps]:
  fixes s :: "'a vmm_scheme"
  assumes "pmm_ok s"
  shows "hhdm_off (snd (pmm_allocpage s)) = hhdm_off s" "vmm.more (snd (pmm_allocpage s)) = vmm.more s"
    "vmm_kernel_pagemap (snd (pmm_allocpage s)) = vmm_kernel_pagemap s"
    "vmm_current_pagemap (snd (pmm_allocpage s)) = vmm_current_pagemap s"
    "kernel_phys_addr (snd (pmm_allocpage s)) = kernel_phys_addr s"
    "kernel_virt_addr (snd (pmm_allocpage s)) = kernel_virt_addr s"
    "mem (snd (pmm_allocpage s)) = mem s" "trace (snd (pmm_allocpage s)) = trace s"
    "dev (snd (pmm_allocpage s)) = dev s"
    "pmm_free_blocks (snd (pmm_allocpage s)) = pmm_free_blocks s"
  using assms by (simp_all add: pmm_allocpage_def pmm_ok_def Let_def)

lemma pmm_fields_mem_update [simp]:
  "pmm_ok (s\<lparr>mem := m\<rparr>) = pmm_ok s" "free_pages (s\<lparr>mem := m\<rparr>) = free_pages s"
  for s :: "'a pmm_scheme"
  by (simp_all add: pmm_ok_def free_pages_def)


section \<open>One level down\<close>

lemma set_entry_outside:
  assumes "i < 512" and "\<not> in_range t 4096 x"
  shows "set_entry t i v m x = m x"
proof -
  have "\<not> in_range (t + 8 * i) 8 x"
    using assms(2) in_range_shift[of "t + 8 * i" 8 x t 4096] entry_range[OF assms(1)] by auto
  then show ?thesis by (simp add: set_entry_def store64_other)
qed

lemma zero_page_outside: "\<not> in_range a 4096 x \<Longrightarrow> zero_page a m x = m x"
  by (simp add: zero_page_def memset_apply PAGE_SIZE_def)

lemma hang_outside:
  "i < 512 \<Longrightarrow> \<not> in_range t 4096 x \<Longrightarrow> \<not> in_range a 4096 x \<Longrightarrow> hang h t i a m x = m x"
  by (simp add: hang_def set_entry_outside zero_page_outside)

lemma topLevel_same:
  assumes "\<And>x. in_range pm 16 x \<Longrightarrow> m' x = m x"
  shows "topLevel m' pm = topLevel m pm"
  unfolding topLevel_def using assms by (intro load64_cong) (simp add: in_range_def)

lemma table_in_space: "p \<in> table_paths \<Longrightarrow> table_at pm s p = Some t \<Longrightarrow> t \<in> space_pages pm s"
  by (auto simp: space_pages_def)

lemma space_apart:
  assumes "vm_inv pm s" and "a \<in> space_pages pm s" and "in_range pm 16 x"
  shows "\<not> in_range a 4096 x"
  using assms disj_rangeD unfolding vm_inv_def by blast

lemma get_next_lvl_alloc:
  assumes "vm_inv pm s" and "free_pages s = q # qs" and "entry (mem s) t i AND 1 = 0"
  shows "fst (vmm_get_next_lvl t i s) = q + hhdm_off s"
    and "mem (snd (vmm_get_next_lvl t i s)) = hang (hhdm_off s) t i (q + hhdm_off s) (mem s)"
    and "free_pages (snd (vmm_get_next_lvl t i s)) = qs"
    and "pmm_ok (snd (vmm_get_next_lvl t i s))"
proof -
  have ok: "pmm_ok s" using assms(1) by (simp add: vm_inv_def)
  have a: "pmm_allocpage s = (q, snd (pmm_allocpage s))"
    using pg.fst_alloc[OF ok] assms(2) by (simp add: prod_eq_iff)
  note f = allocpage_frame[OF ok] pg.pages_alloc[OF ok] pg.inv_alloc[OF ok]
  have step: "vmm_get_next_lvl t i s = (q + hhdm_off s, (snd (pmm_allocpage s))
      \<lparr>mem := hang (hhdm_off s) t i (q + hhdm_off s) (mem s)\<rparr>)"
    using assms(3) f by (subst vmm_get_next_lvl_def, subst a)
      (simp add: PHYSICAL_TO_VIRTUAL_def VIRTUAL_TO_PHYSICAL_def hang_def Let_def)
  show "fst (vmm_get_next_lvl t i s) = q + hhdm_off s"
    "mem (snd (vmm_get_next_lvl t i s)) = hang (hhdm_off s) t i (q + hhdm_off s) (mem s)"
    "free_pages (snd (vmm_get_next_lvl t i s)) = qs" "pmm_ok (snd (vmm_get_next_lvl t i s))"
    using f assms(2) by (simp_all add: step)
qed

lemma get_next_lvl_static:
  assumes "pmm_ok s" and "vmm_get_next_lvl t i s = (t', s')"
  shows "hhdm_off s' = hhdm_off s" "vmm.more s' = vmm.more s"
    "vmm_kernel_pagemap s' = vmm_kernel_pagemap s" "vmm_current_pagemap s' = vmm_current_pagemap s"
    "kernel_phys_addr s' = kernel_phys_addr s" "kernel_virt_addr s' = kernel_virt_addr s"
    "trace s' = trace s" "dev s' = dev s" "pmm_free_blocks s' = pmm_free_blocks s"
  using assms(2) allocpage_frame[OF assms(1)]
  by (auto simp: vmm_get_next_lvl_def Let_def split_beta split: if_splits)

lemma next_lvl:
  assumes inv: "vm_inv pm s" and p: "p \<in> table_paths" "length p < 3" "table_at pm s p = Some t"
    and i: "i < 512" and room: "card ({p @ [i]} - tables_of pm s) \<le> length (free_pages s)"
    and step: "vmm_get_next_lvl t i s = (t', s')"
  shows "vm_inv pm s' \<and> vm_frame pm s s' \<and> table_at pm s' (p @ [i]) = Some t'
    \<and> translation pm s' = translation pm s \<and> tables_of pm s' = insert (p @ [i]) (tables_of pm s)
    \<and> length (free_pages s) = length (free_pages s') + card ({p @ [i]} - tables_of pm s)"
proof (cases "entry (mem s) t i AND 1 = 0")
  case False
  then have s': "s' = s" "t' = PTE_GET_ADDR (entry (mem s) t i) + hhdm_off s"
    using step by (auto simp: vmm_get_next_lvl_def PHYSICAL_TO_VIRTUAL_def)
  have at: "table_at pm s (p @ [i]) = Some t'"
    using False p(3) s'(2) by (simp add: table_at_def walk_snoc)
  moreover have "p @ [i] \<in> table_paths" using p i by (simp add: table_paths_snoc)
  ultimately have "p @ [i] \<in> tables_of pm s" by (simp add: tables_of_def)
  with at inv s'(1) show ?thesis by (simp add: vm_frame_refl insert_absorb)
next
  case True
  let ?h = "hhdm_off s" and ?r = "topLevel (mem s) pm"
  have tree: "tree_ok (mem s) ?h ?r (virtual_free s)" and ok: "pmm_ok s" and d: "distinct (free_pages s)"
    using inv by (simp_all add: vm_inv_def)
  have new: "table_at pm s (p @ [i]) = None" using True p(3) by (simp add: table_at_def walk_snoc)
  have path: "p @ [i] \<in> table_paths" using p i by (simp add: table_paths_snoc)
  have nt: "p @ [i] \<notin> tables_of pm s" using new by (simp add: tables_of_def)
  with room have "free_pages s \<noteq> []" by auto
  then obtain q qs where q: "free_pages s = q # qs" by (cases "free_pages s") auto
  define a where "a = q + ?h"
  have aF: "a \<in> virtual_free s" by (simp add: virtual_free_def q a_def)
  note alloc = get_next_lvl_alloc[OF inv q True, unfolded step fst_conv snd_conv, folded a_def]
  note static = get_next_lvl_static[OF ok step]
  have vf: "virtual_free s' = virtual_free s - {a}"
    using d by (auto simp: virtual_free_def static alloc q a_def)
  have w: "walk (mem s) ?h ?r p = Some t" using p(3) by (simp add: table_at_def)
  note h = tree p(1) w i aF True
  have tin: "t \<in> space_pages pm s" using table_in_space p(1,3) by blast
  have ain: "a \<in> space_pages pm s" using aF by (simp add: space_pages_def)
  have out: "mem s' x = mem s x" if "\<not> in_range t 4096 x" "\<not> in_range a 4096 x" for x
    using that by (simp add: alloc hang_outside i)
  have root: "topLevel (mem s') pm = ?r"
    using space_apart[OF inv tin] space_apart[OF inv ain] by (intro topLevel_same out) auto
  note root' = root[unfolded alloc(2)]
  have tab: "table_at pm s' r = (if r = p @ [i] then Some a else table_at pm s r)"
    if "r \<in> table_paths" for r
    using hang_walk[OF h that] by (simp add: table_at_def root' static alloc)
  have sp: "space_pages pm s' = space_pages pm s"
  proof -
    have "{b. \<exists>r \<in> table_paths. table_at pm s' r = Some b}
        = insert a {b. \<exists>r \<in> table_paths. table_at pm s r = Some b}"
      using tab path new by (auto split: if_splits) (metis option.distinct(1))
    then show ?thesis using aF by (auto simp: space_pages_def vf)
  qed
  have "tables_of pm s' = insert (p @ [i]) (tables_of pm s)"
    using tab path by (auto simp: tables_of_def split: if_splits)
  moreover have "vm_inv pm s'"
    using inv hang_tree[OF h] d by (simp add: vm_inv_def root' static alloc sp vf q)
  moreover have "vm_frame pm s s'"
    using out tin ain by (simp add: vm_frame_def static root sp)
  moreover have "translation pm s' = translation pm s"
    using hang_pte[OF h p(2)] by (auto simp: translation_def root' static alloc)
  ultimately show ?thesis
    using tab[OF path] alloc nt by (simp add: q insert_Diff_if)
qed


section \<open>Writing the entry of a virtual page\<close>

text \<open>
  \<open>vmm_map\<close> and \<open>vmm_unmap\<close> are the same walk with a different last store; the walk needs one page
  for each table of the path that is missing.
\<close>

definition put_entry :: "ptr \<Rightarrow> u64 \<Rightarrow> u64 \<Rightarrow> 'a vmm_scheme \<Rightarrow> 'a vmm_scheme" where
  "put_entry pm vaddr e s =
     (let (pml3, s1) = vmm_get_next_lvl (topLevel (mem s) pm) (key vaddr ! 0) s;
          (pml2, s2) = vmm_get_next_lvl pml3 (key vaddr ! 1) s1;
          (pml1, s3) = vmm_get_next_lvl pml2 (key vaddr ! 2) s2
      in s3\<lparr>mem := set_entry pml1 (key vaddr ! 3) e (mem s3)\<rparr>)"

lemma vmm_map_put: "vmm_map pm vaddr paddr flags s = put_entry pm vaddr (paddr OR flags) s"
  by (simp add: vmm_map_def put_entry_def key_def Let_def numeral_eq_Suc)

lemma vmm_unmap_put: "vmm_unmap pm vaddr s = put_entry pm vaddr 0 s"
  by (simp add: vmm_unmap_def put_entry_def key_def Let_def numeral_eq_Suc)

definition spine :: "u64 \<Rightarrow> u64 list set" where
  "spine va = {take 1 (key va), take 2 (key va), take 3 (key va)}"

lemma card_insert_split:
  assumes "finite A"
  shows "card (insert x A - T) = card ({x} - T) + card (A - insert x T)"
proof -
  have "insert x A - T = ({x} - T) \<union> (A - insert x T)" "({x} - T) \<inter> (A - insert x T) = {}" by auto
  then show ?thesis using card_Un_disjoint[of "{x} - T" "A - insert x T"] assms by simp
qed

text \<open>The store into the last table: it changes the translation of one page and nothing else of the space.\<close>

lemma leaf_store:
  fixes e :: u64
  assumes inv: "vm_inv pm s" and path: "[i4, i3, i2] \<in> table_paths" and t: "table_at pm s [i4, i3, i2] = Some t1"
    and i: "i1 < 512"
  defines "s' \<equiv> s\<lparr>mem := set_entry t1 i1 e (mem s)\<rparr>"
  shows "vm_inv pm s'" "vm_frame pm s s'" "translation pm s' = (translation pm s)([i4, i3, i2, i1] := present e)"
    "tables_of pm s' = tables_of pm s" "free_pages s' = free_pages s"
proof -
  have tree: "tree_ok (mem s) (hhdm_off s) (topLevel (mem s) pm) (virtual_free s)"
    using inv by (simp add: vm_inv_def)
  have w: "walk (mem s) (hhdm_off s) (topLevel (mem s) pm) [i4, i3, i2] = Some t1"
    using t by (simp add: table_at_def)
  note h = tree path w i
  have tin: "t1 \<in> space_pages pm s" using table_in_space[OF path t] .
  have out: "mem s' x = mem s x" if "\<not> in_range t1 4096 x" for x
    using that by (simp add: s'_def set_entry_outside i)
  have root: "topLevel (mem s') pm = topLevel (mem s) pm"
    using space_apart[OF inv tin] by (intro topLevel_same out) auto
  note root' = root[unfolded s'_def vmm.simps pmm.simps machine.simps]
  have tab: "table_at pm s' r = table_at pm s r" if "r \<in> table_paths" for r
    using leaf_walk[OF h _ that] root' by (simp add: table_at_def s'_def)
  have vf: "virtual_free s' = virtual_free s" by (simp add: virtual_free_def s'_def)
  have sp: "space_pages pm s' = space_pages pm s"
    using tab by (simp add: space_pages_def vf cong: bex_cong)
  show "vm_inv pm s'" using inv leaf_tree[OF h] sp vf root' by (simp add: vm_inv_def s'_def)
  show "vm_frame pm s s'" using out tin by (simp add: vm_frame_def root sp) (auto simp: s'_def)
  show "translation pm s' = (translation pm s)([i4, i3, i2, i1] := present e)"
    using leaf_pte[OF h] root' by (simp add: translation_def s'_def)
  show "tables_of pm s' = tables_of pm s" using tab by (auto simp only: tables_of_def)
  show "free_pages s' = free_pages s" by (simp add: s'_def)
qed

lemma put_entry_law:
  assumes inv: "vm_inv pm s" and room: "card (spine va - tables_of pm s) \<le> length (free_pages s)"
  shows "vm_inv pm (put_entry pm va e s) \<and> vm_frame pm s (put_entry pm va e s)
    \<and> translation pm (put_entry pm va e s) = (translation pm s)(key va := present e)
    \<and> tables_of pm (put_entry pm va e s) = tables_of pm s \<union> spine va
    \<and> length (free_pages (put_entry pm va e s)) + card (spine va - tables_of pm s)
        = length (free_pages s)"
proof -
  obtain i4 i3 i2 i1 where k: "key va = [i4, i3, i2, i1]" by (simp add: key_def)
  then have i: "i4 < 512" "i3 < 512" "i2 < 512" "i1 < 512"
    using key_indices[of va] by (simp_all add: indices_def)
  have sp: "spine va = {[] @ [i4], [i4] @ [i3], [i4, i3] @ [i2]}"
    by (simp add: spine_def k numeral_eq_Suc)
  obtain t3 s1 where 1: "vmm_get_next_lvl (topLevel (mem s) pm) i4 s = (t3, s1)" by fastforce
  obtain t2 s2 where 2: "vmm_get_next_lvl t3 i3 s1 = (t2, s2)" by fastforce
  obtain t1 s3 where 3: "vmm_get_next_lvl t2 i2 s2 = (t1, s3)" by fastforce
  have top: "table_at pm s [] = Some (topLevel (mem s) pm)" by (simp add: table_at_def)
  have paths: "[i4] \<in> table_paths" "[i4, i3] \<in> table_paths" "[i4, i3, i2] \<in> table_paths"
    using i by (simp_all add: table_paths_def)
  let ?T = "tables_of pm s"
  have cost: "card (spine va - ?T) = card ({[] @ [i4]} - ?T)
      + card ({[i4] @ [i3]} - insert ([] @ [i4]) ?T) + card ({[i4, i3] @ [i2]} - insert ([i4] @ [i3]) (insert ([] @ [i4]) ?T))"
    using card_insert_split[of "{[i4, i3], [i4, i3, i2]}" "[i4]" ?T]
      card_insert_split[of "{[i4, i3, i2]}" "[i4, i3]" "insert [i4] ?T"] by (simp add: sp)
  have r1: "card ({[] @ [i4]} - ?T) \<le> length (free_pages s)" using cost room by linarith
  have A: "vm_inv pm s1" "vm_frame pm s s1" "table_at pm s1 ([] @ [i4]) = Some t3"
      "translation pm s1 = translation pm s" "tables_of pm s1 = insert ([] @ [i4]) ?T"
      "length (free_pages s) = length (free_pages s1) + card ({[] @ [i4]} - ?T)"
    using next_lvl[OF inv table_paths_Nil _ top i(1) r1 1] by simp_all
  have r2: "card ({[i4] @ [i3]} - tables_of pm s1) \<le> length (free_pages s1)"
    unfolding A(5) using cost room A(6) by linarith
  have B: "vm_inv pm s2" "vm_frame pm s1 s2" "table_at pm s2 ([i4] @ [i3]) = Some t2"
      "translation pm s2 = translation pm s1" "tables_of pm s2 = insert ([i4] @ [i3]) (tables_of pm s1)"
      "length (free_pages s1) = length (free_pages s2) + card ({[i4] @ [i3]} - tables_of pm s1)"
    using next_lvl[OF A(1) paths(1) _ A(3)[simplified] i(2) r2 2] by simp_all
  have r3: "card ({[i4, i3] @ [i2]} - tables_of pm s2) \<le> length (free_pages s2)"
    unfolding B(5) A(5) using cost room A(6) B(6)[unfolded A(5)] by linarith
  have C: "vm_inv pm s3" "vm_frame pm s2 s3" "table_at pm s3 [i4, i3, i2] = Some t1"
      "translation pm s3 = translation pm s2" "tables_of pm s3 = insert ([i4, i3] @ [i2]) (tables_of pm s2)"
      "length (free_pages s2) = length (free_pages s3) + card ({[i4, i3] @ [i2]} - tables_of pm s2)"
    using next_lvl[OF B(1) paths(2) _ B(3)[simplified] i(3) r3 3] by simp_all
  define s' where "s' = s3\<lparr>mem := set_entry t1 i1 e (mem s3)\<rparr>"
  have res: "put_entry pm va e s = s'"
    by (simp add: put_entry_def k 1 2 3 s'_def numeral_eq_Suc)
  note L = leaf_store[OF C(1) paths(3) C(3) i(4), of e, folded s'_def]
  have "vm_frame pm s s'" using A(2) B(2) C(2) L(2) by (blast intro: vm_frame_trans)
  moreover have "tables_of pm s' = ?T \<union> spine va" unfolding L(4) C(5) B(5) A(5) sp by auto
  moreover have "length (free_pages s') + card (spine va - ?T) = length (free_pages s)"
    using cost A(6) B(6)[unfolded A(5)] C(6)[unfolded B(5) A(5)] by (simp add: L(5))
  ultimately show ?thesis using L(1,3) A(4) B(4) C(4) by (simp add: res k)
qed

text \<open>
  The page tables of \<open>pm\<close> provide the contract of theory \<open>AddressSpace\<close>: an entry write is a
  functional update of the translation, paid for with one free page per missing table.
\<close>

lemmas put_entry_laws =
  put_entry_law[THEN conjunct1]
  put_entry_law[THEN conjunct2, THEN conjunct2, THEN conjunct1]
  put_entry_law[THEN conjunct2, THEN conjunct2, THEN conjunct2, THEN conjunct1]
  put_entry_law[THEN conjunct2, THEN conjunct2, THEN conjunct2, THEN conjunct2]

interpretation vm: erasable_address_space "vm_inv pm" "translation pm" "tables_of pm"
  "\<lambda>s. length (free_pages s)" "put_entry pm" key spine present
  by unfold_locales (fact put_entry_laws | simp add: present_def spine_def)+

section \<open>Virtual page numbers\<close>

text \<open>Two addresses have the same key iff they agree on bits 12 to 47.\<close>

lemma mask9: "(0x1ff :: u64) = mask 9"
  by (simp add: mask_eq_exp_minus_1)

lemma key_alt: "key va = map (\<lambda>n. take_bit 9 (drop_bit n va)) [39, 30, 21, 12]"
  by (simp add: key_def mask9 take_bit_eq_mask and.commute)

lemma field_eq_iff:
  "take_bit k (drop_bit n x) = take_bit k (drop_bit n y) \<longleftrightarrow> (\<forall>i<k. bit x (n + i) = bit y (n + i))"
  for x y :: u64
proof
  assume eq: "take_bit k (drop_bit n x) = take_bit k (drop_bit n y)"
  have "bit (take_bit k (drop_bit n z)) i = bit z (n + i)" if "i < k" for z :: u64 and i
    using that by (simp add: bit_take_bit_iff bit_drop_bit_eq)
  with eq show "\<forall>i<k. bit x (n + i) = bit y (n + i)" by metis
qed (auto simp: bit_eq_iff bit_take_bit_iff bit_drop_bit_eq)

lemma key_eq_iff: "key x = key y \<longleftrightarrow> (\<forall>i. 12 \<le> i \<and> i < 48 \<longrightarrow> bit x i = bit y i)"
proof
  assume "key x = key y"
  then have seg: "\<forall>i<9. bit x (n + i) = bit y (n + i)" if "n \<in> {39, 30, 21, 12}" for n
    using that by (auto simp: key_alt field_eq_iff)
  show "\<forall>i. 12 \<le> i \<and> i < 48 \<longrightarrow> bit x i = bit y i"
  proof (intro allI impI)
    fix i :: nat
    assume i: "12 \<le> i \<and> i < 48"
    then consider "i < 21" | "21 \<le> i" "i < 30" | "30 \<le> i" "i < 39" | "39 \<le> i" by linarith
    then show "bit x i = bit y i"
    proof cases
      case 1 then show ?thesis using i seg[of 12, simplified, rule_format, of "i - 12"] by simp
    next
      case 2 then show ?thesis using i seg[of 21, simplified, rule_format, of "i - 21"] by simp
    next
      case 3 then show ?thesis using i seg[of 30, simplified, rule_format, of "i - 30"] by simp
    next
      case 4 then show ?thesis using i seg[of 39, simplified, rule_format, of "i - 39"] by simp
    qed
  qed
next
  assume "\<forall>i. 12 \<le> i \<and> i < 48 \<longrightarrow> bit x i = bit y i"
  then show "key x = key y" by (simp add: key_alt field_eq_iff)
qed

lemma key_page: "key x = key y \<longleftrightarrow> take_bit 36 (drop_bit 12 x) = take_bit 36 (drop_bit 12 y)"
proof -
  have "(\<forall>i<36. bit x (12 + i) = bit y (12 + i)) \<longleftrightarrow> (\<forall>i. 12 \<le> i \<and> i < 48 \<longrightarrow> bit x i = bit y i)"
  proof (rule iffI; intro allI impI)
    fix i :: nat
    assume "\<forall>i<36. bit x (12 + i) = bit y (12 + i)" "12 \<le> i \<and> i < 48"
    then show "bit x i = bit y i" by (auto dest: spec[of _ "i - 12"])
  qed auto
  then show ?thesis by (simp add: key_eq_iff field_eq_iff)
qed


section \<open>A fresh page table\<close>

lemma empty_walk:
  assumes "\<forall>i<512. entry m root i = 0" and "p \<in> table_paths" "p \<noteq> []"
  shows "walk m h root p = None"
  using assms by (cases p) (auto simp: table_paths_def)

lemma empty_tree:
  assumes "\<forall>i<512. entry m root i = 0" and "page_addr h root" and "root \<notin> F" and "\<forall>a\<in>F. page_addr h a"
  shows "tree_ok m h root F" and "pte m h root k = None"
proof -
  have w: "walk m h root p = Some a \<longleftrightarrow> p = [] \<and> a = root" if "p \<in> table_paths" for p a
    using empty_walk[OF assms(1) that] by (cases "p = []") auto
  then show "tree_ok m h root F" using assms(2-4) by (simp add: tree_ok_def)
  have "walk m h root (butlast k) = None" if "k \<in> indices 4"
    using that empty_walk[OF assms(1), of "butlast k"] indices_4_snoc[of k] by fastforce
  then show "pte m h root k = None" by (simp add: pte_def)
qed

text \<open>Every free page can be reached through the direct map, at an aligned address.\<close>

definition direct_map_ok :: "'a vmm_scheme \<Rightarrow> bool" where
  "direct_map_ok s \<longleftrightarrow> pmm_ok s \<and> distinct (free_pages s)
     \<and> (\<forall>p \<in> set (free_pages s). page_addr (hhdm_off s) (p + hhdm_off s))"

lemma alloc_virtual_page:
  assumes "pmm_ok s" and "free_pages s = q # qs"
  obtains s' where "alloc_virtual s = (q + hhdm_off s, s')" "free_pages s' = qs" "pmm_ok s'"
    "mem s' = mem s" "hhdm_off s' = hhdm_off s" "vmm.more s' = vmm.more s"
    "vmm_kernel_pagemap s' = vmm_kernel_pagemap s" "vmm_current_pagemap s' = vmm_current_pagemap s"
    "kernel_phys_addr s' = kernel_phys_addr s" "kernel_virt_addr s' = kernel_virt_addr s"
    "trace s' = trace s" "dev s' = dev s" "pmm_free_blocks s' = pmm_free_blocks s"
proof
  show "alloc_virtual s = (q + hhdm_off s, snd (pmm_allocpage s))"
    using pg.fst_alloc[OF assms(1)] assms(2) allocpage_frame(1)[OF assms(1)]
    by (simp add: alloc_virtual_def split_beta PHYSICAL_TO_VIRTUAL_def)
qed (use assms in \<open>simp_all add: allocpage_frame pg.pages_alloc pg.inv_alloc\<close>)

lemma set_fields_outside:
  assumes "\<not> in_range p 4096 x"
  shows "set_topLevel p v m x = m x" "set_vmaHead p v m x = m x"
    "set_vma_next p v m x = m x" "set_vma_prev p v m x = m x"
  using assms by (auto simp: set_topLevel_def set_vmaHead_def set_vma_next_def set_vma_prev_def
      intro!: store64_other dest: in_range_shift[where a = p and n = 4096])

lemma fields_other_page:
  assumes "disj_range p 4096 q 4096" and "\<And>x. \<not> in_range p 4096 x \<Longrightarrow> m' x = m x"
  shows "topLevel m' q = topLevel m q" "vmaHead m' q = vmaHead m q"
    and "i < 512 \<Longrightarrow> entry m' q i = entry m q i"
proof -
  have "load64 m' (q + d) = load64 m (q + d)" if "unat d + 8 \<le> 4096" for d
  proof (rule load64_cong)
    fix x assume "in_range (q + d) 8 x"
    then have "in_range q 4096 x" using that by (intro in_range_shift[of "q + d" 8 x q 4096]) auto
    then show "m' x = m x" using assms disj_rangeD by blast
  qed
  from this[of 0] this[of 8] this[of "8 * i"]
  show "topLevel m' q = topLevel m q" "vmaHead m' q = vmaHead m q"
    "i < 512 \<Longrightarrow> entry m' q i = entry m q i"
    by (simp_all add: topLevel_def vmaHead_def entry_def entry_range)
qed

text \<open>The memory that \<open>vmm_init\<close> and \<open>vmm_new_pagemap\<close> build in three pages.\<close>

definition fresh_pagemap :: "ptr \<Rightarrow> ptr \<Rightarrow> ptr \<Rightarrow> mem \<Rightarrow> mem" where
  "fresh_pagemap pm root vma m =
     set_vma_prev vma vma (set_vma_next vma vma (zero_page vma
       (set_vmaHead pm vma (zero_page root (set_topLevel pm root (zero_page pm m))))))"

lemma fresh_pagemap_fields:
  assumes "disj_range pm 4096 root 4096" "disj_range pm 4096 vma 4096" "disj_range root 4096 vma 4096"
  shows "topLevel (fresh_pagemap pm root vma m) pm = root"
    and "vmaHead (fresh_pagemap pm root vma m) pm = vma"
    and "i < 512 \<Longrightarrow> entry (fresh_pagemap pm root vma m) root i = 0"
    and "\<not> in_range pm 4096 x \<Longrightarrow> \<not> in_range root 4096 x \<Longrightarrow> \<not> in_range vma 4096 x \<Longrightarrow>
      fresh_pagemap pm root vma m x = m x"
proof -
  let ?m2 = "set_vmaHead pm vma (zero_page root (set_topLevel pm root (zero_page pm m)))"
  have vma: "\<not> in_range vma 4096 x \<Longrightarrow> fresh_pagemap pm root vma m x = ?m2 x" for x
    by (simp add: fresh_pagemap_def set_fields_outside zero_page_outside)
  note apart = assms disj_range_sym[THEN iffD1, OF assms(1)]
    disj_range_sym[THEN iffD1, OF assms(2)] disj_range_sym[THEN iffD1, OF assms(3)]
  have "topLevel ?m2 pm = topLevel (zero_page root (set_topLevel pm root (zero_page pm m))) pm"
    by (simp add: topLevel_def set_vmaHead_def mem_simps)
  also have "\<dots> = root"
    using fields_other_page(1)[OF apart(4) zero_page_outside]
    by (simp add: topLevel_def set_topLevel_def)
  finally show "topLevel (fresh_pagemap pm root vma m) pm = root"
    using fields_other_page(1)[OF apart(5) vma] by simp
  show "vmaHead (fresh_pagemap pm root vma m) pm = vma"
    using fields_other_page(2)[OF apart(5) vma] by (simp add: vmaHead_def set_vmaHead_def)
  show "entry (fresh_pagemap pm root vma m) root i = 0" if "i < 512"
    using fields_other_page(3)[OF apart(6) vma that]
      fields_other_page(3)[OF apart(1) set_fields_outside(2) that] entry_zero_page[OF that] by simp
  show "\<not> in_range pm 4096 x \<Longrightarrow> \<not> in_range root 4096 x \<Longrightarrow> \<not> in_range vma 4096 x \<Longrightarrow>
      fresh_pagemap pm root vma m x = m x"
    by (simp add: vma set_fields_outside zero_page_outside)
qed

lemma self_loop_fresh:
  assumes "vmaHead m pm = vma" and "disj_range pm 4096 vma 4096"
  shows "vma_self_loop pm m = set_vma_prev vma vma (set_vma_next vma vma m)"
proof -
  have "vmaHead (set_vma_next vma vma m) pm = vmaHead m pm"
    using assms(2) by (intro fields_other_page(2)[of vma]) (simp_all add: disj_range_sym set_fields_outside)
  then show ?thesis using assms(1) by (simp add: vma_self_loop_def)
qed


text \<open>Three pages off the allocator, in the order both builders take them.\<close>

lemma direct_map_pages:
  assumes "direct_map_ok s" and "free_pages s = q1 # q2 # q3 # qs"
  defines "h \<equiv> hhdm_off s"
  shows "disj_range (q1 + h) 4096 (q2 + h) 4096" "disj_range (q1 + h) 4096 (q3 + h) 4096"
    "disj_range (q2 + h) 4096 (q3 + h) 4096" "page_addr h (q2 + h)"
    "\<forall>q \<in> set qs. page_addr h (q + h) \<and> disj_range (q + h) 4096 (q1 + h) 4096 \<and> q + h \<noteq> q2 + h"
proof -
  have d: "distinct (q1 # q2 # q3 # qs)"
    and p: "\<forall>q \<in> set (q1 # q2 # q3 # qs). page_addr h (q + h)"
    using assms by (simp_all add: direct_map_ok_def)
  have apart: "disj_range (a + h) 4096 (b + h) 4096"
    if "a \<in> set (q1 # q2 # q3 # qs)" "b \<in> set (q1 # q2 # q3 # qs)" "a \<noteq> b" for a b
    using that p by (intro page_disj) (auto dest: page_addr_aligned)
  show "disj_range (q1 + h) 4096 (q2 + h) 4096" "disj_range (q1 + h) 4096 (q3 + h) 4096"
    "disj_range (q2 + h) 4096 (q3 + h) 4096"
    using d by (simp_all add: apart)
  show "page_addr h (q2 + h)" using p by simp
  show "\<forall>q \<in> set qs. page_addr h (q + h) \<and> disj_range (q + h) 4096 (q1 + h) 4096 \<and> q + h \<noteq> q2 + h"
    using d p apart by auto
qed

text \<open>A page map with an empty top level in the second of the three pages.\<close>

lemma empty_space:
  assumes "direct_map_ok s" and "free_pages s = q1 # q2 # q3 # qs"
    and "pmm_ok s'" "free_pages s' = qs" "hhdm_off s' = hhdm_off s"
    and "topLevel (mem s') (q1 + hhdm_off s) = q2 + hhdm_off s"
    and "\<forall>i<512. entry (mem s') (q2 + hhdm_off s) i = 0"
  shows "vm_inv (q1 + hhdm_off s) s' \<and> tables_of (q1 + hhdm_off s) s' = {[]}
    \<and> translation (q1 + hhdm_off s) s' = (\<lambda>_. None)
    \<and> space_pages (q1 + hhdm_off s) s' = insert (q2 + hhdm_off s) (virtual_free s')"
proof -
  let ?h = "hhdm_off s"
  note pages = direct_map_pages[OF assms(1,2)]
  have vf: "virtual_free s' = (\<lambda>q. q + ?h) ` set qs" by (simp add: virtual_free_def assms(4,5))
  have F: "q2 + ?h \<notin> virtual_free s'" "\<forall>a \<in> virtual_free s'. page_addr ?h a"
    using pages(5) by (auto simp: vf)
  have at: "table_at (q1 + ?h) s' p = (if p = [] then Some (q2 + ?h) else None)" if "p \<in> table_paths" for p
    using empty_walk[OF assms(7) that] by (simp add: table_at_def assms(5,6))
  have sp: "space_pages (q1 + ?h) s' = insert (q2 + ?h) (virtual_free s')"
    using at by (auto simp: space_pages_def split: if_splits)
  moreover have "disj_range (q2 + ?h) 4096 (q1 + ?h) 4096"
    using pages(1) by (rule disj_range_sym[THEN iffD1])
  ultimately have "\<forall>a \<in> space_pages (q1 + ?h) s'. disj_range a 4096 (q1 + ?h) 4096"
    using pages(5) by (simp add: vf)
  then have sep: "\<forall>a \<in> space_pages (q1 + ?h) s'. disj_range a 4096 (q1 + ?h) 16"
    using disj_range_fields[of _ 4096 "q1 + ?h" 4096 0 4096 0 16] by simp
  have "distinct qs" using assms(1,2) by (simp add: direct_map_ok_def)
  with sep empty_tree(1)[OF assms(7) pages(4) F] have "vm_inv (q1 + ?h) s'"
    by (simp add: vm_inv_def assms(3-6))
  moreover have "tables_of (q1 + ?h) s' = {[]}"
    using at by (auto simp: tables_of_def split: if_splits)
  moreover have "translation (q1 + ?h) s' = (\<lambda>_. None)"
    using empty_tree(2)[OF assms(7) pages(4) F] by (auto simp: translation_def assms(5,6))
  ultimately show ?thesis using sp by blast
qed

lemma init_tables_space:
  assumes "direct_map_ok s" and "free_pages s = q1 # q2 # q3 # qs"
  defines "kpm \<equiv> q1 + hhdm_off s" and "s' \<equiv> vmm_init_tables s"
  shows "vm_inv kpm s'" "tables_of kpm s' = {[]}" "translation kpm s' = (\<lambda>_. None)"
    "vmm_kernel_pagemap s' = kpm" "free_pages s' = qs" "hhdm_off s' = hhdm_off s"
    "kernel_phys_addr s' = kernel_phys_addr s" "kernel_virt_addr s' = kernel_virt_addr s"
    "trace s' = trace s" "pmm_free_blocks s' = pmm_free_blocks s" "vmm.more s' = vmm.more s"
    "dev s' = dev s" "space_pages kpm s' \<subseteq> virtual_free s"
    "(\<forall>a \<in> virtual_free s. \<not> in_range a 4096 x) \<Longrightarrow> mem s' x = mem s x"
proof -
  let ?h = "hhdm_off s"
  have ok: "pmm_ok s" using assms(1) by (simp add: direct_map_ok_def)
  obtain s1 where 1: "alloc_virtual s = (q1 + ?h, s1)" "free_pages s1 = q2 # q3 # qs" "pmm_ok s1"
    "mem s1 = mem s" "hhdm_off s1 = ?h" "kernel_phys_addr s1 = kernel_phys_addr s"
    "kernel_virt_addr s1 = kernel_virt_addr s" "trace s1 = trace s"
    "pmm_free_blocks s1 = pmm_free_blocks s" "vmm.more s1 = vmm.more s" "dev s1 = dev s"
    using alloc_virtual_page[OF ok assms(2)] by blast
  define s2 where "s2 = s1\<lparr>vmm_kernel_pagemap := kpm, mem := zero_page kpm (mem s1)\<rparr>"
  have f2: "free_pages s2 = q2 # q3 # qs" "pmm_ok s2" "hhdm_off s2 = ?h"
    using 1 by (simp_all add: s2_def free_pages_def pmm_ok_def)
  obtain s3 where 3: "alloc_virtual s2 = (q2 + ?h, s3)" "free_pages s3 = q3 # qs" "pmm_ok s3"
    "mem s3 = mem s2" "hhdm_off s3 = ?h" "vmm_kernel_pagemap s3 = kpm"
    "kernel_phys_addr s3 = kernel_phys_addr s"
    "kernel_virt_addr s3 = kernel_virt_addr s" "trace s3 = trace s"
    "pmm_free_blocks s3 = pmm_free_blocks s" "vmm.more s3 = vmm.more s" "dev s3 = dev s"
    using alloc_virtual_page[OF f2(2,1)] f2(3) 1 by (auto simp: s2_def)
  define m3 where "m3 = set_topLevel kpm (q2 + ?h) (mem s3)"
  define s4 where "s4 = s3\<lparr>mem := zero_page (topLevel m3 kpm) m3\<rparr>"
  have f4: "free_pages s4 = q3 # qs" "pmm_ok s4" "hhdm_off s4 = ?h"
    using 3 by (simp_all add: s4_def)
  obtain s5 where 5: "alloc_virtual s4 = (q3 + ?h, s5)" "free_pages s5 = qs" "pmm_ok s5"
    "mem s5 = mem s4" "hhdm_off s5 = ?h" "vmm_kernel_pagemap s5 = kpm"
    "kernel_phys_addr s5 = kernel_phys_addr s"
    "kernel_virt_addr s5 = kernel_virt_addr s" "trace s5 = trace s"
    "pmm_free_blocks s5 = pmm_free_blocks s" "vmm.more s5 = vmm.more s" "dev s5 = dev s"
    using alloc_virtual_page[OF f4(2,1)] f4(3) 3 by (auto simp: s4_def)
  note pages = direct_map_pages[OF assms(1,2), folded kpm_def]
  define m6 where "m6 = zero_page (vmaHead (set_vmaHead kpm (q3 + ?h) (mem s5)) kpm) (set_vmaHead kpm (q3 + ?h) (mem s5))"
  have top: "topLevel m3 kpm = q2 + ?h" by (simp add: m3_def topLevel_def set_topLevel_def)
  have vma: "vmaHead (set_vmaHead kpm (q3 + ?h) (mem s5)) kpm = q3 + ?h"
    by (simp add: vmaHead_def set_vmaHead_def)
  have "vmaHead m6 kpm = q3 + ?h"
    using fields_other_page(2)[OF _ zero_page_outside] pages(2) vma
    by (simp add: m6_def disj_range_sym)
  note loop = self_loop_fresh[OF this pages(2)]
  have m6: "m6 = zero_page (q3 + ?h) (set_vmaHead kpm (q3 + ?h) (mem s5))"
    by (simp only: m6_def vma)
  have s5: "mem s5 = zero_page (q2 + ?h) m3" by (simp add: 5(4) s4_def top)
  have "m3 = set_topLevel kpm (q2 + ?h) (zero_page kpm (mem s))" by (simp add: m3_def 3(4) s2_def 1(4))
  then have m: "vma_self_loop kpm m6 = fresh_pagemap kpm (q2 + ?h) (q3 + ?h) (mem s)"
    unfolding loop unfolding m6 s5 fresh_pagemap_def by simp
  have s': "s' = s5\<lparr>mem := vma_self_loop kpm m6\<rparr>"
    by (simp add: s'_def vmm_init_tables_def 1(1) 3(1) 5(1) kpm_def[symmetric] s2_def[symmetric]
        m3_def[symmetric] s4_def[symmetric] m6_def[symmetric] Let_def)
  have "topLevel (mem s') kpm = q2 + ?h" "\<forall>i<512. entry (mem s') (q2 + ?h) i = 0"
    using fresh_pagemap_fields[OF pages(1-3)] by (simp_all add: s' m)
  then have space: "vm_inv kpm s' \<and> tables_of kpm s' = {[]} \<and> translation kpm s' = (\<lambda>_. None)
      \<and> space_pages kpm s' = insert (q2 + ?h) (virtual_free s')"
    unfolding kpm_def using 5 by (intro empty_space[OF assms(1,2)]) (simp_all add: s')
  then show "vm_inv kpm s'" "tables_of kpm s' = {[]}" "translation kpm s' = (\<lambda>_. None)" by simp_all
  show "vmm_kernel_pagemap s' = kpm" "free_pages s' = qs" "hhdm_off s' = hhdm_off s"
    "kernel_phys_addr s' = kernel_phys_addr s" "kernel_virt_addr s' = kernel_virt_addr s"
    "trace s' = trace s" "pmm_free_blocks s' = pmm_free_blocks s" "vmm.more s' = vmm.more s" "dev s' = dev s"
    using 5 by (simp_all add: s')
  have free: "virtual_free s = insert kpm (insert (q2 + ?h) (insert (q3 + ?h) (virtual_free s')))"
    using 5 by (simp add: virtual_free_def s' assms(2) kpm_def)
  then show "space_pages kpm s' \<subseteq> virtual_free s" using space by auto
  show "mem s' x = mem s x" if "\<forall>a \<in> virtual_free s. \<not> in_range a 4096 x"
    using that fresh_pagemap_fields(4)[OF pages(1-3)] by (simp add: s' m free)
qed

end
