(* ===== verification/Sched.thy ===== *)
theory Sched
  imports PmmHeap Vmm
begin

text \<open>
  The scheduler, \<^verbatim>\<open>kernel/src/arch/x86_64/sched.c\<close> and \<^verbatim>\<open>kernel/src/core/sched.h\<close>: processes and
  threads are structures in the kernel's memory, linked by their \<open>next\<close> pointers; a timer interrupt
  calls \<open>schedule\<close> with the saved registers of the interrupted thread.  The definitions are here;
  theory \<open>SchedRing\<close> proves what they do.
\<close>

section \<open>State and layout of the structures\<close>

record sched = vmm +
  sched_processes_list :: ptr
  sched_current_process :: ptr
  sched_current_thread :: ptr
  next_free_pid :: u64
  next_thread_id :: u64
  idle_process :: ptr

text \<open>\<open>enum sched_status\<close>, a 32-bit integer.\<close>

definition READY :: u32 where "READY = 0"
definition RUNNING :: u32 where "RUNNING = 1"
definition DEAD :: u32 where "DEAD = 2"

text \<open>The packed \<open>stackframe\<close> has 22 registers of 8 bytes each, at these offsets.\<close>

definition sizeof_stackframe :: u64 where "sizeof_stackframe = 176"
definition sf_rbp :: u64 where "sf_rbp = 64"
definition sf_rdi :: u64 where "sf_rdi = 72"
definition sf_rsi :: u64 where "sf_rsi = 80"
definition sf_rdx :: u64 where "sf_rdx = 88"
definition sf_rax :: u64 where "sf_rax = 112"
definition sf_vector :: u64 where "sf_vector = 120"
definition sf_rip :: u64 where "sf_rip = 136"
definition sf_cs :: u64 where "sf_cs = 144"
definition sf_rflags :: u64 where "sf_rflags = 152"
definition sf_rsp :: u64 where "sf_rsp = 160"
definition sf_ss :: u64 where "sf_ss = 168"

text \<open>\<open>sched_thread\<close>: \<open>tid\<close>, \<open>context\<close>, \<open>status\<close>, \<open>name\<close>, \<open>parent\<close>, \<open>next\<close>; 336 bytes.\<close>

definition sizeof_thread :: u64 where "sizeof_thread = 336"
definition t_tid :: "mem \<Rightarrow> ptr \<Rightarrow> u64" where "t_tid m t = load64 m t"
definition t_context :: "ptr \<Rightarrow> ptr" where "t_context t = t + 8"
definition t_status :: "mem \<Rightarrow> ptr \<Rightarrow> u32" where "t_status m t = load32 m (t + 184)"
definition t_name :: "ptr \<Rightarrow> ptr" where "t_name t = t + 188"
definition t_next :: "mem \<Rightarrow> ptr \<Rightarrow> ptr" where "t_next m t = load64 m (t + 328)"
definition set_t_tid :: "ptr \<Rightarrow> u64 \<Rightarrow> mem \<Rightarrow> mem" where "set_t_tid t v m = store64 m t v"
definition set_t_status :: "ptr \<Rightarrow> u32 \<Rightarrow> mem \<Rightarrow> mem" where "set_t_status t v m = store32 m (t + 184) v"
definition set_t_parent :: "ptr \<Rightarrow> ptr \<Rightarrow> mem \<Rightarrow> mem" where "set_t_parent t v m = store64 m (t + 320) v"
definition set_t_next :: "ptr \<Rightarrow> ptr \<Rightarrow> mem \<Rightarrow> mem" where "set_t_next t v m = store64 m (t + 328) v"
definition set_t_reg :: "ptr \<Rightarrow> u64 \<Rightarrow> u64 \<Rightarrow> mem \<Rightarrow> mem" where
  "set_t_reg t off v m = store64 m (t_context t + off) v"

text \<open>\<open>sched_process\<close>: \<open>name\<close>, \<open>pid\<close>, \<open>threads\<close>, \<open>next\<close>; 152 bytes.\<close>

definition sizeof_process :: u64 where "sizeof_process = 152"
definition p_pid :: "mem \<Rightarrow> ptr \<Rightarrow> u32" where "p_pid m p = load32 m (p + 128)"
definition p_threads :: "mem \<Rightarrow> ptr \<Rightarrow> ptr" where "p_threads m p = load64 m (p + 136)"
definition p_next :: "mem \<Rightarrow> ptr \<Rightarrow> ptr" where "p_next m p = load64 m (p + 144)"
definition set_p_pid :: "ptr \<Rightarrow> u32 \<Rightarrow> mem \<Rightarrow> mem" where "set_p_pid p v m = store32 m (p + 128) v"
definition set_p_threads :: "ptr \<Rightarrow> ptr \<Rightarrow> mem \<Rightarrow> mem" where "set_p_threads p v m = store64 m (p + 136) v"
definition set_p_next :: "ptr \<Rightarrow> ptr \<Rightarrow> mem \<Rightarrow> mem" where "set_p_next p v m = store64 m (p + 144) v"

section \<open>Creating processes and threads\<close>

definition sched_alloc_stack :: "'a sched_scheme \<Rightarrow> (u64 \<times> 'a sched_scheme) option" where
  "sched_alloc_stack s = map_option (\<lambda>(p, s1). (p + 4095, s1)) (pmm_alloc 4096 s)"

text \<open>The walk to the end of a thread list; a list that runs in a circle is walked for ever.\<close>

partial_function (option) append_thread :: "mem \<Rightarrow> ptr \<Rightarrow> ptr \<Rightarrow> mem option" where
  "append_thread m scan thread =
     (if scan = NULL then Some m
      else if t_next m scan \<noteq> NULL then append_thread m (t_next m scan) thread
      else Some (set_t_next scan thread m))"

text \<open>\<open>memcpy(dest, name, len >= 100 ? 100 : len)\<close> after \<open>int len = strlen(name)\<close>.\<close>

definition copy_name :: "ptr \<Rightarrow> ptr \<Rightarrow> mem \<Rightarrow> mem option" where
  "copy_name dest name m =
     (case strlen name m of
        None \<Rightarrow> None
      | Some n \<Rightarrow> Some (snd (memcpy dest name (if n \<ge> 100 then 100 else of_nat n) m)))"

definition sched_new :: "ptr \<Rightarrow> 'a sched_scheme \<Rightarrow> (ptr \<times> 'a sched_scheme) option" where
  "sched_new name s =
     Option.bind (pmm_alloc sizeof_process s) (\<lambda>(process, s1).
     Option.bind (copy_name process name (mem s1)) (\<lambda>m1.
       let m2 = set_p_pid process (ucast (next_free_pid s1)) m1;
           m3 = set_p_threads process NULL m2;
           m4 = set_p_next process NULL m3;
           m5 = set_p_next (sched_current_process s1) process m4
       in Some (process, s1\<lparr>next_free_pid := next_free_pid s1 + 1, mem := m5\<rparr>)))"

definition sched_new_thread ::
    "ptr \<Rightarrow> ptr \<Rightarrow> u64 \<Rightarrow> 'a sched_scheme \<Rightarrow> (ptr \<times> 'a sched_scheme) option" where
  "sched_new_thread proc name func s =
     Option.bind (pmm_alloc sizeof_thread s) (\<lambda>(thread, s1).
     Option.bind (if p_threads (mem s1) proc = NULL then Some (set_p_threads proc thread (mem s1))
                  else append_thread (mem s1) (p_threads (mem s1) proc) thread) (\<lambda>m1.
     Option.bind (copy_name (t_name thread) name m1) (\<lambda>m2.
       let m3 = set_t_parent thread proc m2;
           m4 = set_t_tid thread (next_thread_id s1) m3;
           m5 = set_t_status thread READY m4;
           m6 = set_t_next thread NULL m5;
           m7 = set_t_reg thread sf_ss 0x10 m6;
           s2 = s1\<lparr>next_thread_id := next_thread_id s1 + 1, mem := m7\<rparr>
       in Option.bind (sched_alloc_stack s2) (\<lambda>(rsp, s3).
         let m8 = set_t_reg thread sf_rsp rsp (mem s3);
             m9 = set_t_reg thread sf_rflags 0x202 m8;
             m10 = set_t_reg thread sf_cs 0x08 m9;
             m11 = set_t_reg thread sf_rip func m10;
             m12 = set_t_reg thread sf_rbp 0 m11;
             s4 = s3\<lparr>mem := m12\<rparr>
         in Some (thread, logln Lg_info ''sched'' ''new thread %d\<newline>'' [t_tid m12 thread] s4)))))"

text \<open>
  \<open>sched_init\<close>; \<open>kernel_str\<close> and \<open>idle_str\<close> are the addresses of the string literals, \<open>sched_idle\<close> that of the
  idle function.
\<close>

definition copy_literal :: "ptr \<Rightarrow> ptr \<Rightarrow> mem \<Rightarrow> mem option" where
  "copy_literal dest name m =
     (case strlen name m of None \<Rightarrow> None | Some n \<Rightarrow> Some (snd (memcpy dest name (of_nat n) m)))"

definition sched_init :: "ptr \<Rightarrow> ptr \<Rightarrow> u64 \<Rightarrow> 'a sched_scheme \<Rightarrow> 'a sched_scheme option" where
  "sched_init kernel_str idle_str sched_idle s =
     Option.bind (pmm_alloc sizeof_process s) (\<lambda>(process, s1).
     Option.bind (copy_literal process kernel_str (mem s1)) (\<lambda>m1.
       let m2 = set_p_pid process (- 1) m1;
           m3 = set_p_next process NULL m2;
           s2 = s1\<lparr>sched_current_process := process, sched_processes_list := process, mem := m3\<rparr>
       in Option.bind (pmm_alloc sizeof_thread s2) (\<lambda>(thread, s3).
          Option.bind (copy_literal (t_name thread) kernel_str (mem s3)) (\<lambda>m4.
            let m5 = set_t_tid thread (- 1) m4;
                m6 = set_t_next thread NULL m5;
                m7 = set_p_threads process thread m6;
                s4 = s3\<lparr>sched_current_thread := thread, mem := m7\<rparr>
            in Option.bind (sched_new idle_str s4) (\<lambda>(idle_proc, s5).
               map_option snd (sched_new_thread idle_proc idle_str sched_idle
                 (s5\<lparr>idle_process := idle_proc\<rparr>)))))))"

section \<open>Switching threads\<close>

text \<open>The inner loop: the first thread of a list that is not dead, set running.\<close>

partial_function (option) pick_thread :: "mem \<Rightarrow> ptr \<Rightarrow> (ptr \<times> mem) option" where
  "pick_thread m t =
     (if t = NULL then Some (NULL, m)
      else if t_status m t = DEAD then pick_thread m (t_next m t)
      else Some (t, set_t_status t RUNNING m))"

text \<open>The outer loop: go round the processes until one has such a thread.\<close>

partial_function (option) schedule_loop :: "mem \<Rightarrow> ptr \<Rightarrow> ptr \<Rightarrow> (ptr \<times> ptr \<times> mem) option" where
  "schedule_loop m processes current =
     (let p = (if p_next m current \<noteq> NULL then p_next m current else processes)
      in Option.bind (pick_thread m (p_threads m p)) (\<lambda>(t, m1).
           if t \<noteq> NULL \<and> t_status m1 t = RUNNING then Some (p, t, m1)
           else schedule_loop m1 processes p))"

definition schedule :: "ptr \<Rightarrow> 'a sched_scheme \<Rightarrow> 'a sched_scheme option" where
  "schedule sf s =
     (let t0 = sched_current_thread s;
          m1 = snd (memcpy (t_context t0) sf sizeof_stackframe (mem s));
          m2 = set_t_status t0 READY m1
      in Option.bind (schedule_loop m2 (sched_processes_list s) (sched_current_process s)) (\<lambda>(p, t, m3).
           let m4 = snd (memcpy sf (t_context t) sizeof_stackframe m3)
           in Some (s\<lparr>sched_current_process := p, sched_current_thread := t, mem := m4\<rparr>)))"

end
