(* ===== verification/Cpu.thy ===== *)
theory Cpu
  imports Sched
begin

text \<open>
  The processor's tables and its timer: the global descriptor table
  (\<^verbatim>\<open>kernel/src/arch/x86_64/gdt.c\<close>), the interrupt descriptor table (\<^verbatim>\<open>interrupts.c\<close>), the
  interrupt controllers (\<^verbatim>\<open>pic.c\<close>) and the interval timer (\<^verbatim>\<open>pit.c\<close>).
\<close>

section \<open>State\<close>

record gdt_entry =
  g_limit0 :: u16
  g_base0 :: u16
  g_base1 :: u8
  g_access :: u8
  g_limit1_flags :: u8
  g_base2 :: u8

record idt_entry =
  isr_low :: u16
  kernel_cs :: u16
  ist :: u8
  attributes :: u8
  isr_mid :: u16
  isr_high :: u32
  idt_reserved :: u32

text \<open>The globals of the four files; of the task state segment only \<open>rsp0\<close> is ever written.\<close>

record cpu = sched +
  gdt :: "gdt_entry list"
  gdtr_size :: u16
  gdtr_offset :: u64
  tss_rsp0 :: u64
  idt :: "idt_entry list"
  idtr_limit :: u16
  idtr_base :: u64
  vectors :: "bool list"
  tick :: u32

section \<open>The global descriptor table\<close>

definition GDT_NULL :: nat where "GDT_NULL = 0"
definition GDT_KERNEL_CODE :: nat where "GDT_KERNEL_CODE = 1"
definition GDT_KERNEL_DATA :: nat where "GDT_KERNEL_DATA = 2"
definition GDT_USER_CODE :: nat where "GDT_USER_CODE = 3"
definition GDT_USER_DATA :: nat where "GDT_USER_DATA = 4"
definition GDT_LENGTH :: nat where "GDT_LENGTH = 0xff"
definition sizeof_gdt_entry :: nat where "sizeof_gdt_entry = 8"
definition sizeof_tss :: u32 where "sizeof_tss = 104"

text \<open>\<open>base\<close> and \<open>limit\<close> are promoted to \<open>int\<close> before they are shifted.\<close>

definition gdt_set_entry :: "nat \<Rightarrow> u16 \<Rightarrow> u16 \<Rightarrow> u8 \<Rightarrow> u8 \<Rightarrow> 'a cpu_scheme \<Rightarrow> 'a cpu_scheme" where
  "gdt_set_entry i limit base access flags s =
     s\<lparr>gdt := (gdt s)[i :=
        \<lparr>g_limit0 = limit AND 0xFFFF,
         g_base0 = base AND 0xFFFF,
         g_base1 = ucast (drop_bit 16 (ucast base :: u32) AND 0xFF),
         g_access = access,
         g_limit1_flags = ucast (drop_bit 16 (ucast limit :: u32) AND 0x0F) OR (flags AND 0xF0),
         g_base2 = ucast (drop_bit 24 (ucast base :: u32) AND 0xFF)\<rparr>]\<rparr>"

definition tss_set_gate :: "nat \<Rightarrow> u64 \<Rightarrow> u32 \<Rightarrow> 'a cpu_scheme \<Rightarrow> 'a cpu_scheme" where
  "tss_set_gate num base limit s =
     s\<lparr>gdt := (gdt s)[num :=
        \<lparr>g_limit0 = ucast (limit AND 0xFFFF),
         g_base0 = ucast (base AND 0xFFFF),
         g_base1 = ucast (drop_bit 16 base AND 0xFF),
         g_access = 0x89,
         g_limit1_flags = ucast (drop_bit 16 limit AND 0x0F) OR 0x00,
         g_base2 = ucast (drop_bit 24 base AND 0xFF)\<rparr>]\<rparr>"

text \<open>\<open>gdt_load\<close> and \<open>tss_load\<close> are assembly: they load the table and the selector 0x30.\<close>

definition gdt_init :: "u64 \<Rightarrow> u64 \<Rightarrow> 'a cpu_scheme \<Rightarrow> 'a cpu_scheme" where
  "gdt_init gdt_addr tss_addr s =
     (let s0 = s\<lparr>gdtr_size := of_nat (GDT_LENGTH * sizeof_gdt_entry) - 1, gdtr_offset := gdt_addr\<rparr>;
          s1 = gdt_set_entry GDT_NULL 0 0 0 0 s0;
          s2 = gdt_set_entry GDT_KERNEL_CODE 0xFFFF 0 0x9A 0xAF s1;
          s3 = gdt_set_entry GDT_KERNEL_DATA 0xFFFF 0 0x92 0xAF s2;
          s4 = gdt_set_entry GDT_USER_CODE 0xFFFF 0 0x9A 0xAF s3;
          s5 = gdt_set_entry GDT_USER_DATA 0xFFFF 0 0x92 0xAF s4;
          s6 = tss_set_gate 6 tss_addr sizeof_tss s5;
          s7 = emit (Lgdt (gdtr_size s6) (gdtr_offset s6)) s6;
          s8 = emit (Ltr 0x30) s7
      in logln Lg_progress ''arch/gdt'' ''A new GDT & TSS has been loaded into the CPU.\<newline>'' [] s8)"

definition gdt_set_kernel_stack :: "u64 \<Rightarrow> 'a cpu_scheme \<Rightarrow> 'a cpu_scheme" where
  "gdt_set_kernel_stack stack s = s\<lparr>tss_rsp0 := stack\<rparr>"

section \<open>The interrupt controllers\<close>

definition PIC1_COMMAND :: u16 where "PIC1_COMMAND = 0x20"
definition PIC1_DATA :: u16 where "PIC1_DATA = 0x21"
definition PIC2_COMMAND :: u16 where "PIC2_COMMAND = 0xA0"
definition PIC2_DATA :: u16 where "PIC2_DATA = 0xA1"
definition ICW1_INIT :: u8 where "ICW1_INIT = 0x10"
definition ICW1_ICW4 :: u8 where "ICW1_ICW4 = 0x01"
definition ICW4_8086 :: u8 where "ICW4_8086 = 0x01"

definition pic_init :: "'a machine_scheme \<Rightarrow> 'a machine_scheme" where
  "pic_init s =
     (let (a1, s1) = inb PIC1_DATA s;
          (a2, s2) = inb PIC2_DATA s1;
          s3 = io_wait (outb PIC1_COMMAND (ICW1_INIT OR ICW1_ICW4) s2);
          s4 = io_wait (outb PIC2_COMMAND (ICW1_INIT OR ICW1_ICW4) s3);
          s5 = io_wait (outb PIC1_DATA 0x20 s4);
          s6 = io_wait (outb PIC2_DATA 8 s5);
          s7 = io_wait (outb PIC1_DATA 4 s6);
          s8 = io_wait (outb PIC2_DATA 2 s7);
          s9 = io_wait (outb PIC1_DATA ICW4_8086 s8);
          s10 = io_wait (outb PIC2_DATA ICW4_8086 s9)
      in outb PIC2_DATA a2 (outb PIC1_DATA a1 s10))"

definition pic_ack :: "int \<Rightarrow> 'a machine_scheme \<Rightarrow> 'a machine_scheme" where
  "pic_ack intno s = outb PIC1_COMMAND 0x20 (if intno \<ge> 8 then outb PIC2_COMMAND 0x20 s else s)"

definition pic_disable :: "'a machine_scheme \<Rightarrow> 'a machine_scheme" where
  "pic_disable s = outb PIC1_DATA 0xff (outb PIC2_DATA 0xff s)"

text \<open>
  The port and the bit of an interrupt line.  \<open>1 << irq\<close> is a shift of an \<open>int\<close>, which is undefined
  from 31 on.
\<close>

definition pic_line :: "u8 \<Rightarrow> u16 \<times> u8" where
  "pic_line irq = (if irq < 8 then (PIC1_DATA, irq) else (PIC2_DATA, irq - 8))"

definition irq_bit :: "u8 \<Rightarrow> u32 option" where
  "irq_bit irq = (if irq < 31 then Some (push_bit (unat irq) 1) else None)"

definition pic_mask_irq :: "u8 \<Rightarrow> 'a machine_scheme \<Rightarrow> 'a machine_scheme option" where
  "pic_mask_irq irq s =
     (let (port, irq) = pic_line irq; (v, s1) = inb port s
      in map_option (\<lambda>b. outb port (ucast (ucast v OR b)) s1) (irq_bit irq))"

definition pic_unmask_irq :: "u8 \<Rightarrow> 'a machine_scheme \<Rightarrow> 'a machine_scheme option" where
  "pic_unmask_irq irq s =
     (let (port, irq) = pic_line irq; (v, s1) = inb port s
      in map_option (\<lambda>b. outb port (ucast (ucast v AND NOT b)) s1) (irq_bit irq))"

section \<open>The interrupt descriptor table\<close>

definition IDT_MAX_DESCRIPTORS :: nat where "IDT_MAX_DESCRIPTORS = 256"
definition sizeof_idt_entry :: nat where "sizeof_idt_entry = 16"

definition idt_set_descriptor :: "u8 \<Rightarrow> u64 \<Rightarrow> u8 \<Rightarrow> 'a cpu_scheme \<Rightarrow> 'a cpu_scheme" where
  "idt_set_descriptor vector isr flags s =
     s\<lparr>idt := (idt s)[unat vector :=
        \<lparr>isr_low = ucast (isr AND 0xFFFF), kernel_cs = 0x08, ist = 0, attributes = flags,
         isr_mid = ucast (drop_bit 16 isr AND 0xFFFF), isr_high = ucast (drop_bit 32 isr AND 0xFFFFFFFF),
         idt_reserved = 0\<rparr>]\<rparr>"

text \<open>
  \<open>isr_stub_table\<close> is the address of the table of the assembly file.  The table has 255 entries and the loop reads
  256: the last read is beyond the array, and finds what memory holds there.
\<close>

definition isr_entry :: "mem \<Rightarrow> ptr \<Rightarrow> nat \<Rightarrow> u64" where
  "isr_entry m isr_stub_table i = load64 m (isr_stub_table + 8 * of_nat i)"

definition idt_fill :: "ptr \<Rightarrow> nat \<Rightarrow> 'a cpu_scheme \<Rightarrow> 'a cpu_scheme" where
  "idt_fill isr_stub_table vector s =
     (let s1 = idt_set_descriptor (of_nat vector) (isr_entry (mem s) isr_stub_table vector) 0x8E s
      in s1\<lparr>vectors := (vectors s1)[vector := True]\<rparr>)"

definition idt_init :: "ptr \<Rightarrow> u64 \<Rightarrow> 'a cpu_scheme \<Rightarrow> 'a cpu_scheme" where
  "idt_init isr_stub_table idt_addr s =
     (let s1 = s\<lparr>idtr_base := idt_addr, idtr_limit := of_nat (sizeof_idt_entry * IDT_MAX_DESCRIPTORS - 1)\<rparr>;
          s2 = fold (idt_fill isr_stub_table) [0..<IDT_MAX_DESCRIPTORS] s1;
          s3 = pic_init s2;
          s4 = emit Sti (emit (Lidt (idtr_limit s3) (idtr_base s3)) s3)
      in logln Lg_progress ''arch/ints'' ''A new IDT has been loaded into the CPU.\<newline>'' [] s4)"

section \<open>The timer\<close>

definition PIT_FREQUENCY :: u32 where "PIT_FREQUENCY = 1193182"
definition HZ :: u32 where "HZ = 1000"

text \<open>A frequency of 0 is a division by zero.\<close>

definition pit_init :: "u32 \<Rightarrow> 'a machine_scheme \<Rightarrow> 'a machine_scheme option" where
  "pit_init frequency s =
     (if frequency = 0 then None
      else let divisor = PIT_FREQUENCY div frequency
           in Some (outb 0x40 (ucast (drop_bit 8 divisor AND 0xFF))
                (outb 0x40 (ucast (divisor AND 0xFF)) (outb 0x43 0x34 s))))"

definition pit_enable :: "'a machine_scheme \<Rightarrow> 'a machine_scheme option" where
  "pit_enable s = pic_unmask_irq 0 s"

definition pit_disable :: "'a machine_scheme \<Rightarrow> 'a machine_scheme option" where
  "pit_disable s = pic_mask_irq 0 s"

text \<open>Nothing in the kernel writes \<open>tick\<close>, so an interrupt that ends a \<open>hlt\<close> leaves it as it is.\<close>

partial_function (option) pit_wait :: "u32 \<Rightarrow> 'a cpu_scheme \<Rightarrow> 'a cpu_scheme option" where
  "pit_wait eticks s = (if tick s < eticks then pit_wait eticks (emit Hlt s) else Some s)"

definition pit_sleep :: "u32 \<Rightarrow> 'a cpu_scheme \<Rightarrow> 'a cpu_scheme option" where
  "pit_sleep seconds s = pit_wait (tick s + seconds * HZ) s"

definition pit_sleepms :: "u32 \<Rightarrow> 'a cpu_scheme \<Rightarrow> 'a cpu_scheme option" where
  "pit_sleepms milliseconds s = pit_wait (tick s + (milliseconds * HZ) div 1000) s"

definition pit_usleep :: "u32 \<Rightarrow> 'a cpu_scheme \<Rightarrow> 'a cpu_scheme option" where
  "pit_usleep milliseconds s = pit_wait (tick s + (milliseconds * HZ)) s"

end
