(* ===== verification/Kernel.thy ===== *)
theory Kernel
  imports Cpu Console
begin

text \<open>
  The kernel above its components: system calls (\<^verbatim>\<open>kernel/src/core/syscall\<close>), the interrupt
  handler (\<^verbatim>\<open>kernel/src/arch/x86_64/interrupts.c\<close>), the boot protocol (\<^verbatim>\<open>kernel/src/boot/limine.c\<close>), the
  initialisation stages (\<^verbatim>\<open>kernel/src/arch/x86_64/arch.c\<close>) and \<open>kmain\<close>
  (\<^verbatim>\<open>kernel/src/kmain-x86_64.c\<close>).
\<close>

section \<open>State\<close>

text \<open>The functions that the kernel puts into its table of system calls.\<close>

datatype syscall_func = Syscall_write | Syscall_getpid

record kernel = cpu +
  syscalls :: "syscall_func option list"
  boot_framebuf :: ptr

section \<open>System calls\<close>

definition SYSCALL_MAX_SLOTS :: nat where "SYSCALL_MAX_SLOTS = 512"

text \<open>
  An index out of range is reported and then used all the same, which is undefined; the function also has no
  return statement, so its result is not a value of the model.
\<close>

definition syscall_set :: "int \<Rightarrow> syscall_func \<Rightarrow> 'a kernel_scheme \<Rightarrow> 'a kernel_scheme option" where
  "syscall_set syscallnum f s =
     (if syscallnum < 0 \<or> int SYSCALL_MAX_SLOTS \<le> syscallnum then None
      else let s1 = (if syscalls s ! nat syscallnum \<noteq> None
                     then logln Lg_err ''syscalls'' ''Cannot replace already set syscalls.\<newline>'' [] s else s)
           in Some (s1\<lparr>syscalls := (syscalls s1)[nat syscallnum := Some f]\<rparr>))"

definition syscall_init :: "'a kernel_scheme \<Rightarrow> 'a kernel_scheme option" where
  "syscall_init s =
     (let s1 = fold (\<lambda>i s. s\<lparr>syscalls := (syscalls s)[i := None]\<rparr>) [0..<SYSCALL_MAX_SLOTS] s
      in Option.bind (syscall_set 1 Syscall_write s1) (\<lambda>s2.
         Option.bind (syscall_set 2 Syscall_getpid s2) (\<lambda>s3.
           Some (logln Lg_info ''syscalls'' ''System calls initialized.\<newline>'' [] s3))))"

definition sf_get :: "ptr \<Rightarrow> u64 \<Rightarrow> 'a machine_scheme \<Rightarrow> u64" where
  "sf_get sf reg s = load64 (mem s) (sf + reg)"

definition sf_set :: "ptr \<Rightarrow> u64 \<Rightarrow> u64 \<Rightarrow> 'a machine_scheme \<Rightarrow> 'a machine_scheme" where
  "sf_set sf reg v s = s\<lparr>mem := store64 (mem s) (sf + reg) v\<rparr>"

text \<open>Each byte is a call of \<open>tty_print\<close> of its own.\<close>

fun write_loop :: "ptr \<Rightarrow> nat \<Rightarrow> nat \<Rightarrow> 'a machine_scheme \<Rightarrow> 'a machine_scheme" where
  "write_loop buf i 0 s = s"
| "write_loop buf i (Suc n) s = write_loop buf (Suc i) n (emit (Tty_print [mem s (buf + of_nat i)]) s)"

definition syscall_write :: "ptr \<Rightarrow> 'a machine_scheme \<Rightarrow> 'a machine_scheme" where
  "syscall_write sf s =
     (let fd = (ucast (sf_get sf sf_rdi s) :: u32);
          buf = sf_get sf sf_rsi s;
          count = (ucast (sf_get sf sf_rdx s) :: u32)
      in if buf = NULL then sf_set sf sf_rax 0 s
         else if fd = 1 then write_loop buf 0 (nat (sint count)) s else s)"

definition syscall_getpid :: "ptr \<Rightarrow> 'a sched_scheme \<Rightarrow> 'a sched_scheme" where
  "syscall_getpid sf s = sf_set sf sf_rax (scast (p_pid (mem s) (sched_current_process s))) s"

fun syscall_call :: "syscall_func \<Rightarrow> ptr \<Rightarrow> 'a kernel_scheme \<Rightarrow> 'a kernel_scheme" where
  "syscall_call Syscall_write sf s = syscall_write sf s"
| "syscall_call Syscall_getpid sf s = syscall_getpid sf s"

section \<open>The interrupt handler\<close>

text \<open>The handler returns to the interrupted code, or it calls \<open>panic\<close>, which does not return.\<close>

datatype 'a handled = Returned 'a | Panics int ptr 'a

text \<open>
  The end of the handler.  It reads the vector again, from the frame as it is now; the
  argument of \<open>pic_ack\<close> is the difference converted to \<open>int\<close>.
\<close>

definition finish_interrupt :: "ptr \<Rightarrow> 'a machine_scheme \<Rightarrow> 'a machine_scheme" where
  "finish_interrupt sf s =
     (let s1 = emit Sti s in pic_ack (sint (ucast (sf_get sf sf_vector s1 - 32) :: u32)) s1)"

text \<open>
  A message whose conversions ask for more arguments than there are: \<open>va_arg\<close> is undefined then.  In the messages of the
  kernel every percent sign begins a conversion.
\<close>

definition logln_va :: "logtype \<Rightarrow> string \<Rightarrow> string \<Rightarrow> u64 list \<Rightarrow> 'a machine_scheme \<Rightarrow> 'a machine_scheme option" where
  "logln_va lt part msg args s =
     (if length (filter (\<lambda>c. c = CHR ''%'') msg) \<le> length args then Some (logln lt part msg args s) else None)"

text \<open>
  The message about the process has a conversion and no argument, so an exception in another address space is
  undefined.  A system call number beyond the table is not checked: the handler calls what it finds there, which is
  undefined too.
\<close>

definition interrupt_handler :: "ptr \<Rightarrow> 'a kernel_scheme \<Rightarrow> 'a kernel_scheme handled option" where
  "interrupt_handler sf s =
     (let s0 = emit Cli s; vector = sf_get sf sf_vector s0
      in if vector < 32 then
           (if vmm_current_pagemap s0 \<noteq> vmm_kernel_pagemap s0 then
              let s1 = emit (Load_cr3 (VIRTUAL_TO_PHYSICAL s0 (topLevel (mem s0) (vmm_kernel_pagemap s0)))) s0;
                  s2 = s1\<lparr>vmm_current_pagemap := vmm_kernel_pagemap s1\<rparr>
              in Option.bind (logln_va Lg_err ''arch/ints'' ''Process %d exited due to a Page Fault.\<newline>'' [] s2)
                   (\<lambda>s3. map_option (\<lambda>s4. Returned (finish_interrupt sf s4)) (schedule sf s3))
            else Some (Panics KMODE_CPU_EXCEPTION (sf + sf_vector) s0))
         else if vector = 32 then map_option (\<lambda>s1. Returned (finish_interrupt sf s1)) (schedule sf s0)
         else if vector = 128 then
           (let num = sf_get sf sf_rax s0
            in if SYSCALL_MAX_SLOTS \<le> unat num then None
               else case syscalls s0 ! unat num of
                 None \<Rightarrow> Some (Returned (finish_interrupt sf
                   (logln Lg_warn ''arch/ints'' ''No syscall with ID %d exists: ignoring.\<newline>'' [num] s0)))
               | Some f \<Rightarrow> Some (Returned (finish_interrupt sf (syscall_call f sf s0))))
         else Some (Returned (finish_interrupt sf s0)))"

section \<open>Boot\<close>

text \<open>What the boot loader answers to the requests of \<^verbatim>\<open>limine.c\<close>.\<close>

record limine_responses =
  framebuffers_0 :: ptr
  memmap_response :: "memmap_entry list"
  physical_base :: u64
  virtual_base :: u64
  hhdm_offset :: u64

definition limine_populate :: "limine_responses \<Rightarrow> 'a kernel_scheme \<Rightarrow> 'a kernel_scheme" where
  "limine_populate r s =
     s\<lparr>boot_framebuf := framebuffers_0 r, memmap_ptr := memmap_response r,
       kernel_phys_addr := physical_base r, kernel_virt_addr := virtual_base r, hhdm_off := hhdm_offset r\<rparr>"

text \<open>Where the linker put things: tables, stubs, functions, string literals and section bounds.\<close>

record kernel_image =
  gdt_addr :: u64
  tss_addr :: u64
  idt_addr :: u64
  isr_table_addr :: ptr
  idle_addr :: u64
  proc1_addr :: u64
  literal_addr :: "string \<Rightarrow> ptr"
  ld_symbols :: linker_symbols

definition arch_init_stage1 :: "kernel_image \<Rightarrow> 'a kernel_scheme \<Rightarrow> 'a kernel_scheme" where
  "arch_init_stage1 k s =
     logln Lg_progress ''arch'' ''Stage 1 initialization complete\<newline>'' []
       (idt_init (isr_table_addr k) (idt_addr k) (gdt_init (gdt_addr k) (tss_addr k) s))"

definition arch_init_stage2 :: "kernel_image \<Rightarrow> 'a kernel_scheme \<Rightarrow> 'a kernel_scheme option" where
  "arch_init_stage2 k s =
     Option.bind (pit_init 1000 s) (\<lambda>s1.
     Option.bind (sched_init (literal_addr k ''kernel'') (literal_addr k ''idle'') (idle_addr k) s1) (\<lambda>s2.
       Some (logln Lg_progress ''arch'' ''Stage 2 initialization complete\<newline>'' [] s2)))"

definition arch_init_fini :: "'a kernel_scheme \<Rightarrow> 'a kernel_scheme option" where
  "arch_init_fini s = pit_enable s"

text \<open>A sequence of calls of the logger without arguments.\<close>

definition log_lines :: "logtype \<Rightarrow> string list \<Rightarrow> 'a machine_scheme \<Rightarrow> 'a machine_scheme" where
  "log_lines lt msgs = fold (\<lambda>msg. logln lt ''kernel'' msg []) msgs"

text \<open>\<open>kmain\<close> up to its last loop, which halts the processor between interrupts.\<close>

definition kmain_x86_64 :: "limine_responses \<Rightarrow> kernel_image \<Rightarrow> 'a kernel_scheme \<Rightarrow> 'a kernel_scheme option" where
  "kmain_x86_64 r k s =
     Option.bind (serio_init (literal_addr k) (limine_populate r s)) (\<lambda>(_, s1).
     let s2 = log_lines Lg_info
           [''Soaplin v0.1 - Zephyr (Milestone 1)\<newline>'', ''Copyright (C) 2024 Sipaa Projects\<newline>'',
            ''Soaplin is FOSS software distrubuted under the MIT License\<newline>''] (emit Tty_enable s1)
     in Option.bind (syscall_init (arch_init_stage1 k s2)) (\<lambda>s3.
        Option.bind (vmm_init (ld_symbols k) (pmm_init s3)) (\<lambda>s4.
        Option.bind (arch_init_stage2 k (log_lines Lg_progress [''Memory management initialized\<newline>''] s4)) (\<lambda>s5.
        let s6 = log_lines Lg_info [''The kernel booted successfully.\<newline>''] (log_lines Lg_warn
              [''Due to something being broken in the kernel's user mode\<newline>'',
               ''implementation, all processes with the same privilege as\<newline>'',
               ''the kernel. Please be careful on what you run here. Thanks\<newline>\<newline>''] s5)
        in Option.bind (sched_new (literal_addr k ''Proc1'') s6) (\<lambda>(proc1p, s7).
           Option.bind (sched_new_thread proc1p (literal_addr k ''proc1p1'') (proc1_addr k) s7) (\<lambda>(_, s8).
             arch_init_fini s8))))))"

end
