(* ===== verification/Dispatcher.thy ===== *)
theory Dispatcher
  imports Prelude
begin

text \<open>
  The contract of a preemptive context switch: the switch saves the interrupted frame in the
  thread that ran, and leaves the saved frame of the thread it chooses where the interrupted one was.
  A frame lies where the interrupt pushed it, at a new address each time.  Between two switches the
  running thread may do what it likes, but not to the saved frames.  The scheduler provides the
  contract (theory SchedRing).
\<close>

text \<open>
  One period in which a thread other than \<open>t\<close> runs and is then interrupted.  The state goes with the
  address of the frame of the last interrupt.
\<close>

inductive away ::
  "('s \<Rightarrow> 's \<Rightarrow> bool) \<Rightarrow> ('a \<Rightarrow> bool) \<Rightarrow> ('a \<Rightarrow> 's \<Rightarrow> 's option) \<Rightarrow> ('s \<Rightarrow> 't) \<Rightarrow> 't \<Rightarrow> 'a \<times> 's \<Rightarrow> 'a \<times> 's \<Rightarrow> bool"
  for env apart switch running t where
  period: "running s \<noteq> t \<Longrightarrow> env s u \<Longrightarrow> apart a' \<Longrightarrow> switch a' u = Some s'
    \<Longrightarrow> away env apart switch running t (a, s) (a', s')"

inductive_cases awayE: "away env apart switch running t (a, s) (a', s')"

locale dispatcher =
  fixes inv :: "'s \<Rightarrow> bool"
    and apart :: "'a \<Rightarrow> bool"
    and switch :: "'a \<Rightarrow> 's \<Rightarrow> 's option"
    and env :: "'s \<Rightarrow> 's \<Rightarrow> bool"
    and running :: "'s \<Rightarrow> 't"
    and saved :: "'s \<Rightarrow> 't \<Rightarrow> 'f"
    and frame :: "'s \<Rightarrow> 'a \<Rightarrow> 'f"
    and threads :: "'t set"
  assumes switch_returns: "inv s \<Longrightarrow> apart a \<Longrightarrow> \<exists>s'. switch a s = Some s'"
    and inv_switch: "inv s \<Longrightarrow> apart a \<Longrightarrow> switch a s = Some s' \<Longrightarrow> inv s'"
    and saved_switch: "inv s \<Longrightarrow> apart a \<Longrightarrow> switch a s = Some s' \<Longrightarrow> t \<in> threads \<Longrightarrow>
      saved s' t = (if t = running s then frame s a else saved s t)"
    and frame_switch: "inv s \<Longrightarrow> apart a \<Longrightarrow> switch a s = Some s' \<Longrightarrow> frame s' a = saved s' (running s')"
    and running_thread: "inv s \<Longrightarrow> running s \<in> threads"
    and inv_env: "inv s \<Longrightarrow> env s u \<Longrightarrow> inv u"
    and running_env: "inv s \<Longrightarrow> env s u \<Longrightarrow> running u = running s"
    and saved_env: "inv s \<Longrightarrow> env s u \<Longrightarrow> t \<in> threads \<Longrightarrow> saved u t = saved s t"
begin

lemma away_keeps:
  assumes "away env apart switch running t (a, s) (a', s')" and "inv s" and "t \<in> threads"
  shows "inv s' \<and> saved s' t = saved s t \<and> frame s' a' = saved s' (running s')"
  using assms(1)
proof (rule awayE)
  fix u
  assume step: "running s \<noteq> t" "env s u" "apart a'" "switch a' u = Some s'"
  note u = inv_env[OF assms(2) step(2)] and r = running_env[OF assms(2) step(2)]
  have "saved s' t = saved u t" using saved_switch[OF u step(3,4) assms(3)] step(1) r by simp
  with inv_switch[OF u step(3,4)] frame_switch[OF u step(3,4)] saved_env[OF assms(2) step(2) assms(3)]
  show ?thesis by simp
qed

lemma away_many:
  assumes "(away env apart switch running t)\<^sup>*\<^sup>* (a, s) (a', s')" and "inv s" and "t \<in> threads"
    and "frame s a = saved s (running s)"
  shows "inv s' \<and> saved s' t = saved s t \<and> frame s' a' = saved s' (running s')"
  using assms(1)
proof (induction rule: rtranclp_induct2)
  case refl
  then show ?case using assms(2,4) by simp
next
  case (step b y c z)
  with away_keeps[OF step(2)] assms(3) show ?case by simp
qed

text \<open>A thread that is switched out at frame \<open>f\<close> comes back at frame \<open>f\<close>, wherever the two frames lie.\<close>

lemma resumes_where_interrupted:
  assumes "inv u" and "running u = t" and "apart a" and "switch a u = Some s"
    and "(away env apart switch running t)\<^sup>*\<^sup>* (a, s) (a', s')" and "running s' = t"
  shows "frame s' a' = frame u a"
proof -
  have t: "t \<in> threads" using running_thread[OF assms(1)] assms(2) by simp
  have "saved s t = frame u a" using saved_switch[OF assms(1,3,4) t] assms(2) by simp
  with away_many[OF assms(5) inv_switch[OF assms(1,3,4)] t frame_switch[OF assms(1,3,4)]] assms(6)
  show ?thesis by simp
qed

end

end
