(* ===== verification/VmmInit.thy ===== *)
theory VmmInit
  imports Vmm
begin

text \<open>
  The mapping loops of \<open>vmm_init\<close> as lists of entry writes, clients of the address-space contract,
  and what the kernel's page table translates when \<open>vmm_init\<close> returns.
\<close>

section \<open>Loops as lists of writes\<close>

definition span :: "u64 \<Rightarrow> u64 \<Rightarrow> ptr list" where
  "span a stop = (if a < stop then region_pages a (stop - a) else [])"

definition section_writes :: "u64 \<Rightarrow> u64 \<Rightarrow> u64 \<Rightarrow> u64 \<Rightarrow> u64 \<Rightarrow> (u64 \<times> u64) list" where
  "section_writes a stop virtBase physBase flags =
     map (\<lambda>x. (x, (x - virtBase + physBase) OR flags)) (span a stop)"

definition low_writes :: "u64 \<Rightarrow> u64 \<Rightarrow> u64 \<Rightarrow> (u64 \<times> u64) list" where
  "low_writes h a stop = concat (map (\<lambda>x. [(x, x OR (1 OR 2)), (x + h, x OR (1 OR 2))]) (span a stop))"

lemma span_step:
  assumes "unat a mod 4096 = 0" and "unat stop mod 4096 = 0" and "a < stop"
  shows "span a stop = a # span (a + PAGE_SIZE) stop" and "unat (a + PAGE_SIZE) = unat a + 4096"
proof -
  have lt: "unat a < unat stop" using assms(3) by (simp add: word_less_nat_alt)
  obtain i j where ij: "unat a = i * 4096" "unat stop = j * 4096"
    using assms(1,2) by (metis page_index)
  with lt have "i * 4096 < j * 4096" by simp
  then have "Suc i \<le> j" by (simp only: mult_less_cancel2 Suc_le_eq)
  then have "Suc i * 4096 \<le> j * 4096" by (rule mult_le_mono1)
  then have le: "unat a + 4096 \<le> unat stop" using ij by simp
  with unat_lt64[of stop] show n: "unat (a + PAGE_SIZE) = unat a + 4096"
    by (simp add: unat_plus_small PAGE_SIZE_def)
  have d: "unat (stop - a) = unat stop - unat a" using assms(3) by (simp add: unat_minus_le)
  have "PMM_BLOCK_SIZE \<le> stop - a" using le d by (simp add: word_le_nat_alt PMM_BLOCK_SIZE_def)
  from region_pages_step[OF this] have r: "region_pages a (stop - a)
      = a # region_pages (a + PAGE_SIZE) (stop - (a + PAGE_SIZE))"
    by (simp add: PMM_BLOCK_SIZE_def PAGE_SIZE_def algebra_simps)
  show "span a stop = a # span (a + PAGE_SIZE) stop"
  proof (cases "a + PAGE_SIZE < stop")
    case True
    with r assms(3) show ?thesis by (simp add: span_def)
  next
    case False
    then have "unat stop = unat (a + PAGE_SIZE)" using le n by (simp add: word_less_nat_alt)
    then have "stop = a + PAGE_SIZE" by (rule unsigned_word_eqI)
    with r assms(3) show ?thesis by (simp add: span_def region_pages_def PMM_BLOCK_SIZE_def)
  qed
qed

lemma writes_frame:
  assumes "vm_inv pm s" and "card (vm.needed pm ws s) \<le> length (free_pages s)"
  shows "vm_frame pm s (vm.writes pm ws s)"
  using assms
proof (induction ws arbitrary: s)
  case Nil
  then show ?case by (simp add: vm.writes_def vm_frame_refl)
next
  case (Cons w ws)
  obtain va e where w: "w = (va, e)" by (cases w)
  note fits = Cons.prems(2)[unfolded w]
  have "vm_frame pm s (put_entry pm va e s)"
    using put_entry_law[OF Cons.prems(1) vm.first_put_fits[OF fits]] by blast
  with Cons.IH[OF vm.rest_fits[OF Cons.prems(1) fits]] show ?case
    by (simp add: w vm.writes_Cons) (blast intro: vm_frame_trans)
qed

lemma put_entry_kernel:
  assumes "vm_inv pm s" and "card (vm.needed pm ((va, e) # ws) s) \<le> length (free_pages s)"
  shows "vmm_kernel_pagemap (put_entry pm va e s) = vmm_kernel_pagemap s"
    "hhdm_off (put_entry pm va e s) = hhdm_off s"
  using put_entry_law[OF assms(1) vm.first_put_fits[OF assms(2)], of e] by (simp_all add: vm_frame_def)

lemma map_section_writes:
  assumes "unat a mod 4096 = 0" and "unat stop mod 4096 = 0"
    and "vm_inv kpm s" and "vmm_kernel_pagemap s = kpm"
    and "card (vm.needed kpm (section_writes a stop v p fl) s) \<le> length (free_pages s)"
  shows "map_section a stop v p fl s = Some (vm.writes kpm (section_writes a stop v p fl) s)"
  using assms(1,3-5)
proof (induction "unat stop - unat a" arbitrary: a s rule: less_induct)
  case less
  show ?case
  proof (cases "a < stop")
    case False
    then show ?thesis by (simp add: map_section.simps[of a] section_writes_def span_def vm.writes_def)
  next
    case True
    note step = span_step[OF less.prems(1) assms(2) True]
    have ws: "section_writes a stop v p fl
        = (a, (a - v + p) OR fl) # section_writes (a + PAGE_SIZE) stop v p fl"
      by (simp add: section_writes_def step(1))
    note fits = less.prems(4)[unfolded ws]
    have dec: "unat stop - unat (a + PAGE_SIZE) < unat stop - unat a"
      using True step(2) by (simp add: word_less_nat_alt)
    have "unat (a + PAGE_SIZE) mod 4096 = 0" using less.prems(1) step(2) by simp
    from less.hyps[OF dec this vm.rest_fits(1)[OF less.prems(2) fits] _ vm.rest_fits(2)[OF less.prems(2) fits]]
    have "map_section (a + PAGE_SIZE) stop v p fl (put_entry kpm a ((a - v + p) OR fl) s)
        = Some (vm.writes kpm (section_writes (a + PAGE_SIZE) stop v p fl) (put_entry kpm a ((a - v + p) OR fl) s))"
      using put_entry_kernel[OF less.prems(2) fits] less.prems(3) by simp
    then show ?thesis
      by (simp add: map_section.simps[of a] True less.prems(3) vmm_map_put ws vm.writes_Cons)
  qed
qed

lemma map_low_writes:
  assumes "unat a mod 4096 = 0" and "unat stop mod 4096 = 0"
    and "vm_inv kpm s" and "vmm_kernel_pagemap s = kpm" and "hhdm_off s = h"
    and "card (vm.needed kpm (low_writes h a stop) s) \<le> length (free_pages s)"
  shows "map_low a stop s = Some (vm.writes kpm (low_writes h a stop) s)"
  using assms(1,3-6)
proof (induction "unat stop - unat a" arbitrary: a s rule: less_induct)
  case less
  show ?case
  proof (cases "a < stop")
    case False
    then show ?thesis by (simp add: map_low.simps[of a] low_writes_def span_def vm.writes_def)
  next
    case True
    note step = span_step[OF less.prems(1) assms(2) True]
    let ?e = "a OR (1 OR 2)" and ?ws = "low_writes h (a + PAGE_SIZE) stop"
    have ws: "low_writes h a stop = (a, ?e) # (a + h, ?e) # ?ws"
      by (simp only: low_writes_def step(1) list.map concat.simps append_Cons append_Nil)
    note fits = less.prems(5)[unfolded ws]
    let ?s1 = "put_entry kpm a ?e s"
    note inv1 = vm.rest_fits[OF less.prems(2) fits]
    let ?s2 = "put_entry kpm (a + h) ?e ?s1"
    note inv2 = vm.rest_fits[OF inv1]
    have k1: "vmm_kernel_pagemap ?s1 = kpm" "hhdm_off ?s1 = h"
      using put_entry_kernel[OF less.prems(2) fits] less.prems(3,4) by simp_all
    have k2: "vmm_kernel_pagemap ?s2 = kpm" "hhdm_off ?s2 = h"
      using put_entry_kernel[OF inv1] k1 by simp_all
    have dec: "unat stop - unat (a + PAGE_SIZE) < unat stop - unat a"
      using True step(2) by (simp add: word_less_nat_alt)
    have "unat (a + PAGE_SIZE) mod 4096 = 0" using less.prems(1) step(2) by simp
    from less.hyps[OF dec this inv2(1) k2 inv2(2)]
    have IH: "map_low (a + PAGE_SIZE) stop ?s2 = Some (vm.writes kpm ?ws ?s2)" .
    have "map_low a stop s = map_low (a + PAGE_SIZE) stop ?s2"
      by (simp only: map_low.simps[of a] True if_True Let_def less.prems(3) k1 vmm_map_put
          PHYSICAL_TO_VIRTUAL_def)
    then show ?thesis by (simp only: IH ws vm.writes_Cons)
  qed
qed


section \<open>Telling pages apart by their key\<close>

lemma high_bit:
  assumes "0xffff800000000000 \<le> x" and "47 \<le> i" and "i < 64"
  shows "bit (x::u64) i"
proof -
  have "2 ^ 64 - 2 ^ 47 \<le> unat x" using assms(1) by (simp add: word_le_nat_alt)
  then have "unat x div 2 ^ 47 = 2 ^ 17 - 1" using unat_lt64[of x] by (intro div_nat_eqI) simp_all
  then have "drop_bit 47 (unat x) = mask 17" by (simp add: drop_bit_eq_div mask_eq_exp_minus_1)
  moreover have "bit (drop_bit 47 (unat x)) (i - 47) \<longleftrightarrow> bit (unat x) i"
    using assms(2) by (simp add: bit_drop_bit_eq)
  moreover have "i - 47 < 17" using assms(2,3) by linarith
  ultimately have "bit (unat x) i" by (simp add: bit_mask_iff)
  then show ?thesis by (simp add: bit_unsigned_iff)
qed

lemma aligned_eqI:
  assumes "unat x mod 4096 = 0" and "unat y mod 4096 = 0"
    and "\<And>i. 12 \<le> i \<Longrightarrow> i < 64 \<Longrightarrow> bit x i = bit y i"
  shows "x = (y::u64)"
proof (rule bit_word_eqI)
  fix i :: nat
  assume "i < LENGTH(64)"
  then show "bit x i = bit y i"
    using assms(3)[of i] aligned_bit[OF assms(1), of i] aligned_bit[OF assms(2), of i]
    by (cases "12 \<le> i") auto
qed

lemma low_keys:
  assumes "key x = key y" and "unat x < 2 ^ 32" and "unat y < 2 ^ 32"
    and "unat x mod 4096 = 0" and "unat y mod 4096 = 0"
  shows "x = y"
proof (rule aligned_eqI[OF assms(4,5)])
  fix i :: nat
  assume "12 \<le> i" "i < 64"
  then show "bit x i = bit y i"
    using assms(1)[unfolded key_eq_iff] small_bit[OF assms(2), of i] small_bit[OF assms(3), of i]
    by (cases "i < 48") auto
qed

lemma high_keys:
  assumes "key x = key y" and "0xffff800000000000 \<le> x" and "0xffff800000000000 \<le> y"
    and "unat x mod 4096 = 0" and "unat y mod 4096 = 0"
  shows "x = y"
proof (rule aligned_eqI[OF assms(4,5)])
  fix i :: nat
  assume "12 \<le> i" "i < 64"
  then show "bit x i = bit y i"
    using assms(1)[unfolded key_eq_iff] high_bit[OF assms(2), of i] high_bit[OF assms(3), of i]
    by (cases "i < 48") auto
qed

lemma low_high_keys:
  assumes "unat x < 2 ^ 32" and "0xffff800000000000 \<le> y"
  shows "key x \<noteq> key y"
  using high_bit[OF assms(2), of 47] small_bit[OF assms(1), of 47]
  by (auto simp: key_eq_iff intro!: exI[of _ 47])

section \<open>The tables a list of writes needs\<close>

definition all_tables :: "(u64 \<times> u64) list \<Rightarrow> u64 list set" where
  "all_tables ws = (\<Union>w \<in> set ws. spine (fst w))"

definition entries_of :: "(u64 \<times> u64) list \<Rightarrow> u64 list \<Rightarrow> u64 option" where
  "entries_of ws = fold (\<lambda>(va, e) f. f(key va := present e)) ws (\<lambda>_. None)"

text \<open>The state after the writes \<open>ws\<close>, starting from \<open>N\<close> free pages and an empty page map.\<close>

definition written :: "ptr \<Rightarrow> u64 \<Rightarrow> nat \<Rightarrow> (u64 \<times> u64) list \<Rightarrow> 'a vmm_scheme \<Rightarrow> bool" where
  "written kpm h N ws s \<longleftrightarrow> vm_inv kpm s \<and> vmm_kernel_pagemap s = kpm \<and> hhdm_off s = h
     \<and> translation kpm s = entries_of ws \<and> tables_of kpm s = insert [] (all_tables ws)
     \<and> length (free_pages s) + card (all_tables ws) = N"

lemma finite_all_tables [simp]: "finite (all_tables ws)"
  by (simp add: all_tables_def spine_def)

lemma Nil_all_tables: "[] \<notin> all_tables ws"
  by (auto simp: all_tables_def spine_def key_def)

lemma written_fits:
  assumes "written kpm h N ws s" and "card (all_tables (ws @ vs)) \<le> N"
  shows "card (vm.needed kpm vs s) \<le> length (free_pages s)"
proof -
  have "vm.needed kpm vs s = all_tables (ws @ vs) - all_tables ws"
    using assms(1) Nil_all_tables[of vs]
    by (auto simp: vm.needed_def written_def all_tables_def)
  moreover have "all_tables ws \<subseteq> all_tables (ws @ vs)" by (auto simp: all_tables_def)
  ultimately have "card (vm.needed kpm vs s) = card (all_tables (ws @ vs)) - card (all_tables ws)"
    by (simp add: card_Diff_subset)
  then show ?thesis using assms unfolding written_def by linarith
qed

lemma written_more:
  assumes "written kpm h N ws s" and "card (all_tables (ws @ vs)) \<le> N"
  shows "written kpm h N (ws @ vs) (vm.writes kpm vs s)"
proof -
  note fits = written_fits[OF assms]
  have inv: "vm_inv kpm s" using assms(1) by (simp add: written_def)
  note law = vm.writes_law[OF inv fits] and frame = writes_frame[OF inv fits]
  have tabs: "tables_of kpm (vm.writes kpm vs s) = insert [] (all_tables (ws @ vs))"
    using law assms(1) by (auto simp: written_def all_tables_def)
  have "all_tables (ws @ vs) = all_tables ws \<union> vm.needed kpm vs s" "all_tables ws \<inter> vm.needed kpm vs s = {}"
    using assms(1) Nil_all_tables[of vs]
    by (auto simp: vm.needed_def written_def all_tables_def)
  then have "card (all_tables (ws @ vs)) = card (all_tables ws) + card (vm.needed kpm vs s)"
    using card_Un_disjoint[of "all_tables ws"] by (simp add: vm.finite_needed)
  with tabs law frame assms(1) show ?thesis
    by (simp add: written_def vm_frame_def entries_of_def)
qed

lemma vm_emit:
  "free_pages (emit e s) = free_pages s" "pmm_ok (emit e s) = pmm_ok s"
  "hhdm_off (emit e s) = hhdm_off s" "vmm_kernel_pagemap (emit e s) = vmm_kernel_pagemap s"
  "kernel_phys_addr (emit e s) = kernel_phys_addr s" "kernel_virt_addr (emit e s) = kernel_virt_addr s"
  "direct_map_ok (emit e s) = direct_map_ok s"
  "translation pm (emit e s) = translation pm s" "tables_of pm (emit e s) = tables_of pm s"
  "vm_inv pm (emit e s) = vm_inv pm s"
  by (simp_all add: emit_def free_pages_def pmm_ok_def direct_map_ok_def translation_def
      tables_of_def table_at_def vm_inv_def space_pages_def virtual_free_def)

lemma written_emit: "written kpm h N ws (emit e s) = written kpm h N ws s"
  by (simp add: written_def vm_emit)

text \<open>
  What the page-table code leaves alone on the way: the heap, the state above it, and all memory but the direct-map
  images of the pages that were free at the start.
\<close>

definition kept :: "ptr \<Rightarrow> 'a vmm_scheme \<Rightarrow> 'a vmm_scheme \<Rightarrow> bool" where
  "kept kpm s0 s \<longleftrightarrow> pmm_free_blocks s = pmm_free_blocks s0 \<and> vmm.more s = vmm.more s0 \<and> dev s = dev s0
     \<and> space_pages kpm s \<subseteq> virtual_free s0
     \<and> (\<forall>x. (\<forall>a \<in> virtual_free s0. \<not> in_range a 4096 x) \<longrightarrow> mem s x = mem s0 x)"

lemma kept_emit: "kept kpm s0 (emit e s) = kept kpm s0 s"
  and kept_base_emit: "kept kpm (emit e s0) s = kept kpm s0 s"
  by (simp_all add: kept_def emit_def space_pages_def virtual_free_def table_at_def free_pages_def)

lemma kept_more:
  assumes "written kpm h N ws s" and "kept kpm s0 s" and "card (all_tables (ws @ vs)) \<le> N"
  shows "kept kpm s0 (vm.writes kpm vs s)"
proof -
  have inv: "vm_inv kpm s" using assms(1) by (simp add: written_def)
  note frame = writes_frame[OF inv written_fits[OF assms(1,3)], unfolded vm_frame_def]
  have "mem (vm.writes kpm vs s) x = mem s0 x" if "\<forall>a \<in> virtual_free s0. \<not> in_range a 4096 x" for x
    using that frame assms(2) unfolding kept_def by (metis subsetD)
  with frame assms(2) show ?thesis by (simp add: kept_def)
qed


section \<open>The kernel's page table\<close>

lemma aligned_ALIGN: "unat (ALIGN_DOWN x PAGE_SIZE) mod 4096 = 0" "unat (ALIGN_UP x PAGE_SIZE) mod 4096 = 0"
proof -
  have "unat (y * 4096) mod 4096 = 0" for y :: u64
  proof -
    have "unat (y * 4096) = (unat y * 4096) mod 2 ^ 64" by (simp only: unat_word_ariths) simp
    then show ?thesis by (simp add: mod_mod_cancel)
  qed
  then show "unat (ALIGN_DOWN x PAGE_SIZE) mod 4096 = 0" "unat (ALIGN_UP x PAGE_SIZE) mod 4096 = 0"
    by (simp_all add: ALIGN_DOWN_def ALIGN_UP_def PAGE_SIZE_def)
qed

definition text_writes :: "linker_symbols \<Rightarrow> 'a vmm_scheme \<Rightarrow> (u64 \<times> u64) list" where
  "text_writes ld s = section_writes (ALIGN_DOWN (text_start_ld ld) PAGE_SIZE)
     (ALIGN_UP (text_end_ld ld) PAGE_SIZE) (kernel_virt_addr s) (kernel_phys_addr s) 1"

definition rodata_writes :: "linker_symbols \<Rightarrow> 'a vmm_scheme \<Rightarrow> (u64 \<times> u64) list" where
  "rodata_writes ld s = section_writes (ALIGN_DOWN (rodata_start_ld ld) PAGE_SIZE)
     (ALIGN_UP (rodata_end_ld ld) PAGE_SIZE) (kernel_virt_addr s) (kernel_phys_addr s) (1 OR push_bit 63 1)"

definition data_writes :: "linker_symbols \<Rightarrow> 'a vmm_scheme \<Rightarrow> (u64 \<times> u64) list" where
  "data_writes ld s = section_writes (ALIGN_DOWN (data_start_ld ld) PAGE_SIZE)
     (ALIGN_UP (data_end_ld ld) PAGE_SIZE) (kernel_virt_addr s) (kernel_phys_addr s)
     (1 OR 2 OR push_bit 63 1)"

definition init_writes :: "linker_symbols \<Rightarrow> 'a vmm_scheme \<Rightarrow> (u64 \<times> u64) list" where
  "init_writes ld s = text_writes ld s @ rodata_writes ld s @ data_writes ld s
     @ low_writes (hhdm_off s) 0 0x100000000"

lemma card_all_tables_prefix: "card (all_tables ws) \<le> card (all_tables (ws @ vs))"
  by (rule card_mono) (auto simp: all_tables_def spine_def)

lemma init_tables_written:
  assumes "direct_map_ok s" and "3 \<le> length (free_pages s)"
  defines "kpm \<equiv> hd (free_pages s) + hhdm_off s"
  shows "written kpm (hhdm_off s) (length (free_pages s) - 3) [] (vmm_init_tables s)"
    and "kernel_phys_addr (vmm_init_tables s) = kernel_phys_addr s"
    and "kernel_virt_addr (vmm_init_tables s) = kernel_virt_addr s"
    and "kept kpm s (vmm_init_tables s)"
proof -
  obtain q1 q2 q3 qs where q: "free_pages s = q1 # q2 # q3 # qs"
    using assms(2) by (auto simp: numeral_eq_Suc Suc_le_length_iff)
  from init_tables_space[OF assms(1) q] show "written kpm (hhdm_off s) (length (free_pages s) - 3) [] (vmm_init_tables s)"
    "kernel_phys_addr (vmm_init_tables s) = kernel_phys_addr s"
    "kernel_virt_addr (vmm_init_tables s) = kernel_virt_addr s" "kept kpm s (vmm_init_tables s)"
    by (simp_all add: written_def q entries_of_def all_tables_def kept_def kpm_def)
qed

text \<open>One mapping loop, after the line it logs.\<close>

lemma section_stage:
  assumes "written kpm h N ws s" and "kept kpm s0 s" and "card (all_tables (ws @ vs)) \<le> N"
    and "vs = section_writes (ALIGN_DOWN a PAGE_SIZE) (ALIGN_UP b PAGE_SIZE) v p fl"
  obtains s' where "map_section (ALIGN_DOWN a PAGE_SIZE) (ALIGN_UP b PAGE_SIZE) v p fl (emit e s) = Some s'"
    "written kpm h N (ws @ vs) s'" "kept kpm s0 s'"
proof -
  have w: "written kpm h N ws (emit e s)" and k: "kept kpm s0 (emit e s)"
    using assms(1,2) by (simp_all add: written_emit kept_emit)
  then have inv: "vm_inv kpm (emit e s)" "vmm_kernel_pagemap (emit e s) = kpm" by (simp_all add: written_def)
  have "map_section (ALIGN_DOWN a PAGE_SIZE) (ALIGN_UP b PAGE_SIZE) v p fl (emit e s)
      = Some (vm.writes kpm vs (emit e s))"
    unfolding assms(4) using written_fits[OF w assms(3)] assms(4)
    by (intro map_section_writes aligned_ALIGN inv) simp
  then show thesis using that written_more[OF w assms(3)] kept_more[OF w k assms(3)] by blast
qed

lemma low_stage:
  assumes "written kpm h N ws s" and "kept kpm s0 s"
    and "card (all_tables (ws @ low_writes h 0 0x100000000)) \<le> N"
  obtains s' where "map_low 0 0x100000000 (emit e s) = Some s'"
    "written kpm h N (ws @ low_writes h 0 0x100000000) s'" "kept kpm s0 s'"
proof -
  have w: "written kpm h N ws (emit e s)" and k: "kept kpm s0 (emit e s)"
    using assms(1,2) by (simp_all add: written_emit kept_emit)
  then have inv: "vm_inv kpm (emit e s)" "vmm_kernel_pagemap (emit e s) = kpm" "hhdm_off (emit e s) = h"
    by (simp_all add: written_def)
  have "map_low 0 0x100000000 (emit e s) = Some (vm.writes kpm (low_writes h 0 0x100000000) (emit e s))"
    using written_fits[OF w assms(3)] by (intro map_low_writes inv) simp_all
  then show thesis using that written_more[OF w assms(3)] kept_more[OF w k assms(3)] by blast
qed

lemma vmm_init_written:
  assumes ok: "direct_map_ok s" and room: "card (all_tables (init_writes ld s)) + 3 \<le> length (free_pages s)"
  defines "kpm \<equiv> hd (free_pages s) + hhdm_off s"
  obtains s5 where "written kpm (hhdm_off s) (length (free_pages s) - 3) (init_writes ld s) s5" "kept kpm s s5"
    "vmm_init ld s = Some (logln Lg_progress ''vmm'' ''Initialized!\<newline>'' [] (vmm_load_pagemap kpm s5))"
proof -
  let ?N = "length (free_pages s) - 3" and ?h = "hhdm_off s"
  let ?t = "text_writes ld s" and ?r = "rodata_writes ld s" and ?d = "data_writes ld s"
  let ?l = "low_writes ?h 0 0x100000000"
  let ?e0 = "Logln Lg_info ''vmm'' ''Creating the kernel page map...\<newline>'' []"
  let ?e1 = "Logln Lg_info ''vmm'' ''Mapping .text section...\<newline>'' []"
  let ?e2 = "Logln Lg_info ''vmm'' ''Mapping .rodata section...\<newline>'' []"
  let ?e3 = "Logln Lg_info ''vmm'' ''Mapping .data section...\<newline>'' []"
  let ?e4 = "Logln Lg_info ''vmm'' ''Mapping address from 0x0 to 0x100000000...\<newline>'' []"
  define s1 where "s1 = vmm_init_tables (emit ?e0 s)"
  have w1: "written kpm ?h ?N [] s1" and k1: "kernel_phys_addr s1 = kernel_phys_addr s"
    "kernel_virt_addr s1 = kernel_virt_addr s" and c1: "kept kpm s s1"
    using init_tables_written[of "emit ?e0 s"] ok room by (simp_all add: s1_def vm_emit kpm_def kept_base_emit)
  have fit: "card (all_tables ((([] @ ?t) @ ?r) @ ?d @ ?l)) \<le> ?N" using room by (simp add: init_writes_def)
  then have f4: "card (all_tables ((((([] @ ?t) @ ?r) @ ?d) @ ?l))) \<le> ?N" by simp
  note f3 = order_trans[OF card_all_tables_prefix f4]
  note f2 = order_trans[OF card_all_tables_prefix f3]
  note f1 = order_trans[OF card_all_tables_prefix f2]
  obtain s2 where m2: "map_section (ALIGN_DOWN (text_start_ld ld) PAGE_SIZE) (ALIGN_UP (text_end_ld ld) PAGE_SIZE)
      (kernel_virt_addr s) (kernel_phys_addr s) 1 (emit ?e1 s1) = Some s2"
    and w2: "written kpm ?h ?N ([] @ ?t) s2" and c2: "kept kpm s s2"
    by (rule section_stage[OF w1 c1 f1 text_writes_def])
  obtain s3 where m3: "map_section (ALIGN_DOWN (rodata_start_ld ld) PAGE_SIZE) (ALIGN_UP (rodata_end_ld ld) PAGE_SIZE)
      (kernel_virt_addr s) (kernel_phys_addr s) (1 OR push_bit 63 1) (emit ?e2 s2) = Some s3"
    and w3: "written kpm ?h ?N (([] @ ?t) @ ?r) s3" and c3: "kept kpm s s3"
    by (rule section_stage[OF w2 c2 f2 rodata_writes_def])
  obtain s4 where m4: "map_section (ALIGN_DOWN (data_start_ld ld) PAGE_SIZE) (ALIGN_UP (data_end_ld ld) PAGE_SIZE)
      (kernel_virt_addr s) (kernel_phys_addr s) (1 OR 2 OR push_bit 63 1) (emit ?e3 s3) = Some s4"
    and w4: "written kpm ?h ?N ((([] @ ?t) @ ?r) @ ?d) s4" and c4: "kept kpm s s4"
    by (rule section_stage[OF w3 c3 f3 data_writes_def])
  obtain s5 where m5: "map_low 0 0x100000000 (emit ?e4 s4) = Some s5"
    and w5: "written kpm ?h ?N (((([] @ ?t) @ ?r) @ ?d) @ ?l) s5" and c5: "kept kpm s s5"
    by (rule low_stage[OF w4 c4 f4])
  have kp: "vmm_kernel_pagemap s5 = kpm" using w5 by (simp add: written_def)
  show thesis
  proof (rule that)
    show "written kpm ?h ?N (init_writes ld s) s5" using w5 by (simp add: init_writes_def)
    show "kept kpm s s5" by (rule c5)
    show "vmm_init ld s = Some (logln Lg_progress ''vmm'' ''Initialized!\<newline>'' [] (vmm_load_pagemap kpm s5))"
      unfolding vmm_init_def Let_def s1_def[symmetric] k1
      unfolding m2 bind.bind_lunit unfolding m3 bind.bind_lunit
      unfolding m4 bind.bind_lunit unfolding m5 bind.bind_lunit kp ..
  qed
qed


section \<open>Reading the table back\<close>

lemma span_mem:
  assumes "unat a mod 4096 = 0" and "unat stop mod 4096 = 0"
  shows "x \<in> set (span a stop) \<longleftrightarrow> unat a \<le> unat x \<and> unat x < unat stop \<and> unat x mod 4096 = 0"
  using assms(1)
proof (induction "unat stop - unat a" arbitrary: a rule: less_induct)
  case less
  show ?case
  proof (cases "a < stop")
    case False
    then show ?thesis by (auto simp: span_def word_less_nat_alt)
  next
    case True
    note step = span_step[OF less.prems assms(2) True]
    have lt: "unat a < unat stop" using True by (simp add: word_less_nat_alt)
    have next_ok: "unat (a + PAGE_SIZE) mod 4096 = 0" using step(2) less.prems by simp
    have "x = a" if "unat a \<le> unat x" "unat x < unat a + 4096" "unat x mod 4096 = 0"
      using page_clash[OF that(3) less.prems, of "unat x"] that by simp
    with less.hyps[OF _ next_ok] lt less.prems step show ?thesis by force
  qed
qed

definition page_base :: "u64 \<Rightarrow> u64" where "page_base va = va AND NOT 0xfff"

lemma bit_page_base: "bit (page_base va) i \<longleftrightarrow> 12 \<le> i \<and> bit va i"
proof -
  have "page_base va = va AND NOT (mask 12)" by (simp add: page_base_def mask_eq_exp_minus_1)
  then show ?thesis by (auto simp: bit_and_iff bit_not_iff bit_mask_iff dest: bit_imp_le_length)
qed

lemma unat_drop: "unat (drop_bit n x) = unat x div 2 ^ n" for x :: u64
proof -
  have "unat (drop_bit n x) = drop_bit n (unat x)" by (rule unat_drop_bit_eq)
  also have "\<dots> = unat x div 2 ^ n" by (rule drop_bit_eq_div)
  finally show ?thesis .
qed

lemma unat_drop12: "unat (drop_bit 12 x) = unat x div 4096" for x :: u64
  using unat_drop[of 12 x] by simp

lemma unat_page_base: "unat (page_base va) = unat va div 4096 * 4096"
proof -
  have "page_base va = push_bit 12 (drop_bit 12 va)"
    by (rule bit_word_eqI) (auto simp: bit_page_base bit_push_bit_iff bit_drop_bit_eq)
  then have "page_base va = drop_bit 12 va * 4096" by (simp only: push_bit_eq_mult) simp
  then have "unat (page_base va) = (unat (drop_bit 12 va) * unat (4096::u64)) mod 2 ^ LENGTH(64)"
    by (simp only: unat_word_ariths)
  then have "unat (page_base va) = (unat va div 4096 * 4096) mod 2 ^ 64"
    by (simp only: unat_drop12) simp
  moreover have "unat va div 4096 * 4096 \<le> unat va" by (rule div_times_less_eq_dividend)
  ultimately show ?thesis using unat_lt64[of va] by simp
qed

lemma key_page_base: "key (page_base va) = key va"
  by (auto simp: key_eq_iff bit_page_base)

lemma key_page_base_plus:
  assumes "unat h mod 4096 = 0" and "unat va + unat h < 2 ^ 64"
  shows "key (page_base va + h) = key (va + h)"
proof -
  obtain j where j: "unat h = j * 4096" using assms(1) by (rule page_index)
  have le: "unat (page_base va) \<le> unat va" by (simp add: unat_page_base div_times_less_eq_dividend)
  have u: "unat (va + h) = unat va + unat h" "unat (page_base va + h) = unat (page_base va) + unat h"
    using assms(2) le by (simp_all add: unat_plus_small)
  have "unat (page_base va + h) div 4096 = unat (va + h) div 4096"
    unfolding u unat_page_base j by simp
  then have "unat (drop_bit 12 (page_base va + h)) = unat (drop_bit 12 (va + h))"
    by (simp only: unat_drop12)
  then have "drop_bit 12 (page_base va + h) = drop_bit 12 (va + h)" by (rule unsigned_word_eqI)
  then show ?thesis by (simp only: key_page)
qed

text \<open>The last loop wins over the section loops, and its two halves do not meet.\<close>

lemma entries_append_hit:
  assumes "\<exists>w \<in> set vs. key (fst w) = k" and "\<forall>w \<in> set vs. key (fst w) = k \<longrightarrow> present (snd w) = r"
  shows "entries_of (ws @ vs) k = r"
  using vm.fold_upd_hit[OF assms] by (simp add: entries_of_def)

lemma entries_append_other:
  assumes "\<forall>w \<in> set vs. key (fst w) \<noteq> k"
  shows "entries_of (ws @ vs) k = entries_of ws k"
  using vm.fold_upd_other[OF assms] by (simp add: entries_of_def)

lemma present_low: "present (x OR (1 OR 2)) = Some (x OR 3)" for x :: u64
proof -
  have "bit ((x OR 3) AND 1) 0" by (simp only: bit_and_iff bit_or_iff bit_1_iff) (simp add: bit_0)
  then have "(x OR 3) AND 1 \<noteq> 0" by (metis bit_0_eq bot_apply bot_bool_def)
  then show ?thesis by (simp add: present_def)
qed

lemma low_writes_mem:
  "w \<in> set (low_writes h 0 0x100000000) \<longleftrightarrow> (\<exists>x. unat x < 2 ^ 32 \<and> unat x mod 4096 = 0
     \<and> (w = (x, x OR (1 OR 2)) \<or> w = (x + h, x OR (1 OR 2))))"
proof -
  have "x \<in> set (span 0 0x100000000) \<longleftrightarrow> unat x < 2 ^ 32 \<and> unat x mod 4096 = 0" for x
    using span_mem[of 0 "0x100000000" x] by simp
  then show ?thesis by (auto simp: low_writes_def)
qed

lemma high_window:
  fixes h :: u64
  assumes "0xffff800000000000 \<le> h" and "unat h + 2 ^ 32 \<le> 2 ^ 64" and "unat x < 2 ^ 32"
  shows "0xffff800000000000 \<le> x + h" and "unat (x + h) = unat x + unat h"
proof -
  show n: "unat (x + h) = unat x + unat h"
    using assms(2,3) by (intro unat_plus_small) linarith
  show "0xffff800000000000 \<le> x + h" using assms(1) n by (simp add: word_le_nat_alt)
qed

lemma low_entries:
  assumes h: "0xffff800000000000 \<le> h" "unat h + 2 ^ 32 \<le> 2 ^ 64" "unat h mod 4096 = 0"
    and va: "unat va < 2 ^ 32"
  shows "entries_of (ws @ low_writes h 0 0x100000000) (key va) = Some (page_base va OR 3)"
    and "entries_of (ws @ low_writes h 0 0x100000000) (key (va + h)) = Some (page_base va OR 3)"
proof -
  let ?x = "page_base va" and ?L = "low_writes h 0 0x100000000"
  have x: "unat ?x < 2 ^ 32" "unat ?x mod 4096 = 0"
    using va div_times_less_eq_dividend[of "unat va" 4096]
    by (simp_all add: unat_page_base del: div_times_less_eq_dividend)
  have in1: "(?x, ?x OR (1 OR 2)) \<in> set ?L" and in2: "(?x + h, ?x OR (1 OR 2)) \<in> set ?L"
    using x by (auto simp: low_writes_mem)
  have kh: "key (va + h) = key (?x + h)" using key_page_base_plus[OF h(3)] va h(2) by simp
  have al: "unat (y + h) mod 4096 = 0" if "unat y < 2 ^ 32" "unat y mod 4096 = 0" for y
    unfolding high_window(2)[OF h(1,2) that(1)] using that(2) h(3) by (metis add.right_neutral mod_add_eq mod_0)
  have lo: "\<forall>w \<in> set ?L. key (fst w) = key ?x \<longrightarrow> present (snd w) = Some (?x OR 3)"
  proof (intro ballI impI)
    fix w assume w: "w \<in> set ?L" "key (fst w) = key ?x"
    from iffD1[OF low_writes_mem w(1)] obtain y where y: "unat y < 2 ^ 32" "unat y mod 4096 = 0"
      "w = (y, y OR (1 OR 2)) \<or> w = (y + h, y OR (1 OR 2))"
      by (elim exE conjE)
    have "key ?x \<noteq> key (y + h)" using x(1) high_window(1)[OF h(1,2) y(1)] by (rule low_high_keys)
    then have "w \<noteq> (y + h, y OR (1 OR 2))" using w(2) by (cases w) (simp only: fst_conv prod.inject, metis)
    then have w': "w = (y, y OR (1 OR 2))" using y(3) by blast
    with w(2) have "key y = key ?x" by (simp only: fst_conv)
    then have "y = ?x" using y(1) x(1) y(2) x(2) by (rule low_keys)
    with w' show "present (snd w) = Some (?x OR 3)" by (simp only: snd_conv present_low)
  qed
  have hi: "\<forall>w \<in> set ?L. key (fst w) = key (?x + h) \<longrightarrow> present (snd w) = Some (?x OR 3)"
  proof (intro ballI impI)
    fix w assume w: "w \<in> set ?L" "key (fst w) = key (?x + h)"
    from iffD1[OF low_writes_mem w(1)] obtain y where y: "unat y < 2 ^ 32" "unat y mod 4096 = 0"
      "w = (y, y OR (1 OR 2)) \<or> w = (y + h, y OR (1 OR 2))"
      by (elim exE conjE)
    have "key y \<noteq> key (?x + h)" using y(1) high_window(1)[OF h(1,2) x(1)] by (rule low_high_keys)
    then have "w \<noteq> (y, y OR (1 OR 2))" using w(2) by (cases w) (simp only: fst_conv prod.inject, metis)
    then have w': "w = (y + h, y OR (1 OR 2))" using y(3) by blast
    with w(2) have "key (y + h) = key (?x + h)" by (simp only: fst_conv)
    then have "y + h = ?x + h"
      using high_window(1)[OF h(1,2) y(1)] high_window(1)[OF h(1,2) x(1)] al[OF y(1,2)] al[OF x]
      by (rule high_keys)
    with w' show "present (snd w) = Some (?x OR 3)" by (simp only: add_right_cancel snd_conv present_low)
  qed
  have "\<exists>w \<in> set ?L. key (fst w) = key ?x" "\<exists>w \<in> set ?L. key (fst w) = key (?x + h)"
    using in1 in2 by (metis fst_conv)+
  with entries_append_hit[OF _ lo] entries_append_hit[OF _ hi]
  show "entries_of (ws @ ?L) (key va) = Some (?x OR 3)"
    "entries_of (ws @ ?L) (key (va + h)) = Some (?x OR 3)"
    by (simp_all only: kh key_page_base)
qed

end
