(* ===== verification/VmmSpaces.thy ===== *)
theory VmmSpaces
  imports VmmInit
begin

text \<open>
  The properties of the virtual memory manager: mapping, unmapping, fresh address spaces, the
  kernel's own, and what happens when the page allocator is empty.
\<close>

section \<open>A machine with \<open>n\<close> free pages\<close>

definition boot_vmm :: "nat \<Rightarrow> vmm" where
  "boot_vmm n = \<lparr>mem = \<lambda>_. 0, trace = [], dev = \<lambda>_ _. 0,
     pmm_stack = map (\<lambda>i. of_nat (i + 1) * 4096) [0..<n] @ replicate (STACK_SIZE - n) 0,
     pmm_stack_top = of_nat n, pmm_free_blocks = NULL, memmap_ptr = [], pmm_initialized = True,
     pmm_used_mem = 0, pmm_free_mem = 0, pmm_total_mem = 0,
     hhdm_off = 0xffff800000000000, kernel_phys_addr = 0x200000, kernel_virt_addr = 0xffffffff80000000,
     vmm_kernel_pagemap = NULL, vmm_current_pagemap = NULL\<rparr>"

lemma boot_page:
  assumes "i < 32768"
  shows "unat (of_nat (i + 1) * 4096 :: u64) = (i + 1) * 4096"
proof -
  have "unat (of_nat (i + 1) * 4096 :: u64) = (unat (of_nat (i + 1) :: u64) * unat (4096 :: u64)) mod 2 ^ LENGTH(64)"
    by (simp only: unat_word_ariths)
  also have "unat (of_nat (i + 1) :: u64) = i + 1" using assms by (intro unat_of_nat_small) simp
  finally show ?thesis using assms by simp
qed

lemma boot_page_virtual:
  assumes "i < 32768"
  shows "page_addr 0xffff800000000000 (of_nat (i + 1) * 4096 + 0xffff800000000000)"
proof -
  let ?p = "of_nat (i + 1) * 4096 :: u64"
  note u = boot_page[OF assms]
  have le: "(i + 1) * 4096 \<le> 32768 * 4096" using assms by (intro mult_le_mono1) simp
  have h: "unat (0xffff800000000000 :: u64) = 4503565267632128 * 4096" by simp
  have "unat ?p + unat (0xffff800000000000 :: u64) < 2 ^ 64" unfolding u h using le by simp
  then have v: "unat (?p + 0xffff800000000000) = (i + 1 + 4503565267632128) * 4096"
    by (simp only: unat_plus_small u h add_mult_distrib)
  show ?thesis
    unfolding page_addr_def add_diff_cancel_right' u v using le by simp
qed

lemma boot_vmm_ok:
  assumes "n \<le> 32768"
  shows "free_pages (boot_vmm n) = rev (map (\<lambda>i. of_nat (i + 1) * 4096) [0..<n])"
    and "direct_map_ok (boot_vmm n)" and "hhdm_off (boot_vmm n) = 0xffff800000000000"
proof -
  have top: "unat (of_nat n :: u32) = n" using assms by (simp add: unat_of_nat)
  show pages: "free_pages (boot_vmm n) = rev (map (\<lambda>i. of_nat (i + 1) * 4096) [0..<n])"
    by (simp add: boot_vmm_def free_pages_def top)
  have ok: "pmm_ok (boot_vmm n)"
    using assms by (simp add: boot_vmm_def pmm_ok_def top STACK_SIZE_numeral)
  have inj: "inj_on (\<lambda>i. of_nat (i + 1) * 4096 :: u64) {0..<n}"
  proof (rule inj_onI)
    fix i j assume ij: "i \<in> {0..<n}" "j \<in> {0..<n}" "of_nat (i + 1) * 4096 = (of_nat (j + 1) * 4096 :: u64)"
    then have lt: "i < 32768" "j < 32768" using assms by simp_all
    show "i = j" using boot_page[OF lt(1)] unfolding ij(3) boot_page[OF lt(2)] by simp
  qed
  show h: "hhdm_off (boot_vmm n) = 0xffff800000000000" by (simp add: boot_vmm_def)
  have "distinct (free_pages (boot_vmm n))"
    unfolding pages distinct_rev distinct_map using inj by (simp only: distinct_upt set_upt simp_thms)
  moreover have "\<forall>p \<in> set (free_pages (boot_vmm n)). page_addr 0xffff800000000000 (p + 0xffff800000000000)"
    unfolding pages set_rev set_map set_upt using boot_page_virtual assms by fastforce
  ultimately show "direct_map_ok (boot_vmm n)" using ok by (simp only: direct_map_ok_def h simp_thms)
qed

text \<open>The empty page map in the top three of those pages.\<close>

definition fresh_vmm :: "nat \<Rightarrow> vmm" where "fresh_vmm n = vmm_init_tables (boot_vmm n)"

definition fresh_pm :: "nat \<Rightarrow> ptr" where
  "fresh_pm n = hd (free_pages (boot_vmm n)) + 0xffff800000000000"

lemma fresh_written:
  assumes "3 \<le> n" and "n \<le> 32768"
  shows "written (fresh_pm n) 0xffff800000000000 (n - 3) [] (fresh_vmm n)"
  using init_tables_written(1)[OF boot_vmm_ok(2)[OF assms(2)]] assms
  by (simp add: fresh_pm_def fresh_vmm_def boot_vmm_ok(1,3))

lemma fresh_vmm_ok:
  assumes "6 \<le> n" and "n \<le> 32768"
  shows "vm_inv (fresh_pm n) (fresh_vmm n)"
    and "card (spine va - tables_of (fresh_pm n) (fresh_vmm n)) \<le> length (free_pages (fresh_vmm n))"
    and "translation (fresh_pm n) (fresh_vmm n) = (\<lambda>_. None)"
proof -
  note w = fresh_written[of n, unfolded written_def]
  show "vm_inv (fresh_pm n) (fresh_vmm n)" "translation (fresh_pm n) (fresh_vmm n) = (\<lambda>_. None)"
    using w assms by (simp_all add: entries_of_def)
  have "card (spine va - tables_of (fresh_pm n) (fresh_vmm n)) \<le> card (spine va)"
    by (intro card_mono) (auto simp: spine_def)
  also have "\<dots> \<le> 3" unfolding spine_def by (intro card_insert_le_m1) simp_all
  finally show "card (spine va - tables_of (fresh_pm n) (fresh_vmm n)) \<le> length (free_pages (fresh_vmm n))"
    using w assms by (simp add: all_tables_def)
qed

section \<open>Mapping and unmapping\<close>

text \<open>
  C3. \<open>vmm_map\<close> refines a functional update.  In a well-formed address space, with one free page for
  every page table missing on the way, it makes the virtual page of \<open>va\<close> translate to \<open>pa | flags\<close> and
  changes the translation of no other page; the address space stays well-formed, exactly
  the missing tables are paid for, and no byte outside the tables and the free pages changes.
\<close>

theorem vmm_map_refines_update:
  assumes "vm_inv pm s" and "card (spine va - tables_of pm s) \<le> length (free_pages s)"
    and "s' = vmm_map pm va pa flags s"
  shows "translation pm s' = (translation pm s)(key va := present (pa OR flags)) \<and> vm_inv pm s'
    \<and> length (free_pages s') + card (spine va - tables_of pm s) = length (free_pages s)
    \<and> (\<forall>x. (\<forall>a \<in> space_pages pm s. \<not> in_range a 4096 x) \<longrightarrow> mem s' x = mem s x)"
  using put_entry_law[OF assms(1,2), of "pa OR flags"]
  by (simp add: assms(3) vmm_map_put vm_frame_def)

theorem vmm_map_refines_update_witness:
  "translation (fresh_pm 10) (vmm_map (fresh_pm 10) 0x400000 0x123000 3 (fresh_vmm 10)) (key 0x400fff)
     = Some 0x123003"
proof -
  have "key 0x400000 = key 0x400fff" by (simp add: key_def)
  then show ?thesis
    using vmm_map_refines_update[OF fresh_vmm_ok(1)[of 10] fresh_vmm_ok(2)[of 10 "0x400000"] refl,
        of "0x123000" 3]
    by (simp add: present_def)
qed

text \<open>
  C27. \<open>vmm_unmap\<close> makes the page of \<open>va\<close> untranslated and leaves every other page as it is.  Undoing a
  \<open>vmm_map\<close> takes no further page: the tables built for the mapping stay.
\<close>

theorem vmm_unmap_undoes_map:
  assumes "vm_inv pm s" and "card (spine va - tables_of pm s) \<le> length (free_pages s)"
  shows "translation pm (vmm_unmap pm va s) = (translation pm s)(key va := None)
    \<and> vm_inv pm (vmm_unmap pm va s)
    \<and> translation pm (vmm_unmap pm va (vmm_map pm va pa flags s)) = (translation pm s)(key va := None)
    \<and> length (free_pages (vmm_unmap pm va (vmm_map pm va pa flags s)))
      = length (free_pages (vmm_map pm va pa flags s))"
  using put_entry_law[OF assms, of 0] vm.erase_undoes[OF assms, of "pa OR flags"]
  by (simp add: vmm_map_put vmm_unmap_put present_def)

theorem vmm_unmap_undoes_map_witness:
  "translation (fresh_pm 10) (vmm_unmap (fresh_pm 10) 0x400000
     (vmm_map (fresh_pm 10) 0x400000 0x123000 3 (fresh_vmm 10))) = (\<lambda>_. None)"
  using vmm_unmap_undoes_map[OF fresh_vmm_ok(1)[of 10] fresh_vmm_ok(2)[of 10 "0x400000"],
      of "0x123000" 3] fresh_vmm_ok(3)[of 10]
  by (simp add: fun_eq_iff)


text \<open>
  On an address that is not mapped, \<open>vmm_unmap\<close> builds the missing tables as \<open>vmm_map\<close> does: it takes a
  page for each of them although it only stores a zero.
\<close>

lemma vmm_unmap_takes_tables:
  assumes "vm_inv pm s" and "card (spine va - tables_of pm s) \<le> length (free_pages s)"
  shows "tables_of pm (vmm_unmap pm va s) = tables_of pm s \<union> spine va"
    and "length (free_pages (vmm_unmap pm va s)) + card (spine va - tables_of pm s) = length (free_pages s)"
  using put_entry_law[OF assms, of 0] by (simp_all add: vmm_unmap_put)

section \<open>The kernel's address space\<close>

lemma aligned_diff:
  assumes "unat a mod 4096 = 0" and "unat b mod 4096 = 0"
  shows "unat (a - b :: u64) mod 4096 = 0"
proof -
  obtain i j where ij: "unat a = i * 4096" "unat b = j * 4096"
    using assms by (metis page_index)
  have "i * 4096 + 2 ^ 64 - j * 4096 = (i + 2 ^ 52 - j) * 4096" "i * 4096 - j * 4096 = (i - j) * 4096"
    by (simp_all add: diff_mult_distrib add_mult_distrib)
  then show ?thesis by (simp only: unat_diff_wrap ij) (simp add: mult.commute)
qed

lemma direct_map_aligned:
  assumes "direct_map_ok s" and "free_pages s \<noteq> []"
  shows "unat (hhdm_off s) mod 4096 = 0"
proof -
  have "page_addr (hhdm_off s) (hd (free_pages s) + hhdm_off s)"
    using assms by (simp add: direct_map_ok_def)
  then have "unat (hd (free_pages s) + hhdm_off s) mod 4096 = 0" "unat (hd (free_pages s)) mod 4096 = 0"
    by (simp_all add: page_addr_def)
  from aligned_diff[OF this] show ?thesis by simp
qed

lemma vmm_load_frame:
  assumes "pm \<noteq> NULL"
  shows "vmm_load_pagemap pm s = emit (Load_cr3 (topLevel (mem s) pm - hhdm_off s)) (s\<lparr>vmm_current_pagemap := pm\<rparr>)"
  using assms by (simp add: vmm_load_pagemap_def VIRTUAL_TO_PHYSICAL_def)

lemma vm_current:
  "vm_inv pm (s\<lparr>vmm_current_pagemap := q\<rparr>) = vm_inv pm s"
  "translation pm (s\<lparr>vmm_current_pagemap := q\<rparr>) = translation pm s"
  by (simp_all add: free_pages_def pmm_ok_def translation_def
      table_at_def vm_inv_def space_pages_def virtual_free_def)

lemma load_translation: "translation pm (vmm_load_pagemap q s) = translation pm s"
  by (simp add: vmm_load_pagemap_def Let_def vm_emit vm_current)

lemma kept_current: "kept pm s0 (s\<lparr>vmm_current_pagemap := q\<rparr>) = kept pm s0 s"
  by (simp add: kept_def space_pages_def virtual_free_def table_at_def free_pages_def)

lemma vmm_init_runs:
  assumes "direct_map_ok s" and "card (all_tables (init_writes ld s)) + 3 \<le> length (free_pages s)"
    and "0xffff800000000000 \<le> hhdm_off s" and "unat (hhdm_off s) + 2 ^ 32 \<le> 2 ^ 64"
    and "hd (free_pages s) + hhdm_off s \<noteq> NULL"
  defines "kpm \<equiv> hd (free_pages s) + hhdm_off s"
  obtains s' where "vmm_init ld s = Some s'" "vm_inv kpm s'" "vmm_kernel_pagemap s' = kpm" "vmm_current_pagemap s' = kpm"
    "hhdm_off s' = hhdm_off s" "Load_cr3 (topLevel (mem s') kpm - hhdm_off s) \<in> set (trace s')" "kept kpm s s'"
    "\<forall>va. unat va < 2 ^ 32 \<longrightarrow> translation kpm s' (key va) = Some (page_base va OR 3)
        \<and> translation kpm s' (key (va + hhdm_off s)) = Some (page_base va OR 3)"
    "length (free_pages s') + card (all_tables (init_writes ld s)) + 3 = length (free_pages s)"
proof -
  let ?h = "hhdm_off s"
  obtain s5 where w: "written kpm ?h (length (free_pages s) - 3) (init_writes ld s) s5" and k: "kept kpm s s5"
    and run: "vmm_init ld s
      = Some (logln Lg_progress ''vmm'' ''Initialized!\<newline>'' [] (vmm_load_pagemap kpm s5))"
    unfolding kpm_def by (rule vmm_init_written[OF assms(1,2)])
  define s' where "s' = logln Lg_progress ''vmm'' ''Initialized!\<newline>'' []
      (emit (Load_cr3 (topLevel (mem s5) kpm - hhdm_off s5)) (s5\<lparr>vmm_current_pagemap := kpm\<rparr>))"
  have "kpm \<noteq> NULL" using assms(5) by (simp add: kpm_def)
  from run[unfolded vmm_load_frame[OF this]] have run': "vmm_init ld s = Some s'" by (simp only: s'_def)
  have "free_pages s \<noteq> []" using assms(2) by auto
  then have h: "unat ?h mod 4096 = 0" using direct_map_aligned[OF assms(1)] by blast
  have t: "translation kpm s' = entries_of ((text_writes ld s @ rodata_writes ld s @ data_writes ld s)
      @ low_writes ?h 0 0x100000000)"
    using w by (simp add: s'_def vm_emit vm_current written_def init_writes_def)
  show thesis
  proof (rule that[OF run'])
    show "vm_inv kpm s'" "vmm_kernel_pagemap s' = kpm" "hhdm_off s' = ?h"
      "Load_cr3 (topLevel (mem s') kpm - ?h) \<in> set (trace s')" "kept kpm s s'"
      using w k by (simp_all add: s'_def vm_emit vm_current written_def kept_emit kept_current)
    show "vmm_current_pagemap s' = kpm" by (simp add: s'_def emit_def)
    show "\<forall>va. unat va < 2 ^ 32 \<longrightarrow> translation kpm s' (key va) = Some (page_base va OR 3)
        \<and> translation kpm s' (key (va + ?h)) = Some (page_base va OR 3)"
      unfolding t using low_entries[OF assms(3,4) h] by blast
    have "free_pages s' = free_pages s5" unfolding s'_def vm_emit by (simp add: free_pages_def)
    then show "length (free_pages s') + card (all_tables (init_writes ld s)) + 3 = length (free_pages s)"
      using w assms(2) by (simp add: written_def)
  qed
qed

text \<open>
  C23. \<open>vmm_init\<close> returns, whenever the allocator can pay for the tables of its loops, and the
  page table it loads into CR3 is well-formed and maps the first 4 GiB twice: every physical
  address below \<open>2 ^ 32\<close> is mapped, present and writable, to itself and, in the higher half, at the direct map's
  offset.
\<close>

theorem vmm_init_maps_low_memory:
  assumes "direct_map_ok s"
    and "card (all_tables (init_writes ld s)) + 3 \<le> length (free_pages s)"
    and "0xffff800000000000 \<le> hhdm_off s" and "unat (hhdm_off s) + 2 ^ 32 \<le> 2 ^ 64"
    and "hd (free_pages s) + hhdm_off s \<noteq> NULL"
  shows "\<exists>s'. vmm_init ld s = Some s'
    \<and> (let kpm = hd (free_pages s) + hhdm_off s in
         vm_inv kpm s' \<and> vmm_kernel_pagemap s' = kpm \<and> vmm_current_pagemap s' = kpm
       \<and> Load_cr3 (topLevel (mem s') kpm - hhdm_off s) \<in> set (trace s')
       \<and> (\<forall>va. unat va < 2 ^ 32 \<longrightarrow>
            translation kpm s' (key va) = Some (page_base va OR 3)
          \<and> translation kpm s' (key (va + hhdm_off s)) = Some (page_base va OR 3)))"
proof -
  obtain s' where "vmm_init ld s = Some s'" "vm_inv (hd (free_pages s) + hhdm_off s) s'"
    "vmm_kernel_pagemap s' = hd (free_pages s) + hhdm_off s" "vmm_current_pagemap s' = hd (free_pages s) + hhdm_off s"
    "Load_cr3 (topLevel (mem s') (hd (free_pages s) + hhdm_off s) - hhdm_off s) \<in> set (trace s')"
    "\<forall>va. unat va < 2 ^ 32 \<longrightarrow> translation (hd (free_pages s) + hhdm_off s) s' (key va) = Some (page_base va OR 3)
        \<and> translation (hd (free_pages s) + hhdm_off s) s' (key (va + hhdm_off s)) = Some (page_base va OR 3)"
    by (rule vmm_init_runs[OF assms])
  then show ?thesis by (simp add: Let_def)
qed


text \<open>The tables the two windows of 4 GiB need: 2053 each.\<close>

definition window :: "u64 \<Rightarrow> u64 list set" where
  "window a = {[a]} \<union> (\<lambda>i. [a, of_nat i]) ` {..<4}
     \<union> (\<lambda>(i, j). [a, of_nat i, of_nat j]) ` ({..<4} \<times> {..<512})"

lemma card_window: "card (window a) \<le> 2053" and finite_window: "finite (window a)"
proof -
  have a: "card ((\<lambda>i::nat. [a, of_nat i]) ` {..<4}) \<le> 4"
    using card_image_le[of "{..<4::nat}" "\<lambda>i. [a, of_nat i]"] by simp
  have b: "card ((\<lambda>(i::nat, j::nat). [a, of_nat i, of_nat j]) ` ({..<4} \<times> {..<512})) \<le> 2048"
    using card_image_le[of "{..<4::nat} \<times> {..<512::nat}" "\<lambda>(i, j). [a, of_nat i, of_nat j]"]
    by (simp add: card_cartesian_product)
  show "card (window a) \<le> 2053"
    unfolding window_def
    by (rule order_trans[OF card_Un_le], rule order_trans[OF add_mono[OF card_Un_le b]])
      (use a in simp)
  show "finite (window a)" by (simp add: window_def)
qed

lemma window_spine:
  assumes "key y = [a, take_bit 9 (drop_bit 30 x), take_bit 9 (drop_bit 21 x), b]" and "unat x < 2 ^ 32"
  shows "spine y \<subseteq> window a"
proof -
  let ?i = "take_bit 9 (drop_bit 30 x)" and ?j = "take_bit 9 (drop_bit 21 x)"
  have "unat (drop_bit 30 x) = unat x div 2 ^ 30" by (rule unat_drop)
  also have "\<dots> < 4" using assms(2) by (simp add: div_less_iff_less_mult)
  finally have "unat ?i < 4"
    by (simp only: unsigned_take_bit_eq) (rule le_less_trans[OF take_bit_nat_less_eq_self])
  moreover have "unat ?j < 512"
    unfolding unsigned_take_bit_eq using take_bit_nat_less_exp[of 9 "unat (drop_bit 21 x)"] by simp
  ultimately have "[a, ?i] \<in> (\<lambda>i. [a, of_nat i]) ` {..<4}"
    "[a, ?i, ?j] \<in> (\<lambda>(i, j). [a, of_nat i, of_nat j]) ` ({..<4} \<times> {..<512})"
    by (auto intro!: image_eqI[of _ _ "unat ?i"] image_eqI[of _ _ "(unat ?i, unat ?j)"])
  then show ?thesis by (simp add: spine_def assms(1) window_def numeral_eq_Suc)
qed

lemma low_key:
  assumes "unat x < 2 ^ 32"
  shows "key x = [0, take_bit 9 (drop_bit 30 x), take_bit 9 (drop_bit 21 x), take_bit 9 (drop_bit 12 x)]"
proof -
  have "drop_bit 39 x = 0"
  proof (rule bit_word_eqI)
    show "bit (drop_bit 39 x) i = bit 0 i" for i
      using small_bit[OF assms, of "39 + i"] by (auto simp: bit_drop_bit_eq)
  qed
  then show ?thesis by (simp add: key_alt)
qed

lemma high_key:
  assumes "unat x < 2 ^ 32"
  shows "key (x + 0xffff800000000000)
    = [256, take_bit 9 (drop_bit 30 x), take_bit 9 (drop_bit 21 x), take_bit 9 (drop_bit 12 x)]"
proof -
  let ?h = "0xffff800000000000 :: u64"
  have hb: "?h = push_bit 47 (mask 17)" by (simp add: push_bit_eq_mult mask_eq_exp_minus_1)
  have "x AND ?h = 0"
    unfolding hb by (rule bit_word_eqI)
      (auto simp: bit_and_iff bit_push_bit_iff bit_mask_iff dest: small_bit[OF assms])
  then have plus: "x + ?h = x OR ?h" using word_plus_and_or[of x ?h] by simp
  have z: "drop_bit 39 x = 0"
  proof (rule bit_word_eqI)
    show "bit (drop_bit 39 x) i = bit 0 i" for i
      using small_bit[OF assms, of "39 + i"] by (auto simp: bit_drop_bit_eq)
  qed
  show ?thesis unfolding plus key_alt by (simp add: drop_bit_or take_bit_or z)
qed

lemma all_tables_low:
  "all_tables (low_writes 0xffff800000000000 0 0x100000000) \<subseteq> window 0 \<union> window 256"
proof
  fix p assume "p \<in> all_tables (low_writes 0xffff800000000000 0 0x100000000)"
  then obtain w where w: "w \<in> set (low_writes 0xffff800000000000 0 0x100000000)" "p \<in> spine (fst w)"
    by (auto simp: all_tables_def)
  from iffD1[OF low_writes_mem w(1)] obtain x where x: "unat x < 2 ^ 32"
    "w = (x, x OR (1 OR 2)) \<or> w = (x + 0xffff800000000000, x OR (1 OR 2))"
    by (elim exE conjE)
  then have "spine (fst w) \<subseteq> window 0 \<or> spine (fst w) \<subseteq> window 256"
    using window_spine[OF low_key[OF x(1)] x(1)] window_spine[OF high_key[OF x(1)] x(1)] by (elim disjE) simp_all
  with w(2) show "p \<in> window 0 \<union> window 256" by blast
qed

lemma card_all_tables_le: "card (all_tables ws) \<le> 3 * length ws"
proof (induction ws)
  case Nil
  then show ?case by (simp add: all_tables_def)
next
  case (Cons w ws)
  have "card (spine (fst w)) \<le> 3" unfolding spine_def by (intro card_insert_le_m1) simp_all
  moreover have "all_tables (w # ws) = spine (fst w) \<union> all_tables ws" by (simp add: all_tables_def)
  ultimately show ?case using card_Un_le[of "spine (fst w)" "all_tables ws"] Cons by simp
qed

definition sample_symbols :: linker_symbols where
  "sample_symbols = \<lparr>text_start_ld = 0xffffffff80000000, text_end_ld = 0xffffffff80000800,
     rodata_start_ld = 0xffffffff80001000, rodata_end_ld = 0xffffffff80001234,
     data_start_ld = 0xffffffff80002000, data_end_ld = 0xffffffff80002fff\<rparr>"

lemma sample_sections:
  "text_writes sample_symbols (boot_vmm n) = [(0xffffffff80000000, 0x200001)]"
  "rodata_writes sample_symbols (boot_vmm n) = [(0xffffffff80001000, 0x201001 OR push_bit 63 1)]"
  "data_writes sample_symbols (boot_vmm n) = [(0xffffffff80002000, 0x202003 OR push_bit 63 1)]"
  by (simp_all add: text_writes_def rodata_writes_def data_writes_def section_writes_def span_def
      sample_symbols_def ALIGN_DOWN_def ALIGN_UP_def DIV_ROUND_UP_def PAGE_SIZE_def region_pages_def
      PMM_BLOCK_SIZE_def boot_vmm_def)

lemma sample_tables: "card (all_tables (init_writes sample_symbols (boot_vmm n))) \<le> 4115"
proof -
  let ?S = "text_writes sample_symbols (boot_vmm n) @ rodata_writes sample_symbols (boot_vmm n)
    @ data_writes sample_symbols (boot_vmm n)"
  have "all_tables (init_writes sample_symbols (boot_vmm n))
      = all_tables ?S \<union> all_tables (low_writes 0xffff800000000000 0 0x100000000)"
    by (simp only: init_writes_def all_tables_def set_append boot_vmm_def vmm.simps) auto
  then have "all_tables (init_writes sample_symbols (boot_vmm n)) \<subseteq> all_tables ?S \<union> (window 0 \<union> window 256)"
    using all_tables_low by blast
  then have "card (all_tables (init_writes sample_symbols (boot_vmm n)))
      \<le> card (all_tables ?S \<union> (window 0 \<union> window 256))"
    by (intro card_mono) (simp_all add: finite_window)
  also have "\<dots> \<le> card (all_tables ?S) + (card (window 0) + card (window 256))"
    by (rule order_trans[OF card_Un_le add_left_mono[OF card_Un_le]])
  also have "\<dots> \<le> 3 * length ?S + (2053 + 2053)"
    by (intro add_mono card_all_tables_le card_window)
  finally show ?thesis by (simp add: sample_sections)
qed

text \<open>A machine with 5000 free pages and one page in each section.\<close>

theorem vmm_init_maps_low_memory_witness:
  "\<exists>s' kpm. vmm_init sample_symbols (boot_vmm 5000) = Some s'
     \<and> translation kpm s' (key 0xffff8000fee00123) = Some 0xfee00003"
proof -
  let ?s = "boot_vmm 5000"
  have pages: "length (free_pages ?s) = 5000" by (simp add: boot_vmm_ok(1))
  have "[0..<5000] = [0..<4999] @ [4999 :: nat]" using upt_Suc_append[of 0 4999] by simp
  then have hd: "hd (free_pages ?s) = 0x1388000"
    by (simp only: boot_vmm_ok(1) map_append list.map rev_append rev.simps append_Nil list.sel append_Cons) simp
  have fit: "card (all_tables (init_writes sample_symbols ?s)) + 3 \<le> length (free_pages ?s)"
    using sample_tables[of 5000] by (simp add: pages)
  have h: "hhdm_off ?s = 0xffff800000000000" by (simp add: boot_vmm_ok(3))
  have ok: "direct_map_ok ?s" by (simp add: boot_vmm_ok(2))
  note run = vmm_init_maps_low_memory[OF ok fit, unfolded h hd]
  let ?kpm = "0x1388000 + 0xffff800000000000 :: u64"
  obtain s' where s': "vmm_init sample_symbols ?s = Some s'"
    "\<forall>va. unat va < 2 ^ 32 \<longrightarrow> translation ?kpm s' (key va) = Some (page_base va OR 3)
       \<and> translation ?kpm s' (key (va + 0xffff800000000000)) = Some (page_base va OR 3)"
    using run by (auto simp: Let_def)
  have "translation ?kpm s' (key (0xfee00123 + 0xffff800000000000)) = Some (page_base 0xfee00123 OR 3)"
    using s'(2)[rule_format, of "0xfee00123"] by simp
  moreover have "page_base 0xfee00123 OR 3 = 0xfee00003" by (simp add: page_base_def)
  moreover have "(0xfee00123 + 0xffff800000000000 :: u64) = 0xffff8000fee00123" by simp
  ultimately show ?thesis using s'(1) by (intro exI[of _ s'] exI[of _ ?kpm] conjI) (simp_all only:)
qed


definition text_pages :: "linker_symbols \<Rightarrow> ptr list" where
  "text_pages ld = span (ALIGN_DOWN (text_start_ld ld) PAGE_SIZE) (ALIGN_UP (text_end_ld ld) PAGE_SIZE)"

definition rodata_pages :: "linker_symbols \<Rightarrow> ptr list" where
  "rodata_pages ld = span (ALIGN_DOWN (rodata_start_ld ld) PAGE_SIZE) (ALIGN_UP (rodata_end_ld ld) PAGE_SIZE)"

definition data_pages :: "linker_symbols \<Rightarrow> ptr list" where
  "data_pages ld = span (ALIGN_DOWN (data_start_ld ld) PAGE_SIZE) (ALIGN_UP (data_end_ld ld) PAGE_SIZE)"

text \<open>The sections share no page and lie above the direct map's window.\<close>

definition layout_ok :: "linker_symbols \<Rightarrow> u64 \<Rightarrow> bool" where
  "layout_ok ld h \<longleftrightarrow>
     (\<forall>x \<in> set (text_pages ld @ rodata_pages ld @ data_pages ld). unat h + 2 ^ 32 \<le> unat x)
   \<and> set (text_pages ld) \<inter> set (rodata_pages ld) = {} \<and> set (text_pages ld) \<inter> set (data_pages ld) = {}
   \<and> set (rodata_pages ld) \<inter> set (data_pages ld) = {}"

lemma section_entry:
  assumes h: "0xffff800000000000 \<le> h" "unat h + 2 ^ 32 \<le> 2 ^ 64" "unat h mod 4096 = 0"
    and x: "x \<in> set (span a stop)" "unat a mod 4096 = 0" "unat stop mod 4096 = 0"
    and after: "\<forall>w \<in> set vs. unat (fst w) mod 4096 = 0 \<and> unat h + 2 ^ 32 \<le> unat (fst w) \<and> fst w \<noteq> x"
    and above: "\<forall>y \<in> set (span a stop). unat h + 2 ^ 32 \<le> unat y"
  shows "entries_of (us @ section_writes a stop v p fl @ vs @ low_writes h 0 0x100000000) (key x)
    = present ((x - v + p) OR fl)"
proof -
  have high: "0xffff800000000000 \<le> y" if "unat h + 2 ^ 32 \<le> unat y" for y :: u64
    using that h(1) by (simp add: word_le_nat_alt)
  have xa: "unat x mod 4096 = 0" "unat h + 2 ^ 32 \<le> unat x" using x above span_mem[OF x(2,3)] by auto
  have inj: "y = x" if "key y = key x" "unat y mod 4096 = 0" "unat h + 2 ^ 32 \<le> unat y" for y
    using high_keys[OF that(1) high[OF that(3)] high[OF xa(2)] that(2) xa(1)] .
  have low: "key (fst w) \<noteq> key x" if w: "w \<in> set (low_writes h 0 0x100000000)" for w
  proof -
    from iffD1[OF low_writes_mem w] obtain y where y: "unat y < 2 ^ 32" "unat y mod 4096 = 0"
      "w = (y, y OR (1 OR 2)) \<or> w = (y + h, y OR (1 OR 2))"
      by (elim exE conjE)
    note win = high_window[OF h(1,2) y(1)]
    have al: "unat (y + h) mod 4096 = 0"
      unfolding win(2) using y(2) h(3) by (metis add.right_neutral mod_add_eq mod_0)
    have "y + h \<noteq> x" using win(2) y(1) xa(2) by auto
    then have "key (y + h) \<noteq> key x"
      using high_keys[OF _ win(1) high[OF xa(2)] al xa(1)] by blast
    moreover have "key y \<noteq> key x" using y(1) high[OF xa(2)] by (rule low_high_keys)
    ultimately show ?thesis using y(3) by (elim disjE) simp_all
  qed
  have rest: "key (fst w) \<noteq> key x" if "w \<in> set vs" for w
  proof
    assume "key (fst w) = key x"
    moreover note bspec[OF after that]
    ultimately show False using inj[of "fst w"] by simp
  qed
  have "entries_of (us @ section_writes a stop v p fl @ vs @ low_writes h 0 0x100000000) (key x)
      = entries_of (us @ section_writes a stop v p fl) (key x)"
  proof -
    have "\<forall>w \<in> set (vs @ low_writes h 0 0x100000000). key (fst w) \<noteq> key x"
      using low rest by (simp only: set_append ball_Un) blast
    from entries_append_other[OF this, of "us @ section_writes a stop v p fl"]
    show ?thesis by (simp only: append_assoc)
  qed
  also have "\<dots> = present ((x - v + p) OR fl)"
  proof (rule entries_append_hit)
    show "\<exists>w \<in> set (section_writes a stop v p fl). key (fst w) = key x"
      using x(1) by (auto simp: section_writes_def)
    show "\<forall>w \<in> set (section_writes a stop v p fl). key (fst w) = key x \<longrightarrow>
        present (snd w) = present ((x - v + p) OR fl)"
    proof (intro ballI impI)
      fix w assume w: "w \<in> set (section_writes a stop v p fl)" "key (fst w) = key x"
      then obtain y where y: "y \<in> set (span a stop)" "w = (y, (y - v + p) OR fl)"
        by (auto simp: section_writes_def)
      have "y = x" using w(2) y above span_mem[OF x(2,3), of y] by (intro inj) simp_all
      with y(2) show "present (snd w) = present ((x - v + p) OR fl)" by simp
    qed
  qed
  finally show ?thesis .
qed

lemma present_or_1: "present (x OR 1) = Some (x OR 1)" "present (x OR (1 OR y)) = Some (x OR (1 OR y))"
proof -
  have one: "(x OR (1 OR y)) AND 1 \<noteq> 0" for y
  proof -
    have "bit ((x OR (1 OR y)) AND 1) 0" by (simp only: bit_and_iff bit_or_iff bit_1_iff simp_thms)
    then show ?thesis by (metis bit_0_eq bot_apply bot_bool_def)
  qed
  show "present (x OR 1) = Some (x OR 1)" "present (x OR (1 OR y)) = Some (x OR (1 OR y))"
    using one[of 0] one[of y] by (simp_all add: present_def)
qed

text \<open>What the writes of \<open>vmm_init\<close> leave in the entries of the pages of the three sections.\<close>

lemma init_writes_sections:
  fixes ld s
  defines "h \<equiv> hhdm_off s" and "at_image \<equiv> \<lambda>x. x - kernel_virt_addr s + kernel_phys_addr s"
  assumes h: "0xffff800000000000 \<le> h" "unat h + 2 ^ 32 \<le> 2 ^ 64" "unat h mod 4096 = 0"
    and lay: "layout_ok ld h"
  shows "x \<in> set (text_pages ld) \<Longrightarrow> entries_of (init_writes ld s) (key x) = present (at_image x OR 1)"
    and "x \<in> set (rodata_pages ld) \<Longrightarrow> entries_of (init_writes ld s) (key x) = present (at_image x OR (1 OR push_bit 63 1))"
    and "x \<in> set (data_pages ld) \<Longrightarrow> entries_of (init_writes ld s) (key x) = present (at_image x OR (1 OR 2 OR push_bit 63 1))"
proof -
  have pg: "unat x mod 4096 = 0" if "x \<in> set (text_pages ld @ rodata_pages ld @ data_pages ld)" for x
    using that by (auto simp: text_pages_def rodata_pages_def data_pages_def span_mem[OF aligned_ALIGN])
  have ro: "\<forall>w \<in> set (rodata_writes ld s). fst w \<in> set (rodata_pages ld)"
    and da: "\<forall>w \<in> set (data_writes ld s). fst w \<in> set (data_pages ld)"
    by (auto simp: rodata_writes_def data_writes_def section_writes_def rodata_pages_def data_pages_def)
  have L: "unat h + 2 ^ 32 \<le> unat x" if "x \<in> set (text_pages ld @ rodata_pages ld @ data_pages ld)" for x
    using that lay unfolding layout_ok_def by blast
  have dj: "set (text_pages ld) \<inter> set (rodata_pages ld) = {}" "set (text_pages ld) \<inter> set (data_pages ld) = {}"
    "set (rodata_pages ld) \<inter> set (data_pages ld) = {}"
    using lay by (simp_all add: layout_ok_def)
  show "entries_of (init_writes ld s) (key x) = present (at_image x OR 1)" if x: "x \<in> set (text_pages ld)"
  proof -
    have "entries_of ([] @ text_writes ld s @ (rodata_writes ld s @ data_writes ld s)
        @ low_writes h 0 0x100000000) (key x) = present (at_image x OR 1)"
      unfolding text_writes_def at_image_def using x L pg ro da dj
      by (intro section_entry[OF h _ aligned_ALIGN]) (auto simp: text_pages_def[symmetric])
    then show ?thesis by (simp add: init_writes_def h_def)
  qed
  show "entries_of (init_writes ld s) (key x) = present (at_image x OR (1 OR push_bit 63 1))"
    if x: "x \<in> set (rodata_pages ld)"
    unfolding init_writes_def rodata_writes_def at_image_def h_def[symmetric] using x L pg da dj
    by (intro section_entry[OF h _ aligned_ALIGN]) (auto simp: rodata_pages_def[symmetric])
  show "entries_of (init_writes ld s) (key x) = present (at_image x OR (1 OR 2 OR push_bit 63 1))"
    if x: "x \<in> set (data_pages ld)"
  proof -
    have "entries_of ((text_writes ld s @ rodata_writes ld s) @ data_writes ld s @ []
        @ low_writes h 0 0x100000000) (key x) = present (at_image x OR (1 OR 2 OR push_bit 63 1))"
      unfolding data_writes_def at_image_def
      using x L by (intro section_entry[OF h _ aligned_ALIGN]) (auto simp: data_pages_def[symmetric])
    then show ?thesis by (simp add: init_writes_def h_def)
  qed
qed

text \<open>
  The rights of a page, as the processor reads them from its entry: bits 12 to 51 are the frame, bit 1 allows
  writes, bit 63 forbids execution.  (The entries of the upper levels allow everything.)
\<close>

definition maps_page :: "ptr \<Rightarrow> u64 \<Rightarrow> u64 \<Rightarrow> bool \<Rightarrow> bool \<Rightarrow> 'a vmm_scheme \<Rightarrow> bool" where
  "maps_page pm va frame writable executable s \<longleftrightarrow>
     (\<exists>e. translation pm s (key va) = Some e \<and> e AND 0x000FFFFFFFFFF000 = frame
        \<and> bit e 1 = writable \<and> bit e 63 = (\<not> executable))"

lemma entry_fields:
  fixes f fl :: u64
  assumes "unat f mod 4096 = 0" and "unat f < 2 ^ 52" and "fl \<in> {1, 1 OR 2, 1 OR push_bit 63 1, 1 OR 2 OR push_bit 63 1}"
  shows "(f OR fl) AND 0x000FFFFFFFFFF000 = f" and "bit (f OR fl) 1 = bit fl 1" and "bit (f OR fl) 63 = bit fl 63"
proof -
  have low: "\<not> bit f i" if "i < 12" for i using aligned_bit[OF assms(1), of i] that by auto
  have high: "\<not> bit f i" if "52 \<le> i" for i using small_bit[OF assms(2), of i] that by auto
  have fl: "bit fl i \<Longrightarrow> i = 0 \<or> i = 1 \<or> i = 63" for i
    using assms(3) by (elim insertE emptyE; hypsubst) (simp_all only: bit_or_iff bit_push_bit_iff bit_1_iff bit_2_iff, auto)
  have m: "(0x000FFFFFFFFFF000 :: u64) = mask 52 AND NOT (mask 12)" by (simp add: mask_eq_exp_minus_1)
  show "(f OR fl) AND 0x000FFFFFFFFFF000 = f" unfolding m
  proof (rule bit_word_eqI)
    fix i assume "i < LENGTH(64)"
    then show "bit ((f OR fl) AND (mask 52 AND NOT (mask 12))) i = bit f i"
      using low[of i] high[of i] fl[of i] by (cases "i < 12"; cases "52 \<le> i") (auto simp: bit_simps)
  qed
  show "bit (f OR fl) 1 = bit fl 1" "bit (f OR fl) 63 = bit fl 63"
    using low[of 1] high[of 63] by (simp_all add: bit_or_iff)
qed

lemma flag_bits:
  "\<not> bit (1 :: u64) 1" "\<not> bit (1 :: u64) 63" "bit (1 OR 2 :: u64) 1" "\<not> bit (1 OR 2 :: u64) 63"
  "\<not> bit (1 OR push_bit 63 1 :: u64) 1" "bit (1 OR push_bit 63 1 :: u64) 63"
  "bit (1 OR 2 OR push_bit 63 1 :: u64) 1" "bit (1 OR 2 OR push_bit 63 1 :: u64) 63"
  by (simp_all add: bit_simps bit_1_iff bit_2_iff)

lemma maps_pageI:
  assumes "translation pm s (key va) = Some (f OR fl)" and "unat f mod 4096 = 0" and "unat f < 2 ^ 52"
    and "fl \<in> {1, 1 OR 2, 1 OR push_bit 63 1, 1 OR 2 OR push_bit 63 1}"
  shows "maps_page pm va f (bit fl 1) (\<not> bit fl 63) s"
  using entry_fields[OF assms(2-4)] assms(1) by (simp add: maps_page_def)

lemma aligned_plus:
  assumes "unat a mod 4096 = 0" and "unat b mod 4096 = 0"
  shows "unat (a + b :: u64) mod 4096 = 0"
  using aligned_diff[OF assms(1) aligned_diff[of 0 b]] assms(2) by simp

lemma page_base_aligned:
  assumes "unat x mod 4096 = 0"
  shows "page_base x = x"
  using aligned_bit[OF assms] by (intro bit_word_eqI) (auto simp: bit_page_base)

lemma section_pages_aligned:
  "x \<in> set (text_pages ld @ rodata_pages ld @ data_pages ld) \<Longrightarrow> unat x mod 4096 = 0"
  by (auto simp: text_pages_def rodata_pages_def data_pages_def span_mem[OF aligned_ALIGN])

text \<open>
  C24. Section permissions: under a linker layout whose sections share no page and lie above the direct map's
  window, and an image loaded at a page boundary in physical memory, the kernel page table that \<open>vmm_init\<close>
  builds maps every page of the text section to its frame read-only and executable, every page of the
  read-only data without write and execute rights, and every page of the data section writable and not
  executable.  It does not protect the frames: those below 4 GiB are mapped a second and a third time,
  writable and executable, in the direct map and at their physical address.
\<close>

theorem vmm_init_section_permissions:
  assumes "direct_map_ok s"
    and "card (all_tables (init_writes ld s)) + 3 \<le> length (free_pages s)"
    and "0xffff800000000000 \<le> hhdm_off s" and "unat (hhdm_off s) + 2 ^ 32 \<le> 2 ^ 64"
    and "layout_ok ld (hhdm_off s)"
    and "unat (kernel_virt_addr s) mod 4096 = 0" and "unat (kernel_phys_addr s) mod 4096 = 0"
    and "\<forall>x \<in> set (text_pages ld @ rodata_pages ld @ data_pages ld).
      unat (x - kernel_virt_addr s + kernel_phys_addr s) < 2 ^ 52"
  shows "\<exists>s'. vmm_init ld s = Some s'
    \<and> (let kpm = hd (free_pages s) + hhdm_off s;
           image = (\<lambda>x. x - kernel_virt_addr s + kernel_phys_addr s) in
         (\<forall>x \<in> set (text_pages ld). maps_page kpm x (image x) False True s')
       \<and> (\<forall>x \<in> set (rodata_pages ld). maps_page kpm x (image x) False False s')
       \<and> (\<forall>x \<in> set (data_pages ld). maps_page kpm x (image x) True False s')
       \<and> (\<forall>x \<in> set (text_pages ld @ rodata_pages ld @ data_pages ld). unat (image x) < 2 ^ 32 \<longrightarrow>
            maps_page kpm (image x) (image x) True True s'
          \<and> maps_page kpm (image x + hhdm_off s) (image x) True True s'))"
proof -
  let ?kpm = "hd (free_pages s) + hhdm_off s" and ?h = "hhdm_off s"
  let ?im = "\<lambda>x. x - kernel_virt_addr s + kernel_phys_addr s"
  obtain s5 where w: "written ?kpm ?h (length (free_pages s) - 3) (init_writes ld s) s5"
    and run: "vmm_init ld s
      = Some (logln Lg_progress ''vmm'' ''Initialized!\<newline>'' [] (vmm_load_pagemap ?kpm s5))"
    by (rule vmm_init_written[OF assms(1,2)])
  define s' where "s' = logln Lg_progress ''vmm'' ''Initialized!\<newline>'' [] (vmm_load_pagemap ?kpm s5)"
  have t: "translation ?kpm s' = entries_of (init_writes ld s)"
    using w by (simp add: s'_def load_translation vm_emit written_def)
  have "free_pages s \<noteq> []" using assms(2) by auto
  then have h: "unat ?h mod 4096 = 0" by (rule direct_map_aligned[OF assms(1)])
  note sections = init_writes_sections[OF assms(3,4) h assms(5), folded t, unfolded present_or_1]
  have al: "unat (?im x) mod 4096 = 0" if "x \<in> set (text_pages ld @ rodata_pages ld @ data_pages ld)" for x
    using aligned_plus[OF aligned_diff[OF section_pages_aligned[OF that] assms(6)] assms(7)] .
  note page = maps_pageI[OF _ al assms(8)[rule_format]]
  have "maps_page ?kpm x (?im x) False True s'" if "x \<in> set (text_pages ld)" for x
    using page[OF sections(1)[OF that]] that by (simp add: flag_bits)
  moreover have "maps_page ?kpm x (?im x) False False s'" if "x \<in> set (rodata_pages ld)" for x
    using page[OF sections(2)[OF that]] that by (simp add: flag_bits)
  moreover have "maps_page ?kpm x (?im x) True False s'" if "x \<in> set (data_pages ld)" for x
    using page[OF sections(3)[OF that]] that by (simp add: flag_bits)
  moreover have "maps_page ?kpm y (?im x) True True s'"
    if x: "x \<in> set (text_pages ld @ rodata_pages ld @ data_pages ld)" and lt: "unat (?im x) < 2 ^ 32" and y: "y \<in> {?im x, ?im x + ?h}"
    for x y
  proof -
    have three: "(3 :: u64) = 1 OR 2" by simp
    have "translation ?kpm s' (key y) = Some (?im x OR 3)"
      using low_entries[OF assms(3,4) h lt, of "text_writes ld s @ rodata_writes ld s @ data_writes ld s"] y
      unfolding t init_writes_def page_base_aligned[OF al[OF x]] by auto
    note low = this[unfolded three]
    show ?thesis using page[OF low x x] by (simp add: flag_bits)
  qed
  ultimately show ?thesis unfolding run s'_def[symmetric] Let_def by blast
qed


text \<open>The linker layout of the sample image.\<close>

lemma sample_pages:
  "text_pages sample_symbols = [0xffffffff80000000]" "rodata_pages sample_symbols = [0xffffffff80001000]"
  "data_pages sample_symbols = [0xffffffff80002000]"
  by (simp_all add: text_pages_def rodata_pages_def data_pages_def span_def
      sample_symbols_def ALIGN_DOWN_def ALIGN_UP_def DIV_ROUND_UP_def PAGE_SIZE_def region_pages_def
      PMM_BLOCK_SIZE_def)

lemma boot_room: "card (all_tables (init_writes sample_symbols (boot_vmm 5000))) + 3 \<le> length (free_pages (boot_vmm 5000))"
  using sample_tables[of 5000] by (simp add: boot_vmm_ok(1))

theorem vmm_init_section_permissions_witness:
  "\<exists>s' kpm. vmm_init sample_symbols (boot_vmm 5000) = Some s'
     \<and> maps_page kpm 0xffffffff80000000 0x200000 False True s' \<and> maps_page kpm 0xffffffff80002000 0x202000 True False s'
     \<and> maps_page kpm 0xffff800000200000 0x200000 True True s'"
proof -
  let ?s = "boot_vmm 5000"
  have h: "hhdm_off ?s = 0xffff800000000000" by (simp add: boot_vmm_ok(3))
  have k: "kernel_virt_addr ?s = 0xffffffff80000000" "kernel_phys_addr ?s = 0x200000" by (simp_all add: boot_vmm_def)
  have ok: "direct_map_ok ?s" by (simp add: boot_vmm_ok(2))
  have "layout_ok sample_symbols 0xffff800000000000" by (simp add: layout_ok_def sample_pages)
  with vmm_init_section_permissions[OF ok boot_room, unfolded h k] show ?thesis
    by (auto simp: Let_def sample_pages)
qed


section \<open>New address spaces\<close>

text \<open>Walks that see the same entries reach the same tables.\<close>

lemma walk_same:
  assumes "\<And>p t i. p \<in> table_paths \<Longrightarrow> walk m h r p = Some t \<Longrightarrow> i < 512 \<Longrightarrow> entry m' t i = entry m t i"
    and "q \<in> table_paths"
  shows "walk m' h r q = walk m h r q"
  using assms(2)
proof (induction q rule: rev_induct)
  case (snoc j q)
  then have q: "q \<in> table_paths" "j < 512" by (simp_all add: table_paths_snoc)
  with snoc.IH assms(1)[OF q(1) _ q(2)] show ?case
    by (cases "walk m h r q") (simp_all add: walk_snoc)
qed simp

lemma pte_same:
  assumes "\<And>p t i. p \<in> table_paths \<Longrightarrow> walk m h r p = Some t \<Longrightarrow> i < 512 \<Longrightarrow> entry m' t i = entry m t i"
  shows "pte m' h r k = pte m h r k"
proof (cases "k \<in> indices 4")
  case True
  then have k: "butlast k \<in> table_paths" "last k < 512" by (simp_all add: indices_4_snoc)
  have "walk m' h r (butlast k) = walk m h r (butlast k)"
    using assms k(1) by (rule walk_same)
  with assms[OF k(1) _ k(2)] show ?thesis
    by (cases "walk m h r (butlast k)") (simp_all add: pte_def)
qed (simp add: pte_def)

text \<open>Two tables with the same entry at the first index translate alike below it.\<close>

lemma pte_shared_entry:
  assumes "entry m r (hd k) = entry m r' (hd k)"
  shows "pte m h r k = pte m h r' k"
proof (cases "k \<in> indices 4")
  case True
  then obtain a b c d where "k = [a, b, c, d]"
    by (auto simp: indices_def numeral_eq_Suc length_Suc_conv)
  with assms show ?thesis by (simp add: pte_def)
qed (simp add: pte_def)

lemma pte_absent:
  assumes "entry m r (hd k) = 0"
  shows "pte m h r k = None"
proof (cases "k \<in> indices 4")
  case True
  then obtain a b c d where "k = [a, b, c, d]"
    by (auto simp: indices_def numeral_eq_Suc length_Suc_conv)
  with assms show ?thesis by (simp add: pte_def)
qed (simp add: pte_def)

text \<open>The loop that copies the kernel's half of the top-level table.\<close>

lemma of_nat_index: "n < 512 \<Longrightarrow> (of_nat n :: u64) < 512"
  by (simp add: word_less_nat_alt unat_of_nat_small)

lemma of_nat_index_eq: "n < 512 \<Longrightarrow> i < 512 \<Longrightarrow> of_nat n = (i :: u64) \<longleftrightarrow> n = unat i"
proof -
  assume "n < 512"
  then have "unat (of_nat n :: u64) = n" by (intro unat_of_nat_small) simp
  then show "of_nat n = i \<longleftrightarrow> n = unat i" by (metis unsigned_word_eqI)
qed

lemma copy_kernel_half_entries:
  assumes apart: "disj_range pm 4096 root 4096" "disj_range root 4096 kpm 16" "disj_range root 4096 kroot 4096"
    and top: "topLevel m pm = root" "topLevel m kpm = kroot"
  defines "m' \<equiv> copy_kernel_half pm kpm m"
  shows "\<And>x. \<not> in_range root 4096 x \<Longrightarrow> m' x = m x"
    and "\<And>i. i < 512 \<Longrightarrow> entry m' root i = (if 256 \<le> i then entry m kroot i else entry m root i)"
proof -
  let ?step = "\<lambda>i m. set_entry (topLevel m pm) (of_nat i) (entry m (topLevel m kpm) (of_nat i)) m"
  have inv: "(\<forall>x. \<not> in_range root 4096 x \<longrightarrow> fold ?step [256..<n] m x = m x)
      \<and> (\<forall>i<512. entry (fold ?step [256..<n] m) root i
            = (if 256 \<le> unat i \<and> unat i < n then entry m kroot i else entry m root i))"
    if "256 \<le> n" "n \<le> 512" for n
    using that
  proof (induction n rule: dec_induct)
    case base
    then show ?case by (auto simp: not_less)
  next
    case (step n)
    let ?m = "fold ?step [256..<n] m"
    have out: "\<And>x. \<not> in_range root 4096 x \<Longrightarrow> ?m x = m x"
      and ent: "\<And>i. i < 512 \<Longrightarrow> entry ?m root i
        = (if 256 \<le> unat i \<and> unat i < n then entry m kroot i else entry m root i)"
      using step by simp_all
    have n: "of_nat n < (512 :: u64)" using step by (intro of_nat_index) simp
    have t1: "topLevel ?m pm = root"
      using fields_other_page(1)[OF disj_range_sym[THEN iffD1, OF apart(1)] out] top(1) by simp
    have t2: "topLevel ?m kpm = kroot"
      using topLevel_same[of kpm ?m m] out disj_rangeD[OF disj_range_sym[THEN iffD1, OF apart(2)]] top(2) by simp
    have e: "entry ?m kroot (of_nat n) = entry m kroot (of_nat n)"
      using fields_other_page(3)[OF apart(3) out n] .
    have fold_Suc: "fold ?step [256..<Suc n] m = set_entry root (of_nat n) (entry m kroot (of_nat n)) ?m"
      using step(1) by (simp add: t1 t2 e)
    show ?case
      unfolding fold_Suc
    proof (intro conjI allI impI)
      fix x assume "\<not> in_range root 4096 x"
      then show "set_entry root (of_nat n) (entry m kroot (of_nat n)) ?m x = m x"
        using out set_entry_outside[OF n] by simp
    next
      fix i :: u64 assume i: "i < 512"
      show "entry (set_entry root (of_nat n) (entry m kroot (of_nat n)) ?m) root i
          = (if 256 \<le> unat i \<and> unat i < Suc n then entry m kroot i else entry m root i)"
      proof (cases "of_nat n = i")
        case True
        then have "unat i = n" using step i by (simp add: of_nat_index_eq)
        with True step show ?thesis by (simp add: entry_same)
      next
        case False
        then have "unat i \<noteq> n" using step i by (simp add: of_nat_index_eq)
        with False ent[OF i] show ?thesis
          by (simp add: entry_other_index[OF n i False] less_Suc_eq)
      qed
    qed
  qed
  have m': "m' = fold ?step [256..<512] m" by (simp only: m'_def copy_kernel_half_def)
  have all: "(\<forall>x. \<not> in_range root 4096 x \<longrightarrow> m' x = m x)
      \<and> (\<forall>i<512. entry m' root i = (if 256 \<le> unat i \<and> unat i < 512 then entry m kroot i else entry m root i))"
    unfolding m' by (rule inv) simp_all
  show "m' x = m x" if "\<not> in_range root 4096 x" for x using all that by blast
  show "entry m' root i = (if 256 \<le> i then entry m kroot i else entry m root i)" if "i < 512" for i
  proof -
    have "256 \<le> i \<longleftrightarrow> 256 \<le> unat i" "unat i < 512"
      using that by (simp_all add: word_le_nat_alt word_less_nat_alt)
    with conjunct2[OF all, rule_format, OF that] show ?thesis by simp
  qed
qed

text \<open>\<open>vmm_new_pagemap\<close> with three pages to take.\<close>

lemma new_pagemap_runs:
  assumes "direct_map_ok s" and "free_pages s = q1 # q2 # q3 # qs"
    and nn: "q1 + hhdm_off s \<noteq> 0" "q2 + hhdm_off s \<noteq> 0" "q3 + hhdm_off s \<noteq> 0"
  defines "pm \<equiv> q1 + hhdm_off s" and "root \<equiv> q2 + hhdm_off s" and "vma \<equiv> q3 + hhdm_off s"
  obtains s' where "vmm_new_pagemap s = (pm, s')" "free_pages s' = qs" "pmm_ok s'"
    "hhdm_off s' = hhdm_off s" "vmm_kernel_pagemap s' = vmm_kernel_pagemap s"
    "mem s' = copy_kernel_half pm (vmm_kernel_pagemap s) (fresh_pagemap pm root vma (mem s))"
proof -
  let ?h = "hhdm_off s"
  note pages = direct_map_pages[OF assms(1,2), folded pm_def root_def vma_def]
  have ok: "pmm_ok s" using assms(1) by (simp add: direct_map_ok_def)
  obtain s1 where 1: "alloc_virtual s = (pm, s1)" "free_pages s1 = q2 # q3 # qs" "pmm_ok s1"
    "mem s1 = mem s" "hhdm_off s1 = ?h" "vmm_kernel_pagemap s1 = vmm_kernel_pagemap s"
    using alloc_virtual_page[OF ok assms(2)] unfolding pm_def by blast
  define s2 where "s2 = s1\<lparr>mem := zero_page pm (mem s1)\<rparr>"
  have f2: "free_pages s2 = q2 # q3 # qs" "pmm_ok s2" "hhdm_off s2 = ?h"
    using 1 by (simp_all add: s2_def)
  obtain s3 where 3: "alloc_virtual s2 = (root, s3)" "free_pages s3 = q3 # qs" "pmm_ok s3"
    "mem s3 = mem s2" "hhdm_off s3 = ?h" "vmm_kernel_pagemap s3 = vmm_kernel_pagemap s"
    using alloc_virtual_page[OF f2(2,1)] f2(3) 1(6) unfolding root_def by (auto simp: s2_def)
  define s4 where "s4 = s3\<lparr>mem := set_topLevel pm root (mem s3)\<rparr>"
  have t4: "topLevel (mem s4) pm = root" by (simp add: s4_def topLevel_def set_topLevel_def)
  define s5 where "s5 = s4\<lparr>mem := zero_page (topLevel (mem s4) pm) (mem s4)\<rparr>"
  have f5: "free_pages s5 = q3 # qs" "pmm_ok s5" "hhdm_off s5 = ?h"
    using 3 by (simp_all add: s5_def s4_def)
  obtain s6 where 6: "alloc_virtual s5 = (vma, s6)" "free_pages s6 = qs" "pmm_ok s6"
    "mem s6 = mem s5" "hhdm_off s6 = ?h" "vmm_kernel_pagemap s6 = vmm_kernel_pagemap s"
    using alloc_virtual_page[OF f5(2,1)] f5(3) 3(6) unfolding vma_def by (auto simp: s5_def s4_def)
  define s7 where "s7 = s6\<lparr>mem := set_vmaHead pm vma (mem s6)\<rparr>"
  have v7: "vmaHead (mem s7) pm = vma" by (simp add: s7_def vmaHead_def set_vmaHead_def)
  have "vmaHead (zero_page vma (mem s7)) pm = vma"
    using fields_other_page(2)[OF _ zero_page_outside] pages(2) v7 by (simp add: disj_range_sym)
  note loop = self_loop_fresh[OF this pages(2)]
  have "mem s7 = set_vmaHead pm vma (zero_page root (set_topLevel pm root (zero_page pm (mem s))))"
    by (simp add: s7_def 6(4) s5_def t4) (simp add: s4_def 3(4) s2_def 1(4))
  then have m: "vma_self_loop pm (zero_page vma (mem s7)) = fresh_pagemap pm root vma (mem s)"
    unfolding loop fresh_pagemap_def by simp
  have nz: "pm \<noteq> 0" "root \<noteq> 0" "vma \<noteq> 0" using nn by (simp_all add: pm_def root_def vma_def)
  have k7: "vmm_kernel_pagemap s7 = vmm_kernel_pagemap s" by (simp add: s7_def 6(6))
  have run: "vmm_new_pagemap s = (pm, s7\<lparr>mem := copy_kernel_half pm (vmm_kernel_pagemap s)
      (fresh_pagemap pm root vma (mem s))\<rparr>)"
    unfolding vmm_new_pagemap_def 1(1) Let_def prod.case if_not_P[OF nz(1)] s2_def[symmetric] 3(1)
      s4_def[symmetric]
    unfolding t4 if_not_P[OF nz(2)] s5_def[symmetric, unfolded t4] 6(1) prod.case s7_def[symmetric]
    unfolding v7 if_not_P[OF nz(3)] m k7 ..
  have "free_pages s7 = qs" "pmm_ok s7" "hhdm_off s7 = ?h" using 6 by (simp_all add: s7_def)
  then show thesis using k7 by (intro that[OF run]) simp_all
qed


lemma entry_cong:
  assumes "\<And>x. in_range t 4096 x \<Longrightarrow> m' x = m x" and "i < 512"
  shows "entry m' t i = entry m t i"
  unfolding entry_def
proof (rule load64_cong)
  fix x assume "in_range (t + 8 * i) 8 x"
  then have "in_range t 4096 x" using entry_range[OF assms(2)] by (intro in_range_shift[of "t + 8 * i" 8 x t 4096]) auto
  then show "m' x = m x" by (rule assms(1))
qed

text \<open>An address space depends on nothing but its page map and its tables.\<close>

lemma space_stable:
  assumes inv: "vm_inv pm s" and ok: "pmm_ok s'" "distinct (free_pages s')" "set (free_pages s') \<subseteq> set (free_pages s)"
    and h: "hhdm_off s' = hhdm_off s"
    and same: "\<And>x. in_range pm 16 x \<or> (\<exists>a \<in> space_pages pm s. in_range a 4096 x) \<Longrightarrow> mem s' x = mem s x"
  shows "vm_inv pm s'" "translation pm s' = translation pm s" "space_pages pm s' \<subseteq> space_pages pm s"
proof -
  have tree: "tree_ok (mem s) (hhdm_off s) (topLevel (mem s) pm) (virtual_free s)" using inv by (simp add: vm_inv_def)
  have top: "topLevel (mem s') pm = topLevel (mem s) pm" using same by (intro topLevel_same) blast
  have ent: "entry (mem s') t i = entry (mem s) t i"
    if "p \<in> table_paths" "walk (mem s) (hhdm_off s) (topLevel (mem s) pm) p = Some t" "i < 512" for p t i
  proof -
    have "t \<in> space_pages pm s" using table_in_space[OF that(1), of pm s t] that(2) by (simp add: table_at_def)
    then show ?thesis using same that(3) by (intro entry_cong) blast+
  qed
  have w: "walk (mem s') (hhdm_off s) (topLevel (mem s) pm) p = walk (mem s) (hhdm_off s) (topLevel (mem s) pm) p"
    if "p \<in> table_paths" for p using ent that by (rule walk_same)
  have vf: "virtual_free s' \<subseteq> virtual_free s" using ok(3) by (auto simp: virtual_free_def h)
  show sp: "space_pages pm s' \<subseteq> space_pages pm s"
    using vf w by (auto simp: space_pages_def table_at_def h top)
  show "translation pm s' = translation pm s"
    unfolding translation_def h top using pte_same[OF ent] by (simp add: fun_eq_iff)
  have "tree_ok (mem s') (hhdm_off s') (topLevel (mem s') pm) (virtual_free s')"
    using tree vf w by (auto simp: tree_ok_def h top)
  then show "vm_inv pm s'" using inv ok sp by (auto simp: vm_inv_def)
qed

lemma vm_inv_direct_map: "vm_inv pm s \<Longrightarrow> direct_map_ok s"
  using tree_okD(4) by (fastforce simp: vm_inv_def direct_map_ok_def virtual_free_def)

lemma new_pagemap_translations:
  assumes inv: "vm_inv kpm s" and pages: "free_pages s = q1 # q2 # q3 # qs"
  defines "pm \<equiv> q1 + hhdm_off s" and "root \<equiv> q2 + hhdm_off s" and "vma \<equiv> q3 + hhdm_off s"
  defines "m' \<equiv> copy_kernel_half pm kpm (fresh_pagemap pm root vma (mem s))"
  shows "topLevel m' pm = root" and "topLevel m' kpm = topLevel (mem s) kpm"
    and "pte m' (hhdm_off s) (topLevel (mem s) kpm) k = translation kpm s k"
    and "k \<in> indices 4 \<Longrightarrow>
      pte m' (hhdm_off s) root k = (if hd k < 256 then None else translation kpm s k)"
proof -
  let ?h = "hhdm_off s" and ?kr = "topLevel (mem s) kpm" and ?m = "fresh_pagemap pm root vma (mem s)"
  note apart = direct_map_pages[OF vm_inv_direct_map[OF inv] pages, folded pm_def root_def vma_def]
  note fresh = fresh_pagemap_fields[OF apart(1-3)]
  have tree: "tree_ok (mem s) ?h ?kr (virtual_free s)" using inv by (simp add: vm_inv_def)
  have F: "pm \<in> virtual_free s" "root \<in> virtual_free s" "vma \<in> virtual_free s"
    by (simp_all add: virtual_free_def pages pm_def root_def vma_def)
  have space: "pm \<in> space_pages kpm s" "root \<in> space_pages kpm s" "vma \<in> space_pages kpm s"
    using F by (simp_all add: space_pages_def)
  have kr: "walk (mem s) ?h ?kr [] = Some ?kr" by simp
  have t1: "topLevel ?m kpm = ?kr"
    using space_apart[OF inv space(1)] space_apart[OF inv space(2)] space_apart[OF inv space(3)]
    by (intro topLevel_same fresh(4)) blast+
  have sep: "disj_range root 4096 kpm 16" using inv space(2) by (simp add: vm_inv_def)
  have rk: "disj_range root 4096 ?kr 4096" using table_free_disj[OF tree table_paths_Nil kr F(2)] .
  note copy = copy_kernel_half_entries[OF apart(1) sep rk fresh(1) t1, folded m'_def]
  have out: "m' x = mem s x"
    if "\<not> in_range pm 4096 x" "\<not> in_range root 4096 x" "\<not> in_range vma 4096 x" for x
    using copy(1)[OF that(2)] fresh(4)[OF that] by simp
  show "topLevel m' kpm = ?kr"
    using space_apart[OF inv space(1)] space_apart[OF inv space(2)] space_apart[OF inv space(3)]
    by (intro topLevel_same out) blast+
  show top: "topLevel m' pm = root"
    using fields_other_page(1)[OF disj_range_sym[THEN iffD1, OF apart(1)] copy(1)] fresh(1) by simp
  have same: "entry m' t i = entry (mem s) t i"
    if "p \<in> table_paths" "walk (mem s) ?h ?kr p = Some t" "i < 512" for p t i
  proof (rule entry_cong[OF out that(3)])
    fix x assume x: "in_range t 4096 x"
    show "\<not> in_range pm 4096 x" "\<not> in_range root 4096 x" "\<not> in_range vma 4096 x"
      using table_free_disj[OF tree that(1,2) F(1)] table_free_disj[OF tree that(1,2) F(2)]
        table_free_disj[OF tree that(1,2) F(3)] x disj_rangeD disj_range_sym by blast+
  qed
  show kernel: "pte m' ?h ?kr k = translation kpm s k" for k
    unfolding translation_def by (rule pte_same[OF same])
  show "pte m' ?h root k = (if hd k < 256 then None else translation kpm s k)" if "k \<in> indices 4"
  proof -
    have hd: "hd k < 512" using that by (cases k) (auto simp: indices_def)
    have re: "entry m' root (hd k) = (if 256 \<le> hd k then entry ?m ?kr (hd k) else 0)"
      using copy(2)[OF hd] fresh(3)[OF hd] by simp
    have "entry ?m ?kr (hd k) = entry m' ?kr (hd k)"
      using copy(1) disj_rangeD[OF disj_range_sym[THEN iffD1, OF rk]]
      by (intro entry_cong[OF _ hd]) simp
    note old = this
    show ?thesis
    proof (cases "hd k < 256")
      case True
      then have "\<not> 256 \<le> hd k" by (simp add: not_le)
      then have "entry m' root (hd k) = 0" using re by simp
      with True show ?thesis by (simp add: pte_absent)
    next
      case False
      then have "entry m' root (hd k) = entry m' ?kr (hd k)" using re old by (simp add: not_less)
      from pte_shared_entry[OF this] False show ?thesis by (simp add: kernel)
    qed
  qed
qed

text \<open>
  C26. \<open>vmm_new_pagemap\<close>, called with three free pages while the kernel's address space is well-formed,
  returns a new page map: nothing in its lower half is mapped, its upper half translates exactly
  as the kernel's does, and the kernel's own address space is unchanged.
\<close>

theorem vmm_new_pagemap_shares_kernel_half:
  assumes "vm_inv kpm s" and "vmm_kernel_pagemap s = kpm" and "free_pages s = q1 # q2 # q3 # qs"
    and "q1 + hhdm_off s \<noteq> 0" "q2 + hhdm_off s \<noteq> 0" "q3 + hhdm_off s \<noteq> 0"
  shows "\<exists>s'. vmm_new_pagemap s = (q1 + hhdm_off s, s') \<and> free_pages s' = qs
    \<and> (\<forall>k \<in> indices 4. translation (q1 + hhdm_off s) s' k
          = (if hd k < 256 then None else translation kpm s k))
    \<and> translation kpm s' = translation kpm s"
proof -
  obtain s' where s': "vmm_new_pagemap s = (q1 + hhdm_off s, s')" "free_pages s' = qs"
    "hhdm_off s' = hhdm_off s"
    "mem s' = copy_kernel_half (q1 + hhdm_off s) kpm
      (fresh_pagemap (q1 + hhdm_off s) (q2 + hhdm_off s) (q3 + hhdm_off s) (mem s))"
    using new_pagemap_runs[OF vm_inv_direct_map[OF assms(1)] assms(3-6)] assms(2) by metis
  note t = new_pagemap_translations[OF assms(1,3), folded s'(4)]
  have "translation kpm s' = translation kpm s"
    using t(2,3) by (simp add: fun_eq_iff translation_def[of kpm s'] s'(3))
  moreover have "\<forall>k \<in> indices 4. translation (q1 + hhdm_off s) s' k
      = (if hd k < 256 then None else translation kpm s k)"
    using t(1,4) by (simp add: translation_def[of "q1 + hhdm_off s" s'] s'(3))
  ultimately show ?thesis using s'(1,2) by blast
qed


lemma fresh_vmm_8:
  "fresh_pm 8 = 0xffff800000008000"
  "free_pages (fresh_vmm 8) = [0x5000, 0x4000, 0x3000, 0x2000, 0x1000]"
proof -
  have b: "free_pages (boot_vmm 8) = [0x8000, 0x7000, 0x6000, 0x5000, 0x4000, 0x3000, 0x2000, 0x1000]"
    by (simp add: boot_vmm_ok(1) upt_rec)
  then show "fresh_pm 8 = 0xffff800000008000" by (simp add: fresh_pm_def)
  show "free_pages (fresh_vmm 8) = [0x5000, 0x4000, 0x3000, 0x2000, 0x1000]"
    using init_tables_space(5)[OF boot_vmm_ok(2) b] by (simp add: fresh_vmm_def)
qed

theorem vmm_new_pagemap_shares_kernel_half_witness:
  "\<exists>s'. vmm_new_pagemap (fresh_vmm 8) = (0xffff800000005000, s')
     \<and> translation 0xffff800000005000 s' (key 0x400000) = None"
proof -
  have w: "written (fresh_pm 8) 0xffff800000000000 5 [] (fresh_vmm 8)"
    using fresh_written[of 8] by simp
  then have k: "vmm_kernel_pagemap (fresh_vmm 8) = fresh_pm 8" and h: "hhdm_off (fresh_vmm 8) = 0xffff800000000000"
    and inv: "vm_inv (fresh_pm 8) (fresh_vmm 8)" by (simp_all add: written_def)
  from vmm_new_pagemap_shares_kernel_half[OF inv k fresh_vmm_8(2), unfolded h]
  obtain s' where s': "vmm_new_pagemap (fresh_vmm 8) = (0xffff800000005000, s')"
    "\<forall>k \<in> indices 4. translation 0xffff800000005000 s' k
        = (if hd k < 256 then None else translation (fresh_pm 8) (fresh_vmm 8) k)"
    by auto
  have "hd (key 0x400000) = 0" by (simp add: key_def)
  with s'(2)[rule_format, OF key_indices, of "0x400000"] s'(1) show ?thesis by auto
qed

section \<open>Running out of pages\<close>

text \<open>
  \<open>__vmm_get_next_lvl\<close> does not check its allocation.  When the allocator is empty and the entry is
  absent, it takes physical page 0 for the new table: it wipes that page through the direct map,
  links it into the page table as present and writable, and reports no error.
\<close>

theorem vmm_out_of_pages_wipes_page_zero:
  assumes "pmm_ok s" and "free_pages s = []" and "entry (mem s) level i AND 1 = 0" and "i < 512"
    and "disj_range (hhdm_off s) 4096 level 4096"
  shows "\<exists>s'. vmm_get_next_lvl level i s = (hhdm_off s, s')
    \<and> (\<forall>x. in_range (hhdm_off s) 4096 x \<longrightarrow> mem s' x = 0)
    \<and> entry (mem s') level i = 3 \<and> trace s' = trace s"
proof -
  have a: "pmm_allocpage s = (NULL, s)" using pg.alloc_empty[OF assms(1,2)] .
  have step: "vmm_get_next_lvl level i s = (hhdm_off s,
      s\<lparr>mem := set_entry level i (0 OR 1 OR 2 OR 3) (zero_page (hhdm_off s) (mem s))\<rparr>)"
    unfolding vmm_get_next_lvl_def a Let_def prod.case PHYSICAL_TO_VIRTUAL_def VIRTUAL_TO_PHYSICAL_def
    using assms(3) by simp
  have "set_entry level i v (zero_page (hhdm_off s) (mem s)) x = 0" if "in_range (hhdm_off s) 4096 x" for v x
    using set_entry_outside[OF assms(4) disj_rangeD[OF assms(5) that]] that
    by (simp add: zero_page_def memset_apply PAGE_SIZE_def)
  then show ?thesis by (simp add: step entry_same)
qed

theorem vmm_out_of_pages_wipes_page_zero_witness:
  "fst (vmm_get_next_lvl 0xffff800000005000 3 (boot_vmm 0)) = 0xffff800000000000"
proof -
  have "load (\<lambda>_. 0 :: u8) a n = 0" for a n by (induction n arbitrary: a) simp_all
  then have "entry (mem (boot_vmm 0)) 0xffff800000005000 3 AND 1 = 0"
    by (simp add: entry_def load64_def boot_vmm_def)
  moreover have "disj_range 0xffff800000000000 4096 (0xffff800000005000 :: u64) 4096"
    by (intro page_disj) simp_all
  moreover have "pmm_ok (boot_vmm 0)" "free_pages (boot_vmm 0) = []" "hhdm_off (boot_vmm 0) = 0xffff800000000000"
    using boot_vmm_ok[of 0] by (simp_all add: direct_map_ok_def)
  ultimately show ?thesis
    using vmm_out_of_pages_wipes_page_zero[of "boot_vmm 0" "0xffff800000005000" 3] by auto
qed

text \<open>
  \<open>vmm_new_pagemap\<close> compares the direct-map address with NULL, not the page it allocated.  With no
  free page at all and a direct map that does not start at 0 it therefore never reports failure:
  it logs nothing and returns the address of physical page 0 as the new page map.
\<close>

theorem vmm_new_pagemap_misses_exhaustion:
  assumes "pmm_ok s" and "free_pages s = []" and "hhdm_off s \<noteq> 0"
  shows "fst (vmm_new_pagemap s) = hhdm_off s \<and> trace (snd (vmm_new_pagemap s)) = trace s"
proof -
  let ?h = "hhdm_off s"
  have alloc: "alloc_virtual (s\<lparr>mem := m\<rparr>) = (?h, s\<lparr>mem := m\<rparr>)" for m
    using pg.alloc_empty[of "s\<lparr>mem := m\<rparr>"] assms(1,2)
    by (simp add: alloc_virtual_def PHYSICAL_TO_VIRTUAL_def)
  have "s = s\<lparr>mem := mem s\<rparr>" by simp
  then have alloc0: "alloc_virtual s = (?h, s)" using alloc[of "mem s"] by simp
  have t: "topLevel (set_topLevel ?h ?h m) ?h = ?h" "vmaHead (set_vmaHead ?h ?h m) ?h = ?h" for m
    by (simp_all add: topLevel_def set_topLevel_def vmaHead_def set_vmaHead_def)
  show ?thesis
    unfolding vmm_new_pagemap_def alloc0 Let_def prod.case if_not_P[OF assms(3)] alloc
    using assms(3) by (simp add: t alloc Let_def)
qed

theorem vmm_new_pagemap_misses_exhaustion_witness:
  "fst (vmm_new_pagemap (boot_vmm 0)) = 0xffff800000000000"
  using vmm_new_pagemap_misses_exhaustion[of "boot_vmm 0"] boot_vmm_ok[of 0]
  by (simp add: direct_map_ok_def)

end
