(* ===== verification/SchedRing.thy ===== *)
theory SchedRing
  imports Sched Dispatcher VmmSpaces
begin

text \<open>
  What \<open>schedule\<close> does to a well-formed list of processes: a round robin over the processes, the
  first live thread of each, saving and restoring the interrupted registers.
\<close>

section \<open>Lists of threads and processes in memory\<close>

primrec thread_list :: "mem \<Rightarrow> ptr \<Rightarrow> ptr list \<Rightarrow> bool" where
  "thread_list m t [] \<longleftrightarrow> t = NULL"
| "thread_list m t (x # xs) \<longleftrightarrow> t = x \<and> x \<noteq> NULL \<and> thread_list m (t_next m x) xs"

primrec proc_list :: "mem \<Rightarrow> ptr \<Rightarrow> (ptr \<times> ptr list) list \<Rightarrow> bool" where
  "proc_list m p [] \<longleftrightarrow> p = NULL"
| "proc_list m p (x # ps) \<longleftrightarrow> p = fst x \<and> fst x \<noteq> NULL \<and> thread_list m (p_threads m (fst x)) (snd x)
     \<and> proc_list m (p_next m (fst x)) ps"

definition threads_of :: "(ptr \<times> ptr list) list \<Rightarrow> ptr set" where
  "threads_of ps = (\<Union>x \<in> set ps. set (snd x))"

text \<open>The structures and the interrupt frame do not overlap.\<close>

definition layout_apart :: "ptr \<Rightarrow> (ptr \<times> ptr list) list \<Rightarrow> bool" where
  "layout_apart sf ps \<longleftrightarrow> distinct (map fst ps) \<and> distinct (concat (map snd ps))
     \<and> (\<forall>t \<in> threads_of ps. \<forall>u \<in> threads_of ps. t \<noteq> u \<longrightarrow> disj_range t 336 u 336)
     \<and> (\<forall>t \<in> threads_of ps. \<forall>p \<in> fst ` set ps. disj_range t 336 p 152)
     \<and> (\<forall>t \<in> threads_of ps. disj_range sf 176 t 336) \<and> (\<forall>p \<in> fst ` set ps. disj_range sf 176 p 152)"

definition sched_inv :: "ptr \<Rightarrow> (ptr \<times> ptr list) list \<Rightarrow> 'a sched_scheme \<Rightarrow> bool" where
  "sched_inv sf ps s \<longleftrightarrow> proc_list (mem s) (sched_processes_list s) ps \<and> layout_apart sf ps
     \<and> (\<exists>ts. (sched_current_process s, ts) \<in> set ps \<and> sched_current_thread s \<in> set ts)"

text \<open>
  The two parts of the invariant: what holds of the structures at any time, and where the frame of an
  interrupt may lie, which is on the stack of the interrupted thread and so at another address each time.
\<close>

definition sched_wf :: "(ptr \<times> ptr list) list \<Rightarrow> 'a sched_scheme \<Rightarrow> bool" where
  "sched_wf ps s \<longleftrightarrow> proc_list (mem s) (sched_processes_list s) ps
     \<and> distinct (map fst ps) \<and> distinct (concat (map snd ps))
     \<and> (\<forall>t \<in> threads_of ps. \<forall>u \<in> threads_of ps. t \<noteq> u \<longrightarrow> disj_range t 336 u 336)
     \<and> (\<forall>t \<in> threads_of ps. \<forall>p \<in> fst ` set ps. disj_range t 336 p 152)
     \<and> (\<exists>ts. (sched_current_process s, ts) \<in> set ps \<and> sched_current_thread s \<in> set ts)"

definition frame_apart :: "(ptr \<times> ptr list) list \<Rightarrow> ptr \<Rightarrow> bool" where
  "frame_apart ps sf \<longleftrightarrow>
     (\<forall>t \<in> threads_of ps. disj_range sf 176 t 336) \<and> (\<forall>p \<in> fst ` set ps. disj_range sf 176 p 152)"

lemma sched_inv_split: "sched_inv sf ps s \<longleftrightarrow> sched_wf ps s \<and> frame_apart ps sf"
  unfolding sched_inv_def sched_wf_def frame_apart_def layout_apart_def by blast

section \<open>The round robin as a function\<close>

text \<open>The processes in the order the loop visits them from process \<open>c\<close> on, ending with \<open>c\<close> itself.\<close>

definition ring :: "(ptr \<times> ptr list) list \<Rightarrow> ptr \<Rightarrow> (ptr \<times> ptr list) list" where
  "ring ps c = (let r = dropWhile (\<lambda>x. fst x \<noteq> c) ps
     in tl r @ takeWhile (\<lambda>x. fst x \<noteq> c) ps @ take 1 r)"

fun select_live :: "(ptr \<Rightarrow> bool) \<Rightarrow> (ptr \<times> ptr list) list \<Rightarrow> (ptr \<times> ptr) option" where
  "select_live ok [] = None"
| "select_live ok ((p, ts) # ps) = (case find ok ts of Some t \<Rightarrow> Some (p, t) | None \<Rightarrow> select_live ok ps)"

record sched_view =
  v_proc :: ptr
  v_thread :: ptr
  v_status :: "ptr \<Rightarrow> u32"
  v_context :: "ptr \<Rightarrow> u8 list"
  v_frame :: "u8 list"

definition view_schedule :: "(ptr \<times> ptr list) list \<Rightarrow> sched_view \<Rightarrow> sched_view option" where
  "view_schedule ps v =
     (let status = (v_status v)(v_thread v := READY);
          ctx = (v_context v)(v_thread v := v_frame v)
      in case select_live (\<lambda>t. status t \<noteq> DEAD) (ring ps (v_proc v)) of
           None \<Rightarrow> None
         | Some (p, t) \<Rightarrow> Some \<lparr>v_proc = p, v_thread = t, v_status = status(t := RUNNING),
                              v_context = ctx, v_frame = ctx t\<rparr>)"

definition t_frame :: "mem \<Rightarrow> ptr \<Rightarrow> u8 list" where
  "t_frame m t = bytes_at m (t_context t) 176"

definition view_of :: "ptr \<Rightarrow> (ptr \<times> ptr list) list \<Rightarrow> 'a sched_scheme \<Rightarrow> sched_view" where
  "view_of sf ps s = \<lparr>v_proc = sched_current_process s, v_thread = sched_current_thread s,
     v_status = (\<lambda>t. if t \<in> threads_of ps then t_status (mem s) t else READY),
     v_context = (\<lambda>t. if t \<in> threads_of ps then t_frame (mem s) t else []),
     v_frame = bytes_at (mem s) sf 176\<rparr>"

section \<open>The loops\<close>

lemma pick_thread_list:
  assumes "thread_list m t ts"
  shows "pick_thread m t = Some (case find (\<lambda>x. t_status m x \<noteq> DEAD) ts of
    None \<Rightarrow> (NULL, m) | Some x \<Rightarrow> (x, set_t_status x RUNNING m))"
  using assms
proof (induction ts arbitrary: t)
  case Nil
  then show ?case by (simp add: pick_thread.simps)
next
  case (Cons x ts)
  then show ?case by (simp add: pick_thread.simps[of m x])
qed

lemma status_after_set [simp]: "t_status (set_t_status t v m) t = v"
  by (simp add: t_status_def set_t_status_def)

lemma RUNNING_not_DEAD [simp]: "RUNNING \<noteq> DEAD" "READY \<noteq> DEAD"
  by (simp_all add: RUNNING_def DEAD_def READY_def)

lemma schedule_loop_hit:
  assumes "thread_list m (p_threads m p) ts" and "find (\<lambda>x. t_status m x \<noteq> DEAD) ts = Some t" and "NULL \<notin> set ts"
    and "p = (if p_next m c \<noteq> NULL then p_next m c else l)"
  shows "schedule_loop m l c = Some (p, t, set_t_status t RUNNING m)"
proof -
  have "t \<in> set ts" using assms(2) by (auto simp: find_Some_iff)
  with assms(3) have "t \<noteq> NULL" by auto
  then show ?thesis
    using pick_thread_list[OF assms(1)] assms(2,4) by (simp add: schedule_loop.simps[of m l c] Let_def)
qed

lemma schedule_loop_miss:
  assumes "thread_list m (p_threads m p) ts" and "find (\<lambda>x. t_status m x \<noteq> DEAD) ts = None"
    and "p = (if p_next m c \<noteq> NULL then p_next m c else l)"
  shows "schedule_loop m l c = schedule_loop m l p"
  using pick_thread_list[OF assms(1)] assms(2,3) by (simp add: schedule_loop.simps[of m l c] Let_def)

lemma thread_list_nonnull: "thread_list m t ts \<Longrightarrow> NULL \<notin> set ts"
  by (induction ts arbitrary: t) auto

lemma schedule_loop_suffix:
  assumes "proc_list m (p_next m c) zs" and "select_live (\<lambda>t. t_status m t \<noteq> DEAD) zs = Some (p, t)"
  shows "schedule_loop m l c = Some (p, t, set_t_status t RUNNING m)"
  using assms
proof (induction zs arbitrary: c)
  case Nil
  then show ?case by simp
next
  case (Cons z zs)
  obtain q ts where z: "z = (q, ts)" by (cases z)
  have q: "p_next m c = q" "q \<noteq> NULL" "thread_list m (p_threads m q) ts" "proc_list m (p_next m q) zs"
    using Cons.prems(1) by (simp_all add: z)
  then have p: "q = (if p_next m c \<noteq> NULL then p_next m c else l)" by simp
  show ?case
  proof (cases "find (\<lambda>x. t_status m x \<noteq> DEAD) ts")
    case None
    with Cons.prems(2) have "select_live (\<lambda>t. t_status m t \<noteq> DEAD) zs = Some (p, t)" by (simp add: z)
    with Cons.IH[OF q(4)] schedule_loop_miss[OF q(3) None p] show ?thesis by simp
  next
    case (Some x)
    with schedule_loop_hit[OF q(3) Some thread_list_nonnull[OF q(3)] p] Cons.prems(2)
    show ?thesis by (simp add: z)
  qed
qed

lemma schedule_loop_past:
  assumes "proc_list m (p_next m c) zs" and "select_live (\<lambda>t. t_status m t \<noteq> DEAD) zs = None"
  obtains e where "schedule_loop m l c = schedule_loop m l e" and "p_next m e = NULL"
  using assms
proof (induction zs arbitrary: c thesis)
  case Nil
  then show ?case by simp
next
  case (Cons z zs)
  obtain q ts where z: "z = (q, ts)" by (cases z)
  have q: "p_next m c = q" "q \<noteq> NULL" "thread_list m (p_threads m q) ts" "proc_list m (p_next m q) zs"
    using Cons.prems(2) by (simp_all add: z)
  then have p: "q = (if p_next m c \<noteq> NULL then p_next m c else l)" by simp
  have none: "find (\<lambda>x. t_status m x \<noteq> DEAD) ts = None" "select_live (\<lambda>t. t_status m t \<noteq> DEAD) zs = None"
    using Cons.prems(3) by (simp_all add: z split: option.splits)
  from Cons.IH[OF _ q(4) none(2)] obtain e where
    "schedule_loop m l q = schedule_loop m l e" "p_next m e = NULL" by blast
  with schedule_loop_miss[OF q(3) none(1) p] Cons.prems(1)[of e] show ?case by simp
qed

lemma schedule_loop_wrap:
  assumes "proc_list m l ps" and "p_next m e = NULL" and "select_live (\<lambda>t. t_status m t \<noteq> DEAD) ps = Some (p, t)"
  shows "schedule_loop m l e = Some (p, t, set_t_status t RUNNING m)"
proof -
  obtain q ts zs where ps: "ps = (q, ts) # zs" using assms(3) by (cases ps) auto
  have q: "l = q" "thread_list m (p_threads m q) ts" "proc_list m (p_next m q) zs"
    using assms(1) by (simp_all add: ps)
  then have r: "q = (if p_next m e \<noteq> NULL then p_next m e else l)" using assms(2) by simp
  show ?thesis
  proof (cases "find (\<lambda>x. t_status m x \<noteq> DEAD) ts")
    case None
    with assms(3) have "select_live (\<lambda>t. t_status m t \<noteq> DEAD) zs = Some (p, t)" by (simp add: ps)
    with schedule_loop_suffix[OF q(3)] schedule_loop_miss[OF q(2) None r] show ?thesis by simp
  next
    case (Some x)
    with schedule_loop_hit[OF q(2) Some thread_list_nonnull[OF q(2)] r] assms(3) show ?thesis
      by (simp add: ps)
  qed
qed

lemma select_append: "select_live ok (xs @ ys) = (case select_live ok xs of None \<Rightarrow> select_live ok ys | r \<Rightarrow> r)"
  by (induction xs) (auto split: option.splits)

lemma proc_list_append:
  "proc_list m p (xs @ (c, ts) # ys) \<Longrightarrow>
     thread_list m (p_threads m c) ts \<and> proc_list m (p_next m c) ys"
  by (induction xs arbitrary: p) auto

lemma ring_split:
  assumes "distinct (map fst (xs @ (c, ts) # ys))"
  shows "ring (xs @ (c, ts) # ys) c = ys @ xs @ [(c, ts)]"
proof -
  have "\<forall>x \<in> set xs. fst x \<noteq> c" using assms by force
  then have "dropWhile (\<lambda>x. fst x \<noteq> c) (xs @ (c, ts) # ys) = (c, ts) # ys"
    "takeWhile (\<lambda>x. fst x \<noteq> c) (xs @ (c, ts) # ys) = xs"
    by (simp_all add: dropWhile_append3 takeWhile_append2)
  then show ?thesis by (simp add: ring_def)
qed

text \<open>The outer loop finds the first live thread round the ring, if there is one.\<close>

lemma schedule_loop_ring:
  assumes "proc_list m l ps" and "distinct (map fst ps)" and "c \<in> fst ` set ps"
    and "select_live (\<lambda>t. t_status m t \<noteq> DEAD) (ring ps c) = Some (p, t)"
  shows "schedule_loop m l c = Some (p, t, set_t_status t RUNNING m)"
proof -
  let ?live = "\<lambda>t. t_status m t \<noteq> DEAD"
  obtain ts where "(c, ts) \<in> set ps" using assms(3) by force
  then obtain xs ys where ps: "ps = xs @ (c, ts) # ys" by (meson split_list)
  have ch: "select_live ?live (ys @ xs @ [(c, ts)]) = Some (p, t)"
    using assms(4) ring_split[of xs c ts ys] assms(2) by (simp add: ps)
  have suf: "proc_list m (p_next m c) ys" using proc_list_append[OF assms(1)[unfolded ps]] by simp
  show ?thesis
  proof (cases "select_live ?live ys")
    case None
    from schedule_loop_past[OF suf None] obtain e where
      e: "schedule_loop m l c = schedule_loop m l e" "p_next m e = NULL" by blast
    have "select_live ?live (xs @ [(c, ts)]) = Some (p, t)" using ch None by (simp add: select_append)
    then have "select_live ?live ps = Some (p, t)"
      by (simp add: ps select_append split: option.splits)
    with schedule_loop_wrap[OF assms(1) e(2)] e(1) show ?thesis by simp
  next
    case (Some r)
    then have "select_live ?live ys = Some (p, t)" using ch by (simp add: select_append)
    with schedule_loop_suffix[OF suf] show ?thesis by simp
  qed
qed


section \<open>Which writes the structures see\<close>

lemma bytes_at_same_outside:
  assumes "same_outside a n m m'" and "disj_range a n b k" and "k \<le> 2 ^ 64"
  shows "bytes_at m' b k = bytes_at m b k"
proof -
  have "m' (b + of_nat i) = m (b + of_nat i)" if "i < k" for i
  proof -
    have "unat (of_nat i :: u64) = i" using that assms(3) by (intro unat_of_nat_small) simp
    then have "in_range b k (b + of_nat i)" using that by (simp add: in_range_def)
    then have "\<not> in_range a n (b + of_nat i)" using assms(2) by (meson disj_rangeD disj_range_sym)
    with assms(1) show ?thesis by (simp add: same_outside_def)
  qed
  then show ?thesis by (simp add: bytes_at_def)
qed

lemma bytes_at_memcpy:
  assumes "disj_range d (unat n) s (unat n)"
  shows "bytes_at (snd (memcpy d s n m)) d (unat n) = bytes_at m s (unat n)"
proof -
  have dir: "d = s \<or> unat n \<le> unat (d - s)" using assms by (simp add: disj_range_def)
  have "snd (memcpy d s n m) (d + of_nat i) = m (s + of_nat i)" if "i < unat n" for i
  proof -
    have "unat (of_nat i :: u64) = i" using that unat_lt64[of n] by (intro unat_of_nat_small) simp
    then show ?thesis using that by (simp add: memcpy_apply[OF dir] in_range_def)
  qed
  then show ?thesis by (simp add: bytes_at_def)
qed

lemma memcpy_same_outside: "same_outside d (unat n) m (snd (memcpy d s n m))"
  by (simp add: same_outside_def memcpy_outside)

lemma set_status_same_outside: "same_outside (t + 184) 4 m (set_t_status t v m)"
  unfolding set_t_status_def by (rule same_outside_store32) simp_all

lemma thread_write:
  assumes lay: "layout_apart sf ps" and t: "t \<in> threads_of ps"
    and w: "same_outside (t + d) n m m'" "unat d + n \<le> 336" "0 < n"
  shows "p \<in> fst ` set ps \<Longrightarrow> p_next m' p = p_next m p \<and> p_threads m' p = p_threads m p"
    and "x \<in> threads_of ps \<Longrightarrow> x \<noteq> t \<Longrightarrow>
      t_status m' x = t_status m x \<and> t_next m' x = t_next m x \<and> t_frame m' x = t_frame m x"
    and "bytes_at m' sf 176 = bytes_at m sf 176"
proof -
  show "p_next m' p = p_next m p \<and> p_threads m' p = p_threads m p" if "p \<in> fst ` set ps"
  proof -
    have "disj_range t 336 p 152" using lay t that by (auto simp: layout_apart_def)
    then have "disj_range (t + d) n (p + 144) 8" "disj_range (t + d) n (p + 136) 8"
      using w(2,3) by (auto intro!: disj_range_fields[where n = 336 and k = 152])
    then show ?thesis using w(1) by (simp add: p_next_def p_threads_def load64_same_outside)
  qed
  show "t_status m' x = t_status m x \<and> t_next m' x = t_next m x \<and> t_frame m' x = t_frame m x"
    if "x \<in> threads_of ps" "x \<noteq> t"
  proof -
    have "disj_range t 336 x 336" using lay t that by (auto simp: layout_apart_def)
    then have "disj_range (t + d) n (x + 184) 4" "disj_range (t + d) n (x + 328) 8"
      "disj_range (t + d) n (x + 8) 176"
      using w(2,3) by (auto intro!: disj_range_fields[where n = 336 and k = 336])
    then show ?thesis using w(1)
      by (simp add: t_status_def t_next_def t_frame_def t_context_def load64_same_outside
          load32_same_outside bytes_at_same_outside)
  qed
  have "disj_range sf 176 t 336" using lay t by (auto simp: layout_apart_def)
  then have "disj_range (t + d) n (sf + 0) 176"
    using w(2,3) by (intro disj_range_fields[where n = 336 and k = 176]) (auto simp: disj_range_sym)
  then show "bytes_at m' sf 176 = bytes_at m sf 176"
    using w(1) by (intro bytes_at_same_outside) simp_all
qed

lemma frame_write:
  assumes lay: "layout_apart sf ps" and w: "same_outside sf 176 m m'"
  shows "p \<in> fst ` set ps \<Longrightarrow> p_next m' p = p_next m p \<and> p_threads m' p = p_threads m p"
    and "x \<in> threads_of ps \<Longrightarrow>
      t_status m' x = t_status m x \<and> t_next m' x = t_next m x \<and> t_frame m' x = t_frame m x"
proof -
  show "p_next m' p = p_next m p \<and> p_threads m' p = p_threads m p" if "p \<in> fst ` set ps"
  proof -
    have "disj_range sf 176 p 152" using lay that by (auto simp: layout_apart_def)
    then have "disj_range sf 176 (p + 144) 8" "disj_range sf 176 (p + 136) 8"
      by (auto intro!: disj_range_field[where k = 152])
    then show ?thesis using w by (simp add: p_next_def p_threads_def load64_same_outside)
  qed
  show "t_status m' x = t_status m x \<and> t_next m' x = t_next m x \<and> t_frame m' x = t_frame m x"
    if "x \<in> threads_of ps"
  proof -
    have "disj_range sf 176 x 336" using lay that by (auto simp: layout_apart_def)
    then have "disj_range sf 176 (x + 184) 4" "disj_range sf 176 (x + 328) 8"
      "disj_range sf 176 (x + 8) 176"
      by (auto intro!: disj_range_field[where k = 336])
    then show ?thesis using w
      by (simp add: t_status_def t_next_def t_frame_def t_context_def load64_same_outside
          load32_same_outside bytes_at_same_outside)
  qed
qed

lemma thread_list_cong:
  assumes "\<And>x. x \<in> set ts \<Longrightarrow> t_next m' x = t_next m x"
  shows "thread_list m' t ts = thread_list m t ts"
  using assms by (induction ts arbitrary: t) auto

lemma proc_list_cong:
  assumes "\<And>p. p \<in> fst ` set ps \<Longrightarrow> p_next m' p = p_next m p \<and> p_threads m' p = p_threads m p"
    and "\<And>x. x \<in> threads_of ps \<Longrightarrow> t_next m' x = t_next m x"
  shows "proc_list m' p ps = proc_list m p ps"
  using assms
proof (induction ps arbitrary: p)
  case Nil
  then show ?case by simp
next
  case (Cons x ps)
  have "thread_list m' (p_threads m' (fst x)) (snd x) = thread_list m (p_threads m (fst x)) (snd x)"
    using Cons.prems by (subst thread_list_cong[of _ m' m]) (auto simp: threads_of_def)
  with Cons.IH[of "p_next m (fst x)"] Cons.prems show ?case by (auto simp: threads_of_def)
qed

text \<open>The three writes of a switch, on the fields of every structure.\<close>

lemma save_context:
  fixes m :: mem
  assumes "layout_apart sf ps" and "t \<in> threads_of ps"
  defines "m' \<equiv> snd (memcpy (t_context t) sf sizeof_stackframe m)"
  shows "proc_list m' p ps = proc_list m p ps"
    and "x \<in> threads_of ps \<Longrightarrow> t_status m' x = t_status m x"
    and "x \<in> threads_of ps \<Longrightarrow> t_frame m' x = (if x = t then bytes_at m sf 176 else t_frame m x)"
    and "bytes_at m' sf 176 = bytes_at m sf 176"
proof -
  have so: "same_outside (t + 8) 176 m m'"
    using memcpy_same_outside[of "t + 8" 176 m sf] by (simp add: m'_def t_context_def sizeof_stackframe_def)
  note w = thread_write[OF assms(1,2) so]
  have "disj_range (t + 8) 176 (t + 184) 4" "disj_range (t + 8) 176 (t + 328) 8"
    by (simp_all add: mem_simps)
  then have own: "t_status m' t = t_status m t" "t_next m' t = t_next m t"
    using so by (simp_all add: t_status_def t_next_def load32_same_outside load64_same_outside)
  have "disj_range sf 176 t 336" using assms(1,2) by (auto simp: layout_apart_def)
  then have "disj_range sf 176 (t + 8) 176" by (intro disj_range_field[where k = 336]) auto
  then have cp: "t_frame m' t = bytes_at m sf 176"
    using bytes_at_memcpy[of "t + 8" 176 sf m]
    by (simp add: m'_def t_frame_def t_context_def sizeof_stackframe_def disj_range_sym)
  show "proc_list m' p ps = proc_list m p ps"
  proof (rule proc_list_cong)
    show "t_next m' x = t_next m x" if "x \<in> threads_of ps" for x
      using w(2)[OF _ _ that] own by (cases "x = t") simp_all
  qed (use w(1) in simp)
  show "t_status m' x = t_status m x" if "x \<in> threads_of ps"
    using w(2)[OF _ _ that] own by (cases "x = t") simp_all
  show "t_frame m' x = (if x = t then bytes_at m sf 176 else t_frame m x)" if "x \<in> threads_of ps"
    using w(2)[OF _ _ that] cp by (cases "x = t") simp_all
  show "bytes_at m' sf 176 = bytes_at m sf 176" using w(3) by simp
qed

lemma change_status:
  fixes m :: mem and v :: u32
  assumes "layout_apart sf ps" and "t \<in> threads_of ps"
  defines "m' \<equiv> set_t_status t v m"
  shows "proc_list m' p ps = proc_list m p ps"
    and "x \<in> threads_of ps \<Longrightarrow> t_status m' x = (if x = t then v else t_status m x)"
    and "x \<in> threads_of ps \<Longrightarrow> t_frame m' x = t_frame m x"
    and "bytes_at m' sf 176 = bytes_at m sf 176"
proof -
  have so: "same_outside (t + 184) 4 m m'" by (simp add: m'_def set_status_same_outside)
  note w = thread_write[OF assms(1,2) so]
  have "disj_range (t + 184) 4 (t + 8) 176" "disj_range (t + 184) 4 (t + 328) 8"
    by (simp_all add: mem_simps)
  then have own: "t_frame m' t = t_frame m t" "t_next m' t = t_next m t"
    using so by (simp_all add: t_frame_def t_context_def t_next_def load64_same_outside bytes_at_same_outside)
  show "proc_list m' p ps = proc_list m p ps"
  proof (rule proc_list_cong)
    show "t_next m' x = t_next m x" if "x \<in> threads_of ps" for x
      using w(2)[OF _ _ that] own by (cases "x = t") simp_all
  qed (use w(1) in simp)
  show "t_status m' x = (if x = t then v else t_status m x)" if "x \<in> threads_of ps"
    using w(2)[OF _ _ that] by (cases "x = t") (simp_all add: m'_def)
  show "t_frame m' x = t_frame m x" if "x \<in> threads_of ps"
    using w(2)[OF _ _ that] own by (cases "x = t") simp_all
  show "bytes_at m' sf 176 = bytes_at m sf 176" using w(3) by simp
qed

lemma load_context:
  fixes m :: mem
  assumes "layout_apart sf ps" and "t \<in> threads_of ps"
  defines "m' \<equiv> snd (memcpy sf (t_context t) sizeof_stackframe m)"
  shows "proc_list m' p ps = proc_list m p ps"
    and "x \<in> threads_of ps \<Longrightarrow> t_status m' x = t_status m x"
    and "x \<in> threads_of ps \<Longrightarrow> t_frame m' x = t_frame m x"
    and "bytes_at m' sf 176 = t_frame m t"
proof -
  have so: "same_outside sf 176 m m'"
    using memcpy_same_outside[of sf 176 m "t_context t"] by (simp add: m'_def sizeof_stackframe_def)
  note w = frame_write[OF assms(1) so]
  show "proc_list m' p ps = proc_list m p ps"
    by (rule proc_list_cong) (use w in simp_all)
  show "x \<in> threads_of ps \<Longrightarrow> t_status m' x = t_status m x"
    "x \<in> threads_of ps \<Longrightarrow> t_frame m' x = t_frame m x"
    using w(2) by simp_all
  have "disj_range sf 176 t 336" using assms(1,2) by (auto simp: layout_apart_def)
  then have "disj_range sf 176 (t + 8) 176" by (intro disj_range_field[where k = 336]) auto
  then show "bytes_at m' sf 176 = t_frame m t"
    using bytes_at_memcpy[of sf 176 "t + 8" m]
    by (simp add: m'_def t_frame_def t_context_def sizeof_stackframe_def)
qed

section \<open>Refinement\<close>

lemma select_live_member:
  assumes "select_live ok ps = Some (p, t)"
  obtains us ts vs where "ps = us @ (p, ts) # vs" "find ok ts = Some t"
    "\<forall>x \<in> set us. find ok (snd x) = None"
  using assms
proof (induction ps arbitrary: thesis)
  case (Cons x ps)
  obtain q ts where x: "x = (q, ts)" by (cases x)
  show ?case
  proof (cases "find ok ts")
    case None
    with Cons.prems(2) have "select_live ok ps = Some (p, t)" by (simp add: x)
    from Cons.IH[OF _ this] obtain us ws vs where
      h: "ps = us @ (p, ws) # vs" "find ok ws = Some t" "\<forall>x \<in> set us. find ok (snd x) = None" by blast
    show ?thesis by (rule Cons.prems(1)[of "x # us" ws vs]) (use h None in \<open>simp_all add: x\<close>)
  next
    case (Some u)
    then have "q = p" "u = t" using Cons.prems(2) by (simp_all add: x)
    then show ?thesis using Cons.prems(1)[of "[]" ts ps] Some by (simp add: x)
  qed
qed simp

lemma select_live_cong:
  assumes "\<And>t. t \<in> threads_of ps \<Longrightarrow> ok t = ok' t"
  shows "select_live ok ps = select_live ok' ps"
  using assms
proof (induction ps)
  case (Cons x ps)
  obtain q ts where x: "x = (q, ts)" by (cases x)
  have "find ok ts = find ok' ts" using Cons.prems by (intro find_cong) (auto simp: threads_of_def x)
  with Cons show ?case by (auto simp: x threads_of_def split: option.splits)
qed simp

lemma ring_set: "c \<in> fst ` set ps \<Longrightarrow> distinct (map fst ps) \<Longrightarrow> set (ring ps c) = set ps"
proof -
  assume "c \<in> fst ` set ps" "distinct (map fst ps)"
  then obtain ts xs ys where "ps = xs @ (c, ts) # ys" by (metis imageE prod.collapse split_list)
  with ring_split[of xs c ts ys] \<open>distinct (map fst ps)\<close> show ?thesis by auto
qed

lemma select_live_some:
  assumes "(c, ts) \<in> set ps" and "t \<in> set ts" and "ok t"
  shows "\<exists>r. select_live ok ps = Some r"
  using assms
proof (induction ps)
  case (Cons x ps)
  obtain q us where x: "x = (q, us)" by (cases x)
  show ?case
  proof (cases "find ok us")
    case None
    then have "t \<notin> set us \<or> \<not> ok t" by (auto simp: find_None_iff)
    with Cons None show ?thesis by (auto simp: x)
  qed (simp add: x)
qed simp

text \<open>
  \<open>schedule\<close> always returns, and what it does to the structures is \<open>view_schedule\<close>: a live thread is
  always found, since the thread that was interrupted has just been set ready.
\<close>

lemma schedule_view:
  assumes inv: "sched_inv sf ps s"
  obtains s' where "schedule sf s = Some s'" and "view_schedule ps (view_of sf ps s) = Some (view_of sf ps s')"
    and "sched_inv sf ps s'" and "sched_processes_list s' = sched_processes_list s"
proof -
  let ?t0 = "sched_current_thread s" and ?c = "sched_current_process s" and ?T = "threads_of ps"
  have lay: "layout_apart sf ps" and pl: "proc_list (mem s) (sched_processes_list s) ps"
    using inv by (simp_all add: sched_inv_def)
  obtain ts where ts: "(?c, ts) \<in> set ps" "?t0 \<in> set ts" using inv by (auto simp: sched_inv_def)
  then have c: "?c \<in> fst ` set ps" and t0: "?t0 \<in> ?T" by (force simp: threads_of_def)+
  have d: "distinct (map fst ps)" using lay by (simp add: layout_apart_def)
  define m1 where "m1 = snd (memcpy (t_context ?t0) sf sizeof_stackframe (mem s))"
  define m2 where "m2 = set_t_status ?t0 READY m1"
  note s1 = save_context[OF lay t0, where m = "mem s", folded m1_def]
  note s2 = change_status[OF lay t0, where v = READY and m = m1, folded m2_def]
  let ?live = "\<lambda>t. t_status m2 t \<noteq> DEAD"
  have "?live ?t0" by (simp add: s2(2)[OF t0])
  then obtain p t where pt: "select_live ?live (ring ps ?c) = Some (p, t)"
    using select_live_some[of ?c ts "ring ps ?c" ?t0 ?live] ts ring_set[OF c d] by auto
  from select_live_member[OF pt] obtain xs us ys where
    split: "ring ps ?c = xs @ (p, us) # ys" "find ?live us = Some t" by metis
  have us: "(p, us) \<in> set ps" "t \<in> set us"
    using split ring_set[OF c d] by (auto simp: find_Some_iff)
  then have t: "t \<in> ?T" by (force simp: threads_of_def)
  define m3 where "m3 = set_t_status t RUNNING m2"
  define m4 where "m4 = snd (memcpy sf (t_context t) sizeof_stackframe m3)"
  note s3 = change_status[OF lay t, where v = RUNNING and m = m2, folded m3_def]
  note s4 = load_context[OF lay t, where m = m3, folded m4_def]
  define s' where "s' = s\<lparr>sched_current_process := p, sched_current_thread := t, mem := m4\<rparr>"
  have "proc_list m2 (sched_processes_list s) ps" using pl s1(1) s2(1) by simp
  from schedule_loop_ring[OF this d c pt]
  have run: "schedule sf s = Some s'"
    by (simp add: schedule_def m1_def[symmetric] m2_def[symmetric] m3_def[symmetric] m4_def[symmetric]
        s'_def Let_def)
  have "proc_list m4 (sched_processes_list s) ps" using pl s1(1) s2(1) s3(1) s4(1) by simp
  then have inv': "sched_inv sf ps s'" using lay us by (auto simp: sched_inv_def s'_def)
  have st: "t_status m4 x = (if x = t then RUNNING else if x = ?t0 then READY else t_status (mem s) x)"
    and fr: "t_frame m4 x = (if x = ?t0 then bytes_at (mem s) sf 176 else t_frame (mem s) x)"
    if "x \<in> ?T" for x
    using that s1(2,3) s2(2,3) s3(2,3) s4(2,3) by auto
  have f: "bytes_at m4 sf 176 = (if t = ?t0 then bytes_at (mem s) sf 176 else t_frame (mem s) t)"
    using s4(4) s3(3)[OF t] s2(3)[OF t] s1(3)[OF t] by simp
  let ?v = "view_of sf ps s"
  let ?st = "(v_status ?v)(v_thread ?v := READY)"
  have eq: "?st x = t_status m2 x" if "x \<in> ?T" for x
    using that s1(2)[OF that] s2(2)[OF that] by (simp add: view_of_def)
  have "threads_of (ring ps ?c) = ?T" using ring_set[OF c d] by (simp add: threads_of_def)
  then have "select_live (\<lambda>t. ?st t \<noteq> DEAD) (ring ps ?c) = Some (p, t)"
    unfolding pt[symmetric] using eq by (intro select_live_cong) simp
  then have "view_schedule ps ?v = Some (view_of sf ps s')"
    using st fr f t t0
    by (simp add: view_schedule_def view_of_def s'_def Let_def fun_eq_iff)
  from that[OF run this inv'] show thesis by (simp add: s'_def)
qed


section \<open>Running and being interrupted\<close>

text \<open>
  Between two interrupts the kernel and the running thread may change everything but the scheduler's structures
  and the three variables that lead to them: all other memory, the frames of earlier interrupts included, and
  the rest of the state.
\<close>

definition sched_env :: "(ptr \<times> ptr list) list \<Rightarrow> 'a sched_scheme \<Rightarrow> 'a sched_scheme \<Rightarrow> bool" where
  "sched_env ps s u \<longleftrightarrow> sched_processes_list u = sched_processes_list s
     \<and> sched_current_process u = sched_current_process s \<and> sched_current_thread u = sched_current_thread s
     \<and> (\<forall>t \<in> threads_of ps. \<forall>x. in_range t 336 x \<longrightarrow> mem u x = mem s x)
     \<and> (\<forall>p \<in> fst ` set ps. \<forall>x. in_range p 152 x \<longrightarrow> mem u x = mem s x)"

text \<open>A turn: the running thread runs, and an interrupt with a frame of its own calls \<open>schedule\<close>.\<close>

definition turn :: "(ptr \<times> ptr list) list \<Rightarrow> 'a sched_scheme \<Rightarrow> 'a sched_scheme \<Rightarrow> bool" where
  "turn ps s s' \<longleftrightarrow> (\<exists>sf u. sched_env ps s u \<and> frame_apart ps sf \<and> schedule sf u = Some s')"

lemma env_fields:
  assumes "sched_env ps s u"
  shows "p \<in> fst ` set ps \<Longrightarrow> p_next (mem u) p = p_next (mem s) p \<and> p_threads (mem u) p = p_threads (mem s) p"
    and "x \<in> threads_of ps \<Longrightarrow> t_status (mem u) x = t_status (mem s) x
      \<and> t_next (mem u) x = t_next (mem s) x \<and> t_frame (mem u) x = t_frame (mem s) x"
    and "sched_current_process u = sched_current_process s" "sched_current_thread u = sched_current_thread s"
    and "sched_processes_list u = sched_processes_list s"
proof -
  have T: "\<And>t x. t \<in> threads_of ps \<Longrightarrow> in_range t 336 x \<Longrightarrow> mem u x = mem s x"
    and P: "\<And>p x. p \<in> fst ` set ps \<Longrightarrow> in_range p 152 x \<Longrightarrow> mem u x = mem s x"
    using assms unfolding sched_env_def by blast+
  show "p_next (mem u) p = p_next (mem s) p \<and> p_threads (mem u) p = p_threads (mem s) p" if "p \<in> fst ` set ps"
    unfolding p_next_def p_threads_def using that
    by (auto intro!: load64_cong P dest: in_range_shift[where a = p and n = 152])
  show "t_status (mem u) x = t_status (mem s) x \<and> t_next (mem u) x = t_next (mem s) x
      \<and> t_frame (mem u) x = t_frame (mem s) x" if x: "x \<in> threads_of ps"
  proof -
    have "mem u (x + 8 + of_nat i) = mem s (x + 8 + of_nat i)" if "i < 176" for i
    proof -
      have "unat (8 + of_nat i :: u64) = 8 + i"
        using that by (subst unat_plus_small) (simp_all add: unat_of_nat_small)
      then have "in_range x 336 (x + 8 + of_nat i)" using that by (simp add: in_range_def add.assoc)
      then show ?thesis using T[OF x] by simp
    qed
    then have "t_frame (mem u) x = t_frame (mem s) x" by (simp add: t_frame_def t_context_def bytes_at_def)
    then show ?thesis
      unfolding t_status_def t_next_def using x
      by (auto intro!: load64_cong load32_cong T dest: in_range_shift[where a = x and n = 336])
  qed
qed (use assms in \<open>auto simp: sched_env_def\<close>)

lemma env_wf:
  assumes "sched_wf ps s" and "sched_env ps s u"
  shows "sched_wf ps u"
proof -
  note f = env_fields[OF assms(2)]
  have "proc_list (mem u) p ps = proc_list (mem s) p ps" for p
    by (rule proc_list_cong) (use f(1,2) in simp_all)
  with assms(1) show ?thesis by (simp add: sched_wf_def f(3-5))
qed

lemma view_fields:
  assumes "view_schedule ps (view_of sf ps s) = Some (view_of sf ps s')" and "t \<in> threads_of ps"
  shows "t_frame (mem s') t = (if t = sched_current_thread s then bytes_at (mem s) sf 176 else t_frame (mem s) t)"
    and "t_status (mem s') t = (if t = sched_current_thread s' then RUNNING
      else if t = sched_current_thread s then READY else t_status (mem s) t)"
    and "select_live (\<lambda>t. t = sched_current_thread s \<or> v_status (view_of sf ps s) t \<noteq> DEAD)
      (ring ps (sched_current_process s)) = Some (sched_current_process s', sched_current_thread s')"
    and "bytes_at (mem s') sf 176 = v_context (view_of sf ps s') (sched_current_thread s')"
proof -
  have st: "(\<lambda>x. ((v_status (view_of sf ps s))(sched_current_thread s := READY)) x \<noteq> DEAD)
      = (\<lambda>t. t = sched_current_thread s \<or> v_status (view_of sf ps s) t \<noteq> DEAD)" by auto
  from assms(1) obtain p u where
    pu: "select_live (\<lambda>x. ((v_status (view_of sf ps s))(sched_current_thread s := READY)) x \<noteq> DEAD)
        (ring ps (sched_current_process s)) = Some (p, u)"
    and v: "view_of sf ps s' = \<lparr>v_proc = p, v_thread = u,
        v_status = ((v_status (view_of sf ps s))(sched_current_thread s := READY))(u := RUNNING),
        v_context = (v_context (view_of sf ps s))(sched_current_thread s := v_frame (view_of sf ps s)),
        v_frame = ((v_context (view_of sf ps s))(sched_current_thread s := v_frame (view_of sf ps s))) u\<rparr>"
    by (auto simp: view_schedule_def Let_def view_of_def split: option.splits)
  from v have pv: "sched_current_process s' = p" "sched_current_thread s' = u"
    by (simp_all add: view_of_def)
  show "select_live (\<lambda>t. t = sched_current_thread s \<or> v_status (view_of sf ps s) t \<noteq> DEAD)
      (ring ps (sched_current_process s)) = Some (sched_current_process s', sched_current_thread s')"
    using pu unfolding st pv .
  have "v_frame (view_of sf ps s') = v_context (view_of sf ps s') (v_thread (view_of sf ps s'))"
    unfolding v by simp
  then show "bytes_at (mem s') sf 176 = v_context (view_of sf ps s') (sched_current_thread s')"
    by (simp add: view_of_def)
  have "v_context (view_of sf ps s') t = (if t = sched_current_thread s then bytes_at (mem s) sf 176 else t_frame (mem s) t)"
    unfolding v using assms(2) by (simp add: view_of_def)
  then show "t_frame (mem s') t = (if t = sched_current_thread s then bytes_at (mem s) sf 176 else t_frame (mem s) t)"
    using assms(2) by (simp add: view_of_def)
  have "v_status (view_of sf ps s') t = (if t = u then RUNNING
      else if t = sched_current_thread s then READY else t_status (mem s) t)"
    unfolding v using assms(2) by (simp add: view_of_def)
  then show "t_status (mem s') t = (if t = sched_current_thread s' then RUNNING
      else if t = sched_current_thread s then READY else t_status (mem s) t)"
    using assms(2) pv by (simp add: view_of_def)
qed

lemma inv_threads: "sched_inv sf ps s \<Longrightarrow> sched_current_thread s \<in> threads_of ps"
  by (force simp: sched_inv_def threads_of_def)

lemma inv_process: "sched_inv sf ps s \<Longrightarrow> sched_current_process s \<in> fst ` set ps"
  by (force simp: sched_inv_def)

lemma schedule_effect:
  assumes "sched_inv sf ps s" and "schedule sf s = Some s'"
  shows "view_schedule ps (view_of sf ps s) = Some (view_of sf ps s')" and "sched_inv sf ps s'"
  using schedule_view[OF assms(1)] assms(2) by (metis option.inject)+

text \<open>
  The interrupted thread is made \<open>READY\<close> whatever its status was: a thread that was marked \<open>DEAD\<close> while
  it ran is alive again after the switch.
\<close>

lemma schedule_revives_interrupted:
  assumes "sched_inv sf ps s" and "schedule sf s = Some s'"
  shows "t_status (mem s') (sched_current_thread s)
    = (if sched_current_thread s' = sched_current_thread s then RUNNING else READY)"
  using view_fields(2)[OF schedule_effect(1)[OF assms] inv_threads[OF assms(1)]] by auto

interpretation sd: dispatcher "sched_wf ps" "frame_apart ps" schedule "sched_env ps" sched_current_thread
  "\<lambda>s. t_frame (mem s)" "\<lambda>s sf. bytes_at (mem s) sf 176" "threads_of ps"
proof unfold_locales
  fix s s' u :: "'a sched_scheme" and t sf
  assume wf: "sched_wf ps s"
  then have inv: "sched_inv sf ps s" if "frame_apart ps sf" for sf using that by (simp add: sched_inv_split)
  show "\<exists>s'. schedule sf s = Some s'" if "frame_apart ps sf" using schedule_view[OF inv[OF that]] by blast
  show "sched_wf ps s'" if "frame_apart ps sf" "schedule sf s = Some s'"
    using schedule_effect(2)[OF inv that(2)] that(1) by (simp add: sched_inv_split)
  show "t_frame (mem s') t = (if t = sched_current_thread s then bytes_at (mem s) sf 176 else t_frame (mem s) t)"
    if "frame_apart ps sf" "schedule sf s = Some s'" "t \<in> threads_of ps"
    using view_fields(1)[OF schedule_effect(1)[OF inv[OF that(1)] that(2)] that(3)] .
  show "bytes_at (mem s') sf 176 = t_frame (mem s') (sched_current_thread s')"
    if "frame_apart ps sf" "schedule sf s = Some s'"
  proof -
    note e = schedule_effect[OF inv[OF that(1)] that(2)]
    show ?thesis
      using view_fields(4)[OF e(1) inv_threads[OF e(2)]] inv_threads[OF e(2)] by (simp add: view_of_def)
  qed
  show "sched_current_thread s \<in> threads_of ps" using wf by (force simp: sched_wf_def threads_of_def)
  show "sched_wf ps u" if "sched_env ps s u" using env_wf[OF wf that] .
  show "sched_current_thread u = sched_current_thread s" if "sched_env ps s u" using env_fields(4)[OF that] .
  show "t_frame (mem u) t = t_frame (mem s) t" if "sched_env ps s u" "t \<in> threads_of ps"
    using env_fields(2)[OF that] by simp
qed


section \<open>Properties of the scheduler\<close>

text \<open>
  C4. \<open>schedule\<close> always returns, and it refines the round robin \<open>view_schedule\<close>: the interrupted
  thread becomes ready and keeps the interrupt frame, the processes after the current one are
  searched in list order, wrapping round to the current one, for the first that has a live thread,
  and its first live thread becomes running with its saved frame in the interrupt frame; the
  saved frames and states of all other threads stay, and the structures stay well-formed.
\<close>

theorem schedule_refines_round_robin:
  assumes "sched_inv sf ps s"
  shows "\<exists>s'. schedule sf s = Some s' \<and> sched_inv sf ps s'
    \<and> view_schedule ps (view_of sf ps s) = Some (view_of sf ps s')"
  using schedule_view[OF assms] by blast

text \<open>
  C15. A thread that is switched out resumes exactly where it was interrupted: whatever the other threads do in the
  meantime to anything but the scheduler's own structures, however many switches pass, and wherever on the
  stacks the frames of the interrupts lie, the frame that \<open>schedule\<close> leaves at the address of the interrupt that
  brings the thread back is the frame it was interrupted with.
\<close>

theorem thread_resumes_where_interrupted:
  assumes "sched_wf ps u" and "sched_current_thread u = t" and "frame_apart ps sf" and "schedule sf u = Some s"
    and "(away (sched_env ps) (frame_apart ps) schedule sched_current_thread t)\<^sup>*\<^sup>* (sf, s) (sf', s')"
    and "sched_current_thread s' = t"
  shows "bytes_at (mem s') sf' 176 = bytes_at (mem u) sf 176"
  using assms by (rule sd.resumes_where_interrupted)

lemma ring_rotate:
  assumes "distinct (map fst ps)" and "c \<in> fst ` set ps" and "ring ps c = us @ (p, ts) # vs"
  shows "ring ps p = vs @ us @ [(p, ts)]"
proof -
  obtain tc xs ys where ps: "ps = xs @ (c, tc) # ys"
    using assms(2) by (metis imageE prod.collapse split_list)
  have d: "distinct (map fst (xs @ (c, tc) # ys))" using assms(1) by (simp add: ps)
  from ring_split[OF d] assms(3) have eq: "ys @ xs @ [(c, tc)] = us @ (p, ts) # vs" by (simp add: ps)
  then consider (first) vs' where "ys = us @ (p, ts) # vs'" "vs = vs' @ xs @ [(c, tc)]"
    | (second) us' where "us = ys @ us'" "xs @ [(c, tc)] = us' @ (p, ts) # vs"
  proof -
    from iffD1[OF append_eq_append_conv2 eq] obtain zs where
      "ys = us @ zs \<and> zs @ xs @ [(c, tc)] = (p, ts) # vs
        \<or> ys @ zs = us \<and> xs @ [(c, tc)] = zs @ (p, ts) # vs"
      by (elim exE)
    then show thesis
    proof (elim disjE conjE)
      assume z: "ys = us @ zs" "zs @ xs @ [(c, tc)] = (p, ts) # vs"
      show thesis
      proof (cases zs)
        case Nil
        show thesis by (rule that(2)[of "[]"]) (use z Nil in simp_all)
      next
        case (Cons y zs')
        show thesis by (rule that(1)[of zs']) (use z Cons in simp_all)
      qed
    next
      assume "ys @ zs = us" "xs @ [(c, tc)] = zs @ (p, ts) # vs"
      then show thesis by (intro that(2)[of zs]) simp_all
    qed
  qed
  then show ?thesis
  proof cases
    case first
    have "ps = (xs @ (c, tc) # us) @ (p, ts) # vs'" by (simp add: ps first)
    with ring_split[of "xs @ (c, tc) # us" p ts vs'] assms(1) show ?thesis by (simp add: first(2))
  next
    case second
    show ?thesis
    proof (cases vs rule: rev_cases)
      case Nil
      then have "(c, tc) = (p, ts)" "xs = us'" using second(2) by simp_all
      with ring_split[OF d] show ?thesis by (simp add: ps second(1) Nil)
    next
      case (snoc vs' z)
      then have z: "z = (c, tc)" "xs = us' @ (p, ts) # vs'" using second(2) by simp_all
      have "ps = us' @ (p, ts) # (vs' @ (c, tc) # ys)" by (simp add: ps z)
      with ring_split[of us' p ts "vs' @ (c, tc) # ys"] assms(1) show ?thesis
        by (simp add: second(1) snoc z(1))
    qed
  qed
qed

definition wait :: "(ptr \<times> ptr list) list \<Rightarrow> ptr \<Rightarrow> ptr \<Rightarrow> nat" where
  "wait ps c q = length (takeWhile (\<lambda>x. fst x \<noteq> q) (ring ps c))"

lemma ring_distinct:
  assumes "distinct (map fst ps)" and "c \<in> fst ` set ps"
  shows "distinct (map fst (ring ps c))" and "length (ring ps c) = length ps"
proof -
  obtain tc xs ys where ps: "ps = xs @ (c, tc) # ys"
    using assms(2) by (metis imageE prod.collapse split_list)
  with ring_split[of xs c tc ys] assms(1) show "distinct (map fst (ring ps c))"
    "length (ring ps c) = length ps" by (auto simp: ps)
qed

lemma wait_shrinks:
  assumes "distinct (map fst ps)" and "c \<in> fst ` set ps"
    and "select_live ok (ring ps c) = Some (p, t)" and "(q, ts) \<in> set ps" and "u \<in> set ts" and "ok u" and "p \<noteq> q"
  shows "wait ps p q < wait ps c q"
proof -
  from select_live_member[OF assms(3)] obtain us tp vs where
    r: "ring ps c = us @ (p, tp) # vs" "\<forall>x \<in> set us. find ok (snd x) = None" by metis
  have q: "(q, ts) \<in> set us \<union> set vs"
    using ring_set[OF assms(2,1)] assms(4,7) by (auto simp: r(1))
  have "(q, ts) \<notin> set us" using r(2) assms(5,6) by (auto simp: find_None_iff)
  with q have qv: "(q, ts) \<in> set vs" by simp
  have nus: "\<forall>x \<in> set us. fst x \<noteq> q"
    using ring_distinct(1)[OF assms(1,2)] qv by (force simp: r(1))
  have "takeWhile (\<lambda>x. fst x \<noteq> q) (vs @ us @ [(p, tp)]) = takeWhile (\<lambda>x. fst x \<noteq> q) vs"
    using qv by (intro takeWhile_append1[where x = "(q, ts)"]) simp_all
  moreover have "takeWhile (\<lambda>x. fst x \<noteq> q) (us @ (p, tp) # vs) = us @ (p, tp) # takeWhile (\<lambda>x. fst x \<noteq> q) vs"
    using nus assms(7) by (simp add: takeWhile_append2)
  ultimately show ?thesis by (simp add: wait_def r(1) ring_rotate[OF assms(1,2) r(1)])
qed

text \<open>The threads \<open>schedule\<close> may choose: the interrupted one has just been set ready.\<close>

definition alive :: "(ptr \<times> ptr list) list \<Rightarrow> 'a sched_scheme \<Rightarrow> ptr \<Rightarrow> bool" where
  "alive ps s t \<longleftrightarrow> t = sched_current_thread s \<or> t \<notin> threads_of ps \<or> t_status (mem s) t \<noteq> DEAD"

lemma alive_view: "(\<lambda>t. t = sched_current_thread s \<or> v_status (view_of sf ps s) t \<noteq> DEAD) = alive ps s"
  by (auto simp: alive_def view_of_def READY_def DEAD_def)

text \<open>One turn, seen by a live thread of process \<open>q\<close>.\<close>

lemma turn_effect:
  assumes "sched_wf ps s" and "turn ps s s'"
  shows "sched_wf ps s'"
    and "t \<in> threads_of ps \<Longrightarrow> t_status (mem s) t \<noteq> DEAD \<Longrightarrow> t_status (mem s') t \<noteq> DEAD"
    and "select_live (alive ps s) (ring ps (sched_current_process s))
      = Some (sched_current_process s', sched_current_thread s')"
proof -
  obtain sf u where u: "sched_env ps s u" "frame_apart ps sf" "schedule sf u = Some s'"
    using assms(2) by (auto simp: turn_def)
  note env = env_fields[OF u(1)]
  have inv: "sched_inv sf ps u" using env_wf[OF assms(1) u(1)] u(2) by (simp add: sched_inv_split)
  note e = schedule_effect[OF inv u(3)]
  show "sched_wf ps s'" using e(2) by (simp add: sched_inv_split)
  show "t_status (mem s') t \<noteq> DEAD" if "t \<in> threads_of ps" "t_status (mem s) t \<noteq> DEAD"
    using view_fields(2)[OF e(1) that(1)] env(2)[OF that(1)] that(2) by simp
  have "alive ps u = alive ps s" using env(2,4) by (auto simp: alive_def)
  with view_fields(3)[OF e(1) inv_threads[OF e(2)]]
  show "select_live (alive ps s) (ring ps (sched_current_process s))
      = Some (sched_current_process s', sched_current_thread s')"
    by (simp add: env(3) alive_view)
qed

lemma wf_process: "sched_wf ps s \<Longrightarrow> distinct (map fst ps)" "sched_wf ps s \<Longrightarrow> sched_current_process s \<in> fst ` set ps"
  by (force simp: sched_wf_def)+

lemma turn_wait:
  assumes "sched_wf ps s" and "turn ps s s'" and "(q, ts) \<in> set ps" and "t \<in> set ts"
    and "t_status (mem s) t \<noteq> DEAD" and "sched_current_process s' \<noteq> q"
  shows "wait ps (sched_current_process s') q < wait ps (sched_current_process s) q"
  using wait_shrinks[OF wf_process[OF assms(1)] turn_effect(3)[OF assms(1,2)] assms(3,4) _ assms(6)] assms(5)
  by (simp add: alive_def)

lemma takeWhile_shorter: "x \<in> set xs \<Longrightarrow> \<not> P x \<Longrightarrow> length (takeWhile P xs) < length xs"
  by (induction xs) auto

lemma wait_bound:
  assumes "sched_wf ps s" and "q \<in> fst ` set ps"
  shows "wait ps (sched_current_process s) q < length ps"
proof -
  note d = wf_process(1)[OF assms(1)]
  have "q \<in> fst ` set (ring ps (sched_current_process s))"
    using ring_set[OF wf_process(2)[OF assms(1)] d] assms(2) by simp
  then obtain x where "x \<in> set (ring ps (sched_current_process s))" "fst x = q" by blast
  then have "wait ps (sched_current_process s) q < length (ring ps (sched_current_process s))"
    unfolding wait_def by (intro takeWhile_shorter[of x]) simp_all
  then show ?thesis using ring_distinct(2)[OF d wf_process(2)[OF assms(1)]] by simp
qed

lemma turns_reach:
  assumes "sched_wf ps (run 0)" and "\<forall>i. turn ps (run i) (run (Suc i))"
    and "(q, ts) \<in> set ps" and "t \<in> set ts" and "t_status (mem (run 0)) t \<noteq> DEAD"
    and "wait ps (sched_current_process (run 0)) q < n"
  shows "\<exists>k. 0 < k \<and> k \<le> n \<and> sched_current_process (run k) = q"
  using assms(1,2,5,6)
proof (induction n arbitrary: run)
  case 0
  then show ?case by simp
next
  case (Suc n)
  have t: "t \<in> threads_of ps" using assms(3,4) by (force simp: threads_of_def)
  note first = Suc.prems(2)[rule_format, of 0]
  show ?case
  proof (cases "sched_current_process (run 1) = q")
    case True
    then show ?thesis by (intro exI[of _ 1]) simp
  next
    case False
    have "wait ps (sched_current_process (run 1)) q < n"
      using turn_wait[OF Suc.prems(1) first assms(3,4) Suc.prems(3)] False Suc.prems(4) by simp
    moreover have "\<forall>i. turn ps (run (Suc i)) (run (Suc (Suc i)))" using Suc.prems(2) by blast
    ultimately obtain k where "0 < k" "k \<le> n" "sched_current_process (run (Suc k)) = q"
      using Suc.IH[of "\<lambda>i. run (Suc i)"] turn_effect(1)[OF Suc.prems(1) first]
        turn_effect(2)[OF Suc.prems(1) first t Suc.prems(3)] by auto
    then show ?thesis by (intro exI[of _ "Suc k"]) simp
  qed
qed

text \<open>
  C19. No process starves: in any run of turns, whatever code runs in between, as long as it leaves the scheduler's
  structures alone, and wherever each interrupt puts its frame, a process with a live thread is chosen within
  as many switches as there are processes.
\<close>

theorem every_process_gets_its_turn:
  assumes "sched_wf ps (run 0)" and "\<forall>i. turn ps (run i) (run (Suc i))"
    and "(q, ts) \<in> set ps" and "t \<in> set ts" and "t_status (mem (run 0)) t \<noteq> DEAD"
  shows "\<exists>k. 0 < k \<and> k \<le> length ps \<and> sched_current_process (run k) = q"
proof (rule turns_reach[OF assms])
  show "wait ps (sched_current_process (run 0)) q < length ps"
    using assms(3) by (intro wait_bound[OF assms(1)]) force
qed

lemma unique_list:
  assumes "distinct (concat (map snd ps))" and "(a, ts) \<in> set ps" and "(b, us) \<in> set ps"
    and "u \<in> set ts" and "u \<in> set us"
  shows "ts = us"
  using assms by (induction ps) (auto, force+)

lemma distinct_member: "distinct (concat (map snd ps)) \<Longrightarrow> (a, ts) \<in> set ps \<Longrightarrow> distinct ts"
  by (induction ps) auto

lemma find_before: "ok t \<Longrightarrow> find ok (xs @ t # ys) = Some r \<Longrightarrow> r \<in> set xs \<or> r = t"
  by (induction xs) (auto split: if_splits)

text \<open>
  C39. But a thread can starve: within a process \<open>schedule\<close> always takes the first live thread of the
  list, so a thread that stands behind a live one, and is not running now, never runs, in no run of turns,
  wherever the interrupts put their frames.
\<close>

theorem later_thread_never_runs:
  assumes "sched_wf ps (run 0)" and "\<forall>i. turn ps (run i) (run (Suc i))"
    and "(p, xs @ t # ys) \<in> set ps" and "t_status (mem (run 0)) t \<noteq> DEAD"
    and "u \<in> set ys" and "sched_current_thread (run 0) \<noteq> u"
  shows "sched_current_thread (run i) \<noteq> u"
proof -
  have t: "t \<in> threads_of ps" using assms(3) by (force simp: threads_of_def)
  have "sched_wf ps (run i) \<and> t_status (mem (run i)) t \<noteq> DEAD \<and> sched_current_thread (run i) \<noteq> u"
  proof (induction i)
    case 0
    then show ?case using assms by simp
  next
    case (Suc i)
    let ?s = "run i" and ?s' = "run (Suc i)"
    have inv: "sched_wf ps ?s" using Suc by simp
    note e = turn_effect[OF inv assms(2)[rule_format, of i]]
    have d: "distinct (map fst ps)" "distinct (concat (map snd ps))"
      using inv by (simp_all add: sched_wf_def)
    let ?ok = "alive ps ?s"
    have okt: "?ok t" using Suc by (simp add: alive_def)
    obtain us ts vs where
      r: "ring ps (sched_current_process ?s) = us @ (sched_current_process ?s', ts) # vs"
        "find ?ok ts = Some (sched_current_thread ?s')"
      by (rule select_live_member[OF e(3)])
    have "(sched_current_process ?s', ts) \<in> set (ring ps (sched_current_process ?s))"
      unfolding r(1) by simp
    then have ts: "(sched_current_process ?s', ts) \<in> set ps"
      unfolding ring_set[OF wf_process(2)[OF inv] d(1)] .
    have "sched_current_thread ?s' \<noteq> u"
    proof
      assume u: "sched_current_thread ?s' = u"
      then have "u \<in> set ts" using r(2) unfolding find_Some_iff by (metis nth_mem)
      then have ts: "ts = xs @ t # ys"
        using unique_list[OF d(2) ts assms(3)] assms(5) by simp
      have "u \<in> set xs \<or> u = t" 
        using find_before[where ok = ?ok, OF okt] r(2) unfolding ts u by blast
      then show False using distinct_member[OF d(2) assms(3)] assms(5) by auto
    qed
    with e(1) e(2)[OF t] Suc show ?case by simp
  qed
  then show ?thesis by simp
qed


section \<open>A small system\<close>

text \<open>
  Two processes: the first with one thread, which is running, the second with two ready threads;
  the interrupt frame is at 0x9000.
\<close>

definition sample_procs :: "(ptr \<times> ptr list) list" where
  "sample_procs = [(0x1000, [0x2000]), (0x3000, [0x4000, 0x5000])]"

definition sample_mem :: mem where
  "sample_mem =
     (set_p_threads 0x1000 0x2000 \<circ> set_p_next 0x1000 0x3000 \<circ> set_p_threads 0x3000 0x4000
      \<circ> set_p_next 0x3000 NULL \<circ> set_t_next 0x2000 NULL \<circ> set_t_next 0x4000 0x5000
      \<circ> set_t_next 0x5000 NULL \<circ> set_t_status 0x2000 RUNNING \<circ> set_t_status 0x4000 READY
      \<circ> set_t_status 0x5000 READY) (\<lambda>_. 0)"

definition sample_sched :: sched where
  "sample_sched = vmm.extend (boot_vmm 8)
     \<lparr>sched_processes_list = 0x1000, sched_current_process = 0x1000, sched_current_thread = 0x2000,
      next_free_pid = 2, next_thread_id = 3, idle_process = 0x1000\<rparr> \<lparr>mem := sample_mem\<rparr>"

lemmas sample_fields = p_next_def p_threads_def t_next_def t_status_def set_p_next_def
  set_p_threads_def set_t_next_def set_t_status_def

lemma sample_reads:
  "p_threads sample_mem 0x1000 = 0x2000" "p_next sample_mem 0x1000 = 0x3000"
  "p_threads sample_mem 0x3000 = 0x4000" "p_next sample_mem 0x3000 = NULL"
  "t_next sample_mem 0x2000 = NULL" "t_next sample_mem 0x4000 = 0x5000" "t_next sample_mem 0x5000 = NULL"
  by (simp_all add: sample_mem_def sample_fields mem_simps)

lemma sample_ok: "sched_inv 0x9000 sample_procs sample_sched"
proof -
  have "layout_apart 0x9000 sample_procs"
    by (simp add: layout_apart_def sample_procs_def threads_of_def mem_simps)
  moreover have "proc_list sample_mem 0x1000 sample_procs"
    by (simp add: sample_procs_def sample_reads)
  ultimately show ?thesis
    by (simp add: sched_inv_def sample_sched_def sample_procs_def vmm.defs)
qed

lemma sample_live: "t_status (mem sample_sched) 0x4000 \<noteq> DEAD" "t_status (mem sample_sched) 0x2000 \<noteq> DEAD"
  by (simp_all add: sample_sched_def vmm.defs sample_mem_def sample_fields mem_simps READY_def RUNNING_def DEAD_def)

text \<open>Interrupts in a row, their frames in turn at two addresses.\<close>

definition sample_frame :: "nat \<Rightarrow> ptr" where "sample_frame i = (if even i then 0x9000 else 0xA000)"

primrec sample_run :: "nat \<Rightarrow> sched" where
  "sample_run 0 = sample_sched"
| "sample_run (Suc i) = the (schedule (sample_frame i) (sample_run i))"

declare sample_run.simps(2) [simp del]

lemma sample_apart: "frame_apart sample_procs (sample_frame i)"
  by (simp add: frame_apart_def sample_frame_def sample_procs_def threads_of_def mem_simps)

lemma env_refl: "sched_env ps s s"
  by (simp add: sched_env_def)

lemma sample_run_ok:
  "sched_wf sample_procs (sample_run i)" "schedule (sample_frame i) (sample_run i) = Some (sample_run (Suc i))"
  "turn sample_procs (sample_run i) (sample_run (Suc i))"
proof -
  have step: "schedule (sample_frame i) s = Some (the (schedule (sample_frame i) s))"
    "sched_wf sample_procs (the (schedule (sample_frame i) s))" if "sched_wf sample_procs s" for s :: sched and i
    using sd.switch_returns[OF that sample_apart[of i]] sd.inv_switch[OF that sample_apart[of i]] by auto
  show ok: "sched_wf sample_procs (sample_run i)" for i
    using sample_ok by (induction i) (simp_all add: step(2) sample_run.simps(2) sched_inv_split)
  show run: "schedule (sample_frame i) (sample_run i) = Some (sample_run (Suc i))" using step(1)[OF ok] by (simp add: sample_run.simps(2))
  show "turn sample_procs (sample_run i) (sample_run (Suc i))"
    unfolding turn_def using env_refl sample_apart run by blast
qed

theorem schedule_refines_round_robin_witness:
  "\<exists>s'. schedule 0x9000 sample_sched = Some s' \<and> sched_inv 0x9000 sample_procs s'"
  using schedule_refines_round_robin[OF sample_ok] by blast

theorem every_process_gets_its_turn_witness:
  "\<exists>k. 0 < k \<and> k \<le> 2 \<and> sched_current_process (sample_run k) = 0x3000"
proof -
  have "(0x3000, [0x4000, 0x5000]) \<in> set sample_procs" "0x4000 \<in> set [0x4000, 0x5000 :: ptr]"
    "length sample_procs = 2" by (simp_all add: sample_procs_def)
  moreover have "t_status (mem (sample_run 0)) 0x4000 \<noteq> DEAD"
    using sample_live by simp
  moreover have "\<forall>i. turn sample_procs (sample_run i) (sample_run (Suc i))" using sample_run_ok(3) by blast
  ultimately show ?thesis
    using every_process_gets_its_turn[of sample_procs sample_run, OF sample_run_ok(1)] by metis
qed

theorem later_thread_never_runs_witness: "sched_current_thread (sample_run 1000) \<noteq> 0x5000"
proof -
  have "(0x3000, [] @ 0x4000 # [0x5000]) \<in> set sample_procs" by (simp add: sample_procs_def)
  moreover have "t_status (mem (sample_run 0)) 0x4000 \<noteq> DEAD" "sched_current_thread (sample_run 0) \<noteq> 0x5000"
    using sample_live by (simp_all add: sample_sched_def vmm.defs)
  moreover have "\<forall>i. turn sample_procs (sample_run i) (sample_run (Suc i))" using sample_run_ok(3) by blast
  ultimately show ?thesis
    using later_thread_never_runs[of sample_procs sample_run, OF sample_run_ok(1)] by (metis list.set_intros(1))
qed

text \<open>Two interrupts bring the first thread back.\<close>

lemma sample_two_switches:
  "sched_current_thread (sample_run 1) = 0x4000" "sched_current_thread (sample_run 2) = 0x2000"
proof -
  have T: "0x2000 \<in> threads_of sample_procs" "0x4000 \<in> threads_of sample_procs"
    by (simp_all add: threads_of_def sample_procs_def)
  have start: "sched_current_process (sample_run 0) = 0x1000" "sched_current_thread (sample_run 0) = 0x2000"
    "t_status (mem (sample_run 0)) 0x2000 \<noteq> DEAD" "t_status (mem (sample_run 0)) 0x4000 \<noteq> DEAD"
    using sample_live by (simp_all add: sample_sched_def vmm.defs)
  note e1 = turn_effect[OF sample_run_ok(1,3)[of 0], folded One_nat_def]
  have one: "(0x3000, 0x4000) = (sched_current_process (sample_run 1), sched_current_thread (sample_run 1))"
    using e1(3) start T by (simp add: ring_def sample_procs_def alive_def)
  then show "sched_current_thread (sample_run 1) = 0x4000" by simp
  have live: "t_status (mem (sample_run 1)) 0x2000 \<noteq> DEAD" using e1(2)[OF T(1) start(3)] by simp
  have "(0x1000, 0x2000) = (sched_current_process (sample_run 2), sched_current_thread (sample_run 2))"
    using turn_effect(3)[OF sample_run_ok(1,3)[of 1], unfolded Suc_1] one live T
    by (simp add: ring_def sample_procs_def alive_def)
  then show "sched_current_thread (sample_run 2) = 0x2000" by simp
qed

theorem thread_resumes_where_interrupted_witness:
  "bytes_at (mem (sample_run 2)) 0xA000 176 = bytes_at (mem sample_sched) 0x9000 176"
proof -
  have at: "sample_frame 0 = 0x9000" "sample_frame 1 = 0xA000" by (simp_all add: sample_frame_def)
  have "away (sched_env sample_procs) (frame_apart sample_procs) schedule sched_current_thread 0x2000
      (0x9000, sample_run 1) (0xA000, sample_run 2)"
    using sample_run_ok(2)[of 1, unfolded Suc_1 at] sample_apart[of 1, unfolded at] sample_two_switches(1) env_refl
    by (intro period) simp_all
  then have path: "(away (sched_env sample_procs) (frame_apart sample_procs) schedule sched_current_thread 0x2000)\<^sup>*\<^sup>*
      (0x9000, sample_run 1) (0xA000, sample_run 2)" by (rule r_into_rtranclp)
  have u: "sched_wf sample_procs sample_sched" "sched_current_thread sample_sched = 0x2000"
    using sample_ok by (simp_all add: sched_inv_split sample_sched_def vmm.defs)
  have "schedule 0x9000 sample_sched = Some (sample_run 1)" using sample_run_ok(2)[of 0] by (simp add: at)
  from thread_resumes_where_interrupted[OF u sample_apart[of 0, unfolded at] this path sample_two_switches(2)]
  show ?thesis .
qed

end
