(* ===== verification/CpuTables.thy ===== *)
theory CpuTables
  imports Cpu
begin

text \<open>
  What the tables say to the processor: the descriptors read back by the rules of the hardware, the
  interrupt lines, and the timer.
\<close>

section \<open>Descriptors as the processor reads them\<close>

definition segment_base :: "gdt_entry \<Rightarrow> u32" where
  "segment_base e = ucast (g_base0 e) OR push_bit 16 (ucast (g_base1 e)) OR push_bit 24 (ucast (g_base2 e))"

definition segment_limit :: "gdt_entry \<Rightarrow> u32" where
  "segment_limit e = ucast (g_limit0 e) OR push_bit 16 (ucast (g_limit1_flags e AND 0x0F))"

definition segment_flags :: "gdt_entry \<Rightarrow> u8" where
  "segment_flags e = g_limit1_flags e AND 0xF0"

definition privilege_level :: "gdt_entry \<Rightarrow> u8" where
  "privilege_level e = drop_bit 5 (g_access e) AND 3"

text \<open>A system descriptor takes two entries: the second holds the upper half of the base.\<close>

definition system_base :: "gdt_entry \<Rightarrow> gdt_entry \<Rightarrow> u64" where
  "system_base lo hi = ucast (segment_base lo) OR push_bit 32 (ucast (g_limit0 hi)) OR push_bit 48 (ucast (g_base0 hi))"

definition gate_target :: "idt_entry \<Rightarrow> u64" where
  "gate_target g = ucast (isr_low g) OR push_bit 16 (ucast (isr_mid g)) OR push_bit 32 (ucast (isr_high g))"

lemma small_mask: "(0xFFFF :: u64) = mask 16" "(0xFFFFFFFF :: u64) = mask 32" "(0xFF :: u64) = mask 8"
  "(0xFFFF :: u32) = mask 16" "(0x0F :: u32) = mask 4" "(0xFF :: u32) = mask 8" "(0xFFFF :: u16) = mask 16"
  "(0x0F :: u8) = mask 4"
  by (simp_all add: mask_eq_exp_minus_1)

lemma gate_target_split:
  "ucast (ucast (isr AND 0xFFFF) :: u16) OR push_bit 16 (ucast (ucast (drop_bit 16 isr AND 0xFFFF) :: u16))
     OR push_bit 32 (ucast (ucast (drop_bit 32 isr AND 0xFFFFFFFF) :: u32)) = isr" for isr :: u64
  unfolding small_mask
proof (rule bit_word_eqI)
  fix n assume "n < LENGTH(64)"
  then show "bit (ucast (ucast (isr AND mask 16) :: u16) OR push_bit 16 (ucast (ucast (drop_bit 16 isr AND mask 16) :: u16))
     OR push_bit 32 (ucast (ucast (drop_bit 32 isr AND mask 32) :: u32)) :: u64) n = bit isr n"
    by (cases "16 \<le> n"; cases "32 \<le> n") (auto simp: bit_simps)
qed

lemma idt_set_descriptor_gate:
  assumes "length (idt s) = 256"
  shows "gate_target (idt (idt_set_descriptor v isr flags s) ! unat v) = isr
      \<and> attributes (idt (idt_set_descriptor v isr flags s) ! unat v) = flags
      \<and> kernel_cs (idt (idt_set_descriptor v isr flags s) ! unat v) = 0x08"
    and "j \<noteq> unat v \<Longrightarrow> idt (idt_set_descriptor v isr flags s) ! j = idt s ! j"
proof -
  have "unat v < 256" using unsigned_less[of v] by simp
  with assms show "gate_target (idt (idt_set_descriptor v isr flags s) ! unat v) = isr
      \<and> attributes (idt (idt_set_descriptor v isr flags s) ! unat v) = flags
      \<and> kernel_cs (idt (idt_set_descriptor v isr flags s) ! unat v) = 0x08"
    by (simp_all add: idt_set_descriptor_def gate_target_def gate_target_split)
  show "j \<noteq> unat v \<Longrightarrow> idt (idt_set_descriptor v isr flags s) ! j = idt s ! j"
    by (simp add: idt_set_descriptor_def)
qed

text \<open>A gate that leads to \<open>isr\<close> through the kernel's code segment, as a present interrupt gate of ring 0.\<close>

definition kernel_gate :: "u64 \<Rightarrow> idt_entry \<Rightarrow> bool" where
  "kernel_gate isr g \<longleftrightarrow> gate_target g = isr \<and> kernel_cs g = 0x08 \<and> attributes g = 0x8E"

lemma idt_fill_fields:
  "idt (idt_fill tbl n s) = idt (idt_set_descriptor (of_nat n) (isr_entry (mem s) tbl n) 0x8E s)"
  "trace (idt_fill tbl n s) = trace s" "mem (idt_fill tbl n s) = mem s"
  "idtr_limit (idt_fill tbl n s) = idtr_limit s" "idtr_base (idt_fill tbl n s) = idtr_base s"
  "dev (idt_fill tbl n s) = dev s" "length (idt (idt_set_descriptor v isr flags s)) = length (idt s)"
  by (simp_all add: idt_fill_def Let_def idt_set_descriptor_def)

lemma idt_fill_gates:
  assumes "length (idt s) = 256" and "n \<le> 256"
  shows "let s' = fold (idt_fill tbl) [0..<n] s in length (idt s') = 256
     \<and> (\<forall>v < n. kernel_gate (isr_entry (mem s) tbl v) (idt s' ! v)) \<and> mem s' = mem s
     \<and> trace s' = trace s \<and> idtr_limit s' = idtr_limit s \<and> idtr_base s' = idtr_base s \<and> dev s' = dev s"
  using assms(2) unfolding Let_def
proof (induction n)
  case 0
  show ?case using assms(1) by simp
next
  case (Suc n)
  let ?s = "fold (idt_fill tbl) [0..<n] s" and ?e = "isr_entry (mem s) tbl"
  have ih: "length (idt ?s) = 256" "\<forall>v < n. kernel_gate (?e v) (idt ?s ! v)" "mem ?s = mem s" "trace ?s = trace s"
    "idtr_limit ?s = idtr_limit s" "idtr_base ?s = idtr_base s" "dev ?s = dev s"
    using Suc by simp_all
  have n: "unat (of_nat n :: u8) = n" using Suc.prems by (simp add: unat_of_nat)
  have "kernel_gate (?e v) (idt (idt_set_descriptor (of_nat n) (?e n) 0x8E ?s) ! v)" if "v < Suc n" for v
    using idt_set_descriptor_gate[where s = ?s and v = "of_nat n" and isr = "?e n" and flags = "0x8E", OF ih(1)] ih(2) that n
    by (cases "v = n") (auto simp: kernel_gate_def)
  then show ?case using ih by (simp add: idt_fill_fields)
qed

lemma pic_init_frame:
  "\<exists>es. trace (pic_init s) = trace s @ es" "idt (pic_init s) = idt s" "idtr_limit (pic_init s) = idtr_limit s"
  "idtr_base (pic_init s) = idtr_base s" for s :: "'a cpu_scheme"
  by (simp_all add: pic_init_def inb_def outb_def io_wait_def emit_def Let_def)

text \<open>
  What the two controllers are told, without the waits: the first delivers its lines from vector 32,
  the second from vector 8, which are those of the processor's exceptions; the masks are kept.
\<close>

lemma pic_init_program:
  fixes s :: "'a cpu_scheme"
  defines "a1 \<equiv> fst (inb PIC1_DATA s)" and "a2 \<equiv> fst (inb PIC2_DATA (snd (inb PIC1_DATA s)))"
  shows "\<exists>es. trace (pic_init s) = trace s @ es
    \<and> filter (\<lambda>e. e \<noteq> Outb 0x80 0) es =
      [Inb PIC1_DATA a1, Inb PIC2_DATA a2, Outb PIC1_COMMAND 0x11, Outb PIC2_COMMAND 0x11,
       Outb PIC1_DATA 0x20, Outb PIC2_DATA 8, Outb PIC1_DATA 4, Outb PIC2_DATA 2, Outb PIC1_DATA 1,
       Outb PIC2_DATA 1, Outb PIC1_DATA a1, Outb PIC2_DATA a2]"
  by (simp add: a1_def a2_def pic_init_def inb_def outb_def io_wait_def emit_def Let_def PIC1_DATA_def
      PIC2_DATA_def PIC1_COMMAND_def PIC2_COMMAND_def ICW1_INIT_def ICW1_ICW4_def ICW4_8086_def)

text \<open>The base of a descriptor is passed as 16 bits, so only its lowest field can be other than 0.\<close>

lemma gdt_set_entry_base:
  assumes "i < length (gdt s)"
  shows "segment_base (gdt (gdt_set_entry i limit base access flags s) ! i) = ucast base"
proof -
  have "drop_bit n (ucast base :: u32) = 0" if "16 \<le> n" for n
    using that by (intro bit_word_eqI) (auto simp: bit_simps dest: bit_imp_le_length)
  moreover have "base AND 0xFFFF = base"
    using take_bit_length_eq[of base] by (simp add: take_bit_eq_mask mask_eq_exp_minus_1)
  ultimately show ?thesis using assms by (simp add: gdt_set_entry_def segment_base_def)
qed

text \<open>
  C29. \<open>idt_init\<close> fills all 256 gates, through the kernel's code segment, with interrupts off, and loads the table with
  its whole length before it switches interrupts on.  With the addresses of the 255 stubs in \<open>isr_stub_table\<close>, gate
  \<open>v\<close> below 255, read back by the rules of the processor, leads to stub \<open>v\<close>; gate 255 leads to the address that
  happens to be in the 8 bytes after the table, which the loop reads beyond its end.
\<close>

theorem idt_init_gates:
  assumes "length (idt s) = 256" and "\<forall>v < 255. load64 (mem s) (isr_stub_table + 8 * of_nat v) = stub v"
  shows "(\<forall>v < 255. kernel_gate (stub v) (idt (idt_init isr_stub_table idt_addr s) ! v))
    \<and> kernel_gate (load64 (mem s) (isr_stub_table + 8 * 255)) (idt (idt_init isr_stub_table idt_addr s) ! 255)
    \<and> (\<exists>es msg. trace (idt_init isr_stub_table idt_addr s) = trace s @ es @ [Lidt 4095 idt_addr, Sti, msg])"
proof -
  let ?s1 = "s\<lparr>idtr_base := idt_addr, idtr_limit := of_nat (sizeof_idt_entry * IDT_MAX_DESCRIPTORS - 1)\<rparr>"
  let ?s2 = "fold (idt_fill isr_stub_table) [0..<IDT_MAX_DESCRIPTORS] ?s1"
  have fill: "\<forall>v < 256. kernel_gate (isr_entry (mem s) isr_stub_table v) (idt ?s2 ! v)" "trace ?s2 = trace s"
    "idtr_limit ?s2 = 4095" "idtr_base ?s2 = idt_addr"
    using idt_fill_gates[of ?s1 256 isr_stub_table] assms(1)
    by (simp_all add: Let_def IDT_MAX_DESCRIPTORS_def sizeof_idt_entry_def)
  obtain es where es: "trace (pic_init ?s2) = trace ?s2 @ es" using pic_init_frame(1) by blast
  have "idt (idt_init isr_stub_table idt_addr s) = idt ?s2"
    by (simp add: idt_init_def Let_def emit_def pic_init_frame)
  moreover have "\<exists>es msg. trace (idt_init isr_stub_table idt_addr s) = trace s @ es @ [Lidt 4095 idt_addr, Sti, msg]"
    using es fill by (simp add: idt_init_def Let_def pic_init_frame emit_def)
  moreover have "kernel_gate (stub v) (idt ?s2 ! v)" if "v < 255" for v
    using fill(1)[rule_format, of v] assms(2) that by (simp add: isr_entry_def)
  moreover have "kernel_gate (load64 (mem s) (isr_stub_table + 8 * 255)) (idt ?s2 ! 255)"
    using fill(1)[rule_format, of 255] by (simp add: isr_entry_def)
  ultimately show ?thesis by simp
qed

text \<open>A processor after reset: empty tables, a device that answers 0.\<close>

definition blank_gdt :: gdt_entry where
  "blank_gdt = \<lparr>g_limit0 = 0, g_base0 = 0, g_base1 = 0, g_access = 0, g_limit1_flags = 0, g_base2 = 0\<rparr>"

definition blank_gate :: idt_entry where
  "blank_gate = \<lparr>isr_low = 0, kernel_cs = 0, ist = 0, attributes = 0, isr_mid = 0, isr_high = 0, idt_reserved = 0\<rparr>"

definition blank_cpu :: cpu where
  "blank_cpu =
     \<lparr>mem = (\<lambda>_. 0), trace = [], dev = (\<lambda>_ _. 0), pmm_stack = [], pmm_stack_top = 0, pmm_free_blocks = NULL,
      memmap_ptr = [], pmm_initialized = False, pmm_used_mem = 0, pmm_free_mem = 0, pmm_total_mem = 0,
      hhdm_off = 0, kernel_phys_addr = 0, kernel_virt_addr = 0, vmm_kernel_pagemap = NULL,
      vmm_current_pagemap = NULL, sched_processes_list = NULL, sched_current_process = NULL,
      sched_current_thread = NULL, next_free_pid = 0, next_thread_id = 0, idle_process = NULL,
      gdt = replicate 255 blank_gdt, gdtr_size = 0, gdtr_offset = 0, tss_rsp0 = 0,
      idt = replicate 256 blank_gate, idtr_limit = 0, idtr_base = 0, vectors = replicate 256 False, tick = 0\<rparr>"

text \<open>A table whose entries are all the same, with another address behind it.\<close>

lemma load_const: "load (\<lambda>_. c) a n = load (\<lambda>_. c) 0 n"
proof -
  have "load (\<lambda>_. c) a n = load (\<lambda>_. c) b n" for b by (induction n arbitrary: a b) (simp, metis load.simps(2))
  then show ?thesis .
qed

definition stub_mem :: mem where
  "stub_mem = store64 (\<lambda>_. 0x10) 0x17f8 0x4242"

lemma stub_mem_entry:
  assumes "v < 255"
  shows "load64 stub_mem (0x1000 + 8 * of_nat v) = 0x1010101010101010"
proof -
  have "unat (0x1000 + 8 * of_nat v :: u64) = 0x1000 + 8 * v"
    using assms by (simp add: unat_word_ariths unat_of_nat)
  then have "disj_range 0x17f8 8 (0x1000 + 8 * of_nat v) 8"
    using assms by (intro disj_range_nowrap) simp_all
  then have "load64 stub_mem (0x1000 + 8 * of_nat v) = load64 (\<lambda>_. 0x10) (0x1000 + 8 * of_nat v)"
    by (simp add: stub_mem_def load64_store64_disj)
  also have "\<dots> = load64 (\<lambda>_. 0x10) 0" by (simp only: load64_def load_const[of _ "0x1000 + 8 * of_nat v"])
  also have "\<dots> = 0x1010101010101010"
  proof -
    have eight: "8 = Suc (Suc (Suc (Suc (Suc (Suc (Suc (Suc 0)))))))" by simp
    have "load (\<lambda>_. 0x10) 0 8 = 0x1010101010101010" unfolding eight load.simps by simp
    then show ?thesis by (simp add: load64_def)
  qed
  finally show ?thesis .
qed

theorem idt_init_gates_witness:
  "gate_target (idt (idt_init 0x1000 0x5000 (blank_cpu\<lparr>mem := stub_mem\<rparr>)) ! 32) = 0x1010101010101010
   \<and> gate_target (idt (idt_init 0x1000 0x5000 (blank_cpu\<lparr>mem := stub_mem\<rparr>)) ! 255) = 0x4242"
proof -
  have "load64 stub_mem 0x17f8 = 0x4242" by (simp add: stub_mem_def)
  with idt_init_gates[of "blank_cpu\<lparr>mem := stub_mem\<rparr>" "0x1000" "\<lambda>_. 0x1010101010101010" "0x5000"] stub_mem_entry
  show ?thesis by (simp add: blank_cpu_def kernel_gate_def)
qed

section \<open>Segments\<close>

lemma gdt_init_entries:
  fixes gdt_addr tss_addr :: u64
  assumes "length (gdt s) = 255"
  defines "g \<equiv> gdt (gdt_init gdt_addr tss_addr s)"
  shows "g ! 1 = \<lparr>g_limit0 = 0xFFFF, g_base0 = 0, g_base1 = 0, g_access = 0x9A, g_limit1_flags = 0xA0, g_base2 = 0\<rparr>"
    and "g ! 3 = g ! 1"
    and "g ! 2 = \<lparr>g_limit0 = 0xFFFF, g_base0 = 0, g_base1 = 0, g_access = 0x92, g_limit1_flags = 0xA0, g_base2 = 0\<rparr>"
    and "g ! 4 = g ! 2"
    and "g ! 6 = gdt (tss_set_gate 6 tss_addr 104 s) ! 6"
    and "g ! 7 = gdt s ! 7"
  using assms(1)
  by (simp_all add: g_def gdt_init_def Let_def emit_def tss_set_gate_def gdt_set_entry_def GDT_NULL_def GDT_KERNEL_CODE_def
      GDT_KERNEL_DATA_def GDT_USER_CODE_def GDT_USER_DATA_def sizeof_tss_def drop_bit_eq_div)

lemma tss_gate_base:
  assumes "6 < length (gdt s)"
  shows "segment_base (gdt (tss_set_gate 6 base limit s) ! 6) = ucast base"
proof -
  have "ucast (ucast (base AND mask 16) :: u16) OR push_bit 16 (ucast (ucast (drop_bit 16 base AND mask 8) :: u8))
     OR push_bit 24 (ucast (ucast (drop_bit 24 base AND mask 8) :: u8)) = (ucast base :: u32)"
  proof (rule bit_word_eqI)
    fix n assume "n < LENGTH(32)"
    then show "bit (ucast (ucast (base AND mask 16) :: u16) OR push_bit 16 (ucast (ucast (drop_bit 16 base AND mask 8) :: u8))
     OR push_bit 24 (ucast (ucast (drop_bit 24 base AND mask 8) :: u8)) :: u32) n = bit (ucast base :: u32) n"
      by (cases "16 \<le> n"; cases "24 \<le> n") (auto simp: bit_simps)
  qed
  then show ?thesis using assms by (simp add: tss_set_gate_def segment_base_def small_mask)
qed

text \<open>
  After \<open>gdt_init\<close> the kernel's code and data segments start at 0 and are of ring 0, and so are the
  two user segments, which differ from them in nothing.  The processor takes the task state segment to
  lie at the lower 32 bits of its address: the entry with the upper half is never written.
\<close>

theorem gdt_init_segments:
  assumes "length (gdt s) = 255" and "gdt s ! 7 = blank_gdt"
  shows "let g = gdt (gdt_init gdt_addr tss_addr s) in
    (\<forall>i \<in> {1..4}. segment_base (g ! i) = 0 \<and> segment_limit (g ! i) = 0xFFFF \<and> segment_flags (g ! i) = 0xA0
        \<and> privilege_level (g ! i) = 0)
    \<and> g ! 3 = g ! 1 \<and> g ! 4 = g ! 2 \<and> system_base (g ! 6) (g ! 7) = ucast (ucast tss_addr :: u32)"
proof -
  let ?g = "gdt (gdt_init gdt_addr tss_addr s)"
  note e = gdt_init_entries[OF assms(1), of gdt_addr tss_addr]
  have "segment_base (?g ! i) = 0 \<and> segment_limit (?g ! i) = 0xFFFF \<and> segment_flags (?g ! i) = 0xA0 \<and> privilege_level (?g ! i) = 0"
    if "i \<in> {1..4}" for i
  proof -
    have "i = 1 \<or> i = 2 \<or> i = 3 \<or> i = 4" using that by auto
    then show ?thesis
      by (auto simp: e(1-4)[unfolded One_nat_def] segment_base_def segment_limit_def segment_flags_def privilege_level_def drop_bit_eq_div)
  qed
  moreover have "system_base (?g ! 6) (?g ! 7) = ucast (ucast tss_addr :: u32)"
    using assms(1,2) tss_gate_base[of s tss_addr 104] by (simp add: e(5,6) system_base_def blank_gdt_def)
  ultimately show ?thesis unfolding Let_def using e(2,4) by blast
qed

theorem gdt_init_segments_witness:
  "system_base (gdt (gdt_init 0x1000 0xFFFFFFFF80002000 blank_cpu) ! 6) (gdt (gdt_init 0x1000 0xFFFFFFFF80002000 blank_cpu) ! 7)
    = 0x80002000"
  using gdt_init_segments[of blank_cpu "0x1000" "0xFFFFFFFF80002000"] by (simp add: blank_cpu_def Let_def)

section \<open>Interrupt lines\<close>

lemma irq_bit_writes:
  assumes "n < 8"
  obtains b where "irq_bit n = Some b"
    and "\<forall>v :: u8. \<forall>j < 8. bit (ucast (ucast v OR b) :: u8) j = (bit v j \<or> j = unat n)"
    and "\<forall>v :: u8. \<forall>j < 8. bit (ucast (ucast v AND NOT b) :: u8) j = (bit v j \<and> j \<noteq> unat n)"
proof -
  have "irq_bit n = Some (push_bit (unat n) 1)" using assms by (simp add: irq_bit_def word_less_nat_alt)
  moreover have "\<forall>j < 8. bit (ucast (ucast v OR push_bit (unat n) (1 :: u32)) :: u8) j = (bit v j \<or> j = unat n)" for v :: u8
    by (auto simp: bit_simps)
  moreover have "\<forall>j < 8. bit (ucast (ucast v AND NOT (push_bit (unat n) (1 :: u32))) :: u8) j = (bit v j \<and> j \<noteq> unat n)"
    for v :: u8
    by (auto simp: bit_simps)
  ultimately show ?thesis using that by blast
qed

lemma pic_line_cases:
  assumes "irq < 16"
  obtains n where "pic_line irq = (if irq < 8 then PIC1_DATA else PIC2_DATA, n)" and "n < 8" and "unat n = unat irq mod 8"
proof (cases "irq < 8")
  case True
  then show ?thesis using that[of irq] by (simp add: pic_line_def word_less_nat_alt)
next
  case False
  then have "8 \<le> irq" "8 \<le> unat irq" "unat irq < 16" using assms by (simp_all add: word_less_nat_alt word_le_nat_alt)
  moreover from this(1) have "unat (irq - 8) = unat irq - 8" by (simp add: unat_sub_if' word_le_nat_alt)
  ultimately show ?thesis using that[of "irq - 8"] False by (simp add: pic_line_def word_less_nat_alt le_mod_geq)
qed

text \<open>
  Masking or unmasking one of the 16 interrupt lines reads the mask register of the controller the line
  belongs to and writes it back with exactly the bit of that line set or cleared; nothing else is accessed.
\<close>

theorem pic_changes_one_line:
  assumes "irq < 16"
  shows "let port = if irq < 8 then 0x21 else 0xA1; v = dev s (trace s) port
    in (\<exists>w. pic_mask_irq irq s = Some (s\<lparr>trace := trace s @ [Inb port v, Outb port w]\<rparr>)
         \<and> (\<forall>j < 8. bit w j = (bit v j \<or> j = unat irq mod 8)))
     \<and> (\<exists>w. pic_unmask_irq irq s = Some (s\<lparr>trace := trace s @ [Inb port v, Outb port w]\<rparr>)
         \<and> (\<forall>j < 8. bit w j = (bit v j \<and> j \<noteq> unat irq mod 8)))"
proof -
  obtain n where n: "pic_line irq = (if irq < 8 then PIC1_DATA else PIC2_DATA, n)" "n < 8" "unat n = unat irq mod 8"
    using pic_line_cases[OF assms] .
  obtain b where b: "irq_bit n = Some b"
    "\<forall>v :: u8. \<forall>j < 8. bit (ucast (ucast v OR b) :: u8) j = (bit v j \<or> j = unat n)"
    "\<forall>v :: u8. \<forall>j < 8. bit (ucast (ucast v AND NOT b) :: u8) j = (bit v j \<and> j \<noteq> unat n)"
    using irq_bit_writes[OF n(2)] .
  let ?port = "if irq < 8 then 0x21 else 0xA1 :: u16"
  let ?v = "dev s (trace s) ?port"
  have "pic_mask_irq irq s = Some (s\<lparr>trace := trace s @ [Inb ?port ?v, Outb ?port (ucast (ucast ?v OR b))]\<rparr>)"
    "pic_unmask_irq irq s = Some (s\<lparr>trace := trace s @ [Inb ?port ?v, Outb ?port (ucast (ucast ?v AND NOT b))]\<rparr>)"
    by (simp_all add: pic_mask_irq_def pic_unmask_irq_def n(1) b(1) io_defs PIC1_DATA_def PIC2_DATA_def)
  then show ?thesis unfolding Let_def using b(2,3) n(3) by metis
qed

theorem pic_changes_one_line_witness:
  "\<exists>w. pic_unmask_irq 8 blank_cpu = Some (blank_cpu\<lparr>trace := [Inb 0xA1 0, Outb 0xA1 w]\<rparr>) \<and> \<not> bit w 0"
  using pic_changes_one_line[of 8 blank_cpu] by (auto simp: blank_cpu_def Let_def)

section \<open>The timer\<close>

lemma pit_wait_none:
  assumes "pit_wait eticks s = Some s'"
  shows "\<not> tick s < eticks"
  using assms
proof (rule pit_wait.raw_induct[where P = "\<lambda>eticks s s'. \<not> tick s < eticks", rotated])
  fix wait :: "u32 \<Rightarrow> 'a cpu_scheme \<Rightarrow> 'a cpu_scheme option" and eticks and s s' :: "'a cpu_scheme"
  assume ih: "\<And>eticks s s'. wait eticks s = Some s' \<Longrightarrow> \<not> tick s < eticks"
    and run: "(if tick s < eticks then wait eticks (emit Hlt s) else Some s) = Some s'"
  show "\<not> tick s < eticks"
  proof
    assume "tick s < eticks"
    with ih[of eticks "emit Hlt s" s'] run show False by (simp add: emit_def)
  qed
qed

lemma pit_wait_eq: "pit_wait eticks s = (if tick s < eticks then None else Some s)"
proof (cases "tick s < eticks")
  case True
  then show ?thesis using pit_wait_none[of eticks s] by (cases "pit_wait eticks s") auto
next
  case False
  then show ?thesis by (subst pit_wait.simps) simp
qed

text \<open>
  No sleep works: each of the three functions returns at once, without waiting, when its end time
  wraps to one that has passed or is now, and never returns otherwise, since no code advances \<open>tick\<close>.
\<close>

theorem pit_sleeps_for_ever:
  "pit_sleep n s = (if tick s < tick s + n * 1000 then None else Some s)
   \<and> pit_sleepms n s = (if tick s < tick s + n * 1000 div 1000 then None else Some s)
   \<and> pit_usleep n s = (if tick s < tick s + n * 1000 then None else Some s)"
  by (simp add: pit_sleep_def pit_sleepms_def pit_usleep_def pit_wait_eq HZ_def)

end
