(* ===== verification/KernelRun.thy ===== *)
theory KernelRun
  imports Kernel SchedRing CpuTables
begin

text \<open>
  Interrupts and system calls, run on the whole kernel state.
\<close>

section \<open>Effects on the trace\<close>

lemma emit_kernel [simp]:
  "syscalls (emit e s) = syscalls s" "vmm_current_pagemap (emit e s) = vmm_current_pagemap s"
  "vmm_kernel_pagemap (emit e s) = vmm_kernel_pagemap s" "sched_current_thread (emit e s) = sched_current_thread s"
  "sched_current_process (emit e s) = sched_current_process s" for s :: "'a kernel_scheme"
  by (simp_all add: emit_def)

lemma sched_inv_trace:
  "sched_inv sf ps (emit e s) = sched_inv sf ps s" "view_of sf ps (emit e s) = view_of sf ps s"
  "sched_inv sf ps (s\<lparr>vmm_current_pagemap := q\<rparr>) = sched_inv sf ps s"
  "view_of sf ps (s\<lparr>vmm_current_pagemap := q\<rparr>) = view_of sf ps s" for s :: "'a sched_scheme"
  by (simp_all add: sched_inv_def view_of_def emit_def cong del: if_weak_cong)

lemma schedule_frame:
  "schedule sf s = Some s' \<Longrightarrow> trace s' = trace s \<and> dev s' = dev s"
  by (auto simp: schedule_def Let_def split: bind_splits)

definition irq_line_of :: "ptr \<Rightarrow> 'a machine_scheme \<Rightarrow> int" where
  "irq_line_of sf s = sint (ucast (sf_get sf sf_vector s - 32) :: u32)"

definition acknowledgement :: "int \<Rightarrow> event list" where
  "acknowledgement line = (if 8 \<le> line then [Outb 0xA0 0x20] else []) @ [Outb 0x20 0x20]"

lemma finish_interrupt_trace:
  "finish_interrupt sf s = s\<lparr>trace := trace s @ Sti # acknowledgement (irq_line_of sf s)\<rparr>"
  by (simp add: finish_interrupt_def pic_ack_def outb_def emit_def Let_def acknowledgement_def irq_line_of_def
      sf_get_def PIC1_COMMAND_def PIC2_COMMAND_def)

lemma write_loop_trace:
  "write_loop buf i n s = s\<lparr>trace := trace s @ map (\<lambda>j. Tty_print [mem s (buf + of_nat j)]) [i..<i + n]\<rparr>"
proof (induction n arbitrary: i s)
  case (Suc n)
  have "[i..<i + Suc n] = i # [Suc i..<Suc i + n]" using upt_conv_Cons[of i "i + Suc n"] by (simp del: upt_Suc)
  then show ?case by (simp add: Suc emit_def del: upt_Suc)
qed simp

lemma syscall_call_frame:
  "\<exists>es m. syscall_call f sf s = s\<lparr>mem := m, trace := trace s @ es\<rparr>"
proof (cases f)
  case Syscall_write
  have "s = s\<lparr>mem := mem s, trace := trace s @ []\<rparr>" by simp
  moreover have "\<exists>es m. sf_set sf r v s = s\<lparr>mem := m, trace := trace s @ es\<rparr>" for r v
    by (intro exI[of _ "[]"] exI[of _ "mem (sf_set sf r v s)"]) (simp add: sf_set_def)
  moreover have "\<exists>es m. write_loop b i n s = s\<lparr>mem := m, trace := trace s @ es\<rparr>" for b i n
    by (intro exI[of _ "map (\<lambda>j. Tty_print [mem s (b + of_nat j)]) [i..<i + n]"] exI[of _ "mem s"])
       (simp add: write_loop_trace)
  ultimately show ?thesis unfolding Syscall_write syscall_call.simps syscall_write_def Let_def by metis
next
  case Syscall_getpid
  show ?thesis
    by (intro exI[of _ "[]"] exI[of _ "mem (syscall_getpid sf s)"])
       (simp add: Syscall_getpid syscall_getpid_def sf_set_def)
qed

section \<open>The handler\<close>

lemma finish_after:
  assumes "trace s1 = trace s @ Cli # es"
  shows "trace (finish_interrupt sf s1) = trace s @ Cli # es @ Sti # acknowledgement (irq_line_of sf (finish_interrupt sf s1))"
proof -
  have "irq_line_of sf (finish_interrupt sf s1) = irq_line_of sf s1"
    by (simp add: finish_interrupt_trace irq_line_of_def sf_get_def)
  then show ?thesis using assms by (simp add: finish_interrupt_trace)
qed

lemma switch_and_finish:
  assumes "sched_inv sf ps s1" and "trace s1 = trace s @ Cli # es" and "view_of sf ps s1 = view_of sf ps s"
  shows "\<exists>s2. schedule sf s1 = Some s2
    \<and> trace (finish_interrupt sf s2) = trace s @ Cli # es @ Sti # acknowledgement (irq_line_of sf (finish_interrupt sf s2))
    \<and> view_schedule ps (view_of sf ps s) = Some (view_of sf ps (finish_interrupt sf s2))"
proof -
  obtain s2 where s2: "schedule sf s1 = Some s2" "view_schedule ps (view_of sf ps s1) = Some (view_of sf ps s2)"
    using schedule_view[OF assms(1)] by blast
  have "view_of sf ps (finish_interrupt sf s2) = view_of sf ps s2"
    by (simp add: finish_interrupt_trace view_of_def cong del: if_weak_cong)
  with s2 assms(2,3) schedule_frame[OF s2(1)] finish_after[of s2 s es sf] show ?thesis by auto
qed

text \<open>
  A CPU exception while another page table than the kernel's is loaded is undefined: the message logged for it
  reads an argument that was not passed.
\<close>

lemma foreign_exception_undefined:
  assumes "sf_get sf sf_vector s < 32" and "vmm_current_pagemap s \<noteq> vmm_kernel_pagemap s"
  shows "interrupt_handler sf s = None"
proof -
  have "sf_get sf sf_vector (emit Cli s) < 32" using assms(1) by (simp add: sf_get_def)
  then show ?thesis using assms(2) by (simp add: interrupt_handler_def Let_def logln_va_def)
qed


section \<open>System calls\<close>

lemma clear_slots: "fold (\<lambda>i s. s\<lparr>syscalls := (syscalls s)[i := None]\<rparr>) [0..<n] s
   = s\<lparr>syscalls := replicate n None @ drop n (syscalls s)\<rparr>" if "n \<le> length (syscalls s)" for s :: "'a kernel_scheme"
  using that
proof (induction n)
  case (Suc n)
  then have "drop n (syscalls s) = syscalls s ! n # drop (Suc n) (syscalls s)" by (simp add: Cons_nth_drop_Suc)
  with Suc show ?case by (simp add: list_update_append replicate_append_same)
qed simp

lemma syscall_init_table:
  assumes "length (syscalls s) = 512"
  shows "syscall_init s = Some (s\<lparr>syscalls := (replicate 512 None)[1 := Some Syscall_write, 2 := Some Syscall_getpid],
     trace := trace s @ [Logln Lg_info ''syscalls'' ''System calls initialized.\<newline>'' []]\<rparr>)"
  using clear_slots[of 512 s] assms by (simp add: syscall_init_def syscall_set_def SYSCALL_MAX_SLOTS_def emit_def)

text \<open>\<open>syscall_set\<close> reports a slot that is taken, and replaces its function all the same.\<close>

lemma syscall_set_replaces:
  assumes "n < SYSCALL_MAX_SLOTS" and "length (syscalls s) = SYSCALL_MAX_SLOTS" and "syscalls s ! n = Some g"
  shows "\<exists>s'. syscall_set (int n) f s = Some s' \<and> syscalls s' ! n = Some f
    \<and> trace s' = trace s @ [Logln Lg_err ''syscalls'' ''Cannot replace already set syscalls.\<newline>'' []]"
  using assms by (simp add: syscall_set_def Let_def emit_def)

lemma syscall_write_runs:
  assumes "syscalls s ! 1 = Some Syscall_write"
    and "sf_get sf sf_vector s = 128" and "sf_get sf sf_rax s = 1" and "sf_get sf sf_rdi s = 1"
    and "sf_get sf sf_rsi s = buf" and "buf \<noteq> NULL" and "sf_get sf sf_rdx s = of_nat n" and "n < 2 ^ 31"
  shows "interrupt_handler sf s = Some (Returned (s\<lparr>trace := trace s @ Cli # map (\<lambda>b. Tty_print [b]) (bytes_at (mem s) buf n)
    @ [Sti, Outb 0xA0 0x20, Outb 0x20 0x20]\<rparr>))"
proof -
  let ?s1 = "emit Cli s"
  have v: "sf_get sf r ?s1 = sf_get sf r s" for r by (simp add: sf_get_def)
  have "(ucast (of_nat n :: u64) :: u32) = of_nat n"
    using assms(8) by (simp add: unsigned_of_nat take_bit_nat_eq_self)
  moreover have "sint (of_nat n :: u32) = int n"
    using assms(8) by (simp add: signed_of_nat signed_take_bit_int_eq_self)
  ultimately have "nat (sint (ucast (of_nat n :: u64) :: u32)) = n" by simp
  then have "syscall_write sf ?s1 = ?s1\<lparr>trace := trace ?s1 @ map (\<lambda>b. Tty_print [b]) (bytes_at (mem s) buf n)\<rparr>"
    using assms(4-7) by (simp add: syscall_write_def v Let_def write_loop_trace bytes_at_def)
  moreover have "interrupt_handler sf s = Some (Returned (finish_interrupt sf (syscall_write sf ?s1)))"
    using assms(1-3) by (simp add: interrupt_handler_def Let_def v SYSCALL_MAX_SLOTS_def)
  moreover have "sint (ucast (sf_get sf sf_vector s - 32) :: u32) = 96" using assms(2) by simp
  ultimately show ?thesis
    by (simp add: finish_interrupt_trace irq_line_of_def sf_get_def acknowledgement_def emit_def)
qed

text \<open>
  C28. System call 1 prints: with the table that \<open>syscall_init\<close> makes, an interrupt 128 with descriptor 1 and
  a buffer writes the bytes of the buffer to the terminal one after the other, the whole count and in
  order, then returns to the caller with memory, registers and running thread as they were; so the caller
  gets no byte count, its \<open>rax\<close> is still the number of the call.
\<close>

theorem syscall_write_prints:
  assumes "length (syscalls boot) = 512" and "syscall_init boot = Some s0" and "syscalls s = syscalls s0"
    and "sf_get sf sf_vector s = 128" and "sf_get sf sf_rax s = 1" and "sf_get sf sf_rdi s = 1"
    and "sf_get sf sf_rsi s = buf" and "buf \<noteq> NULL" and "sf_get sf sf_rdx s = of_nat n" and "n < 2 ^ 31"
  shows "interrupt_handler sf s = Some (Returned (s\<lparr>trace := trace s @ Cli # map (\<lambda>b. Tty_print [b]) (bytes_at (mem s) buf n)
    @ [Sti, Outb 0xA0 0x20, Outb 0x20 0x20]\<rparr>))"
proof -
  have "syscalls s ! 1 = Some Syscall_write" using syscall_init_table[OF assms(1)] assms(2,3) by auto
  from syscall_write_runs[OF this assms(4-10)] show ?thesis .
qed

section \<open>Sample interrupts\<close>

text \<open>A timer interrupt on the processes of \<open>sample_sched\<close>.\<close>

definition blank_tables :: "unit kernel_ext cpu_ext" where
  "blank_tables =
     \<lparr>gdt = replicate 255 blank_gdt, gdtr_size = 0, gdtr_offset = 0, tss_rsp0 = 0,
      idt = replicate 256 blank_gate, idtr_limit = 0, idtr_base = 0, vectors = replicate 256 False, tick = 0,
      syscalls = replicate 512 None, boot_framebuf = NULL\<rparr>"

definition timer_mem :: mem where
  "timer_mem = store64 sample_mem 0x9078 32"

definition timer_kernel :: kernel where
  "timer_kernel = (sched.extend sample_sched blank_tables)\<lparr>mem := timer_mem\<rparr>"

lemma timer_reads:
  "p_threads timer_mem 0x1000 = 0x2000" "p_next timer_mem 0x1000 = 0x3000"
  "p_threads timer_mem 0x3000 = 0x4000" "p_next timer_mem 0x3000 = NULL"
  "t_next timer_mem 0x2000 = NULL" "t_next timer_mem 0x4000 = 0x5000" "t_next timer_mem 0x5000 = NULL"
  "load64 timer_mem 0x9078 = 32"
  by (simp_all add: timer_mem_def sample_mem_def sample_fields mem_simps)

lemma timer_ok: "sched_inv 0x9000 sample_procs timer_kernel"
proof -
  have "layout_apart 0x9000 sample_procs" using sample_ok by (simp add: sched_inv_def)
  moreover have "proc_list timer_mem 0x1000 sample_procs" by (simp add: sample_procs_def timer_reads)
  ultimately show ?thesis
    by (simp add: sched_inv_def timer_kernel_def sample_sched_def sample_procs_def vmm.defs sched.defs)
qed


text \<open>A process writes three bytes.\<close>

definition write_mem :: mem where
  "write_mem = store64 (store64 (store64 (store64 (store64 (\<lambda>x. ucast x) 0x9078 128) 0x9070 1) 0x9048 1) 0x9050 0x141) 0x9058 3"

definition write_kernel :: kernel where
  "write_kernel = (sched.extend sample_sched blank_tables)\<lparr>mem := write_mem\<rparr>"

lemma write_regs:
  "sf_get 0x9000 sf_vector (write_kernel\<lparr>syscalls := t\<rparr>) = 128" "sf_get 0x9000 sf_rax (write_kernel\<lparr>syscalls := t\<rparr>) = 1"
  "sf_get 0x9000 sf_rdi (write_kernel\<lparr>syscalls := t\<rparr>) = 1" "sf_get 0x9000 sf_rsi (write_kernel\<lparr>syscalls := t\<rparr>) = 0x141"
  "sf_get 0x9000 sf_rdx (write_kernel\<lparr>syscalls := t\<rparr>) = of_nat 3"
  by (simp_all add: sf_get_def write_kernel_def write_mem_def sf_vector_def sf_rax_def sf_rdi_def sf_rsi_def sf_rdx_def mem_simps)

lemma write_bytes: "bytes_at write_mem 0x141 3 = [0x41, 0x42, 0x43]"
  by (simp add: bytes_at_def upt_rec write_mem_def store64_other in_range_def)

theorem syscall_write_prints_witness:
  "\<exists>t. interrupt_handler 0x9000 (write_kernel\<lparr>syscalls := t\<rparr>) = Some (Returned (write_kernel\<lparr>syscalls := t,
     trace := trace write_kernel @ [Cli, Tty_print [0x41], Tty_print [0x42], Tty_print [0x43], Sti, Outb 0xA0 0x20, Outb 0x20 0x20]\<rparr>))"
proof -
  have len: "length (syscalls write_kernel) = 512"
    by (simp add: write_kernel_def sched.defs sample_sched_def vmm.defs blank_tables_def)
  define t where "t = (replicate 512 None)[1 := Some Syscall_write, 2 := Some Syscall_getpid]"
  have "mem (write_kernel\<lparr>syscalls := t\<rparr>) = write_mem" by (simp add: write_kernel_def)
  with syscall_write_prints[OF len syscall_init_table[OF len] _ write_regs(1-4) _ write_regs(5), of t] show ?thesis
    by (auto simp: t_def write_bytes)
qed

end
