(* ===== verification/SchedBoot.thy ===== *)
theory SchedBoot
  imports SchedRing
begin

text \<open>
  How the scheduler's structures come into being: \<open>sched_new\<close>, \<open>sched_new_thread\<close> and \<open>sched_init\<close> on a heap
  none of whose blocks has been freed, as it is during boot.  Every structure then starts 24 bytes into a page
  of its own, behind the header of its block.
\<close>

section \<open>Sets of addresses\<close>

definition rng :: "ptr \<Rightarrow> nat \<Rightarrow> ptr set" where "rng a n = {x. in_range a n x}"

definition changes :: "ptr set \<Rightarrow> mem \<Rightarrow> mem \<Rightarrow> bool" where
  "changes A m m' \<longleftrightarrow> (\<forall>x. x \<notin> A \<longrightarrow> m' x = m x)"

lemma changes_refl [simp]: "changes A m m"
  by (simp add: changes_def)

lemma changes_trans: "changes A m m' \<Longrightarrow> changes B m' m'' \<Longrightarrow> changes (A \<union> B) m m''"
  by (simp add: changes_def)

lemma changes_mono: "changes A m m' \<Longrightarrow> A \<subseteq> B \<Longrightarrow> changes B m m'"
  by (auto simp: changes_def)

lemma rng_sub: "unat (b - a) + k \<le> n \<Longrightarrow> rng b k \<subseteq> rng a n"
  by (auto simp: rng_def intro: in_range_shift)

lemma rng_disj: "disj_range a n b k \<Longrightarrow> rng a n \<inter> rng b k = {}"
  by (auto simp: rng_def dest: disj_rangeD)

lemma rng_disjD: "0 < n \<Longrightarrow> 0 < k \<Longrightarrow> rng a n \<inter> rng b k = {} \<Longrightarrow> disj_range a n b k"
  by (rule disj_rangeI) (auto simp: rng_def)

lemma changes_stores:
  "rng a 8 \<subseteq> A \<Longrightarrow> changes A m m' \<Longrightarrow> changes A m (store64 m' a v)"
  "rng a 4 \<subseteq> A \<Longrightarrow> changes A m m' \<Longrightarrow> changes A m (store32 m' a w)"
  "rng a 1 \<subseteq> A \<Longrightarrow> changes A m m' \<Longrightarrow> changes A m (store_bool m' a b)"
  "rng a (unat n) \<subseteq> A \<Longrightarrow> changes A m m' \<Longrightarrow> changes A m (snd (memcpy a src n m'))"
  unfolding changes_def rng_def
  by (metis store64_other mem_Collect_eq subsetD, metis store32_other mem_Collect_eq subsetD,
      metis store_bool_other mem_Collect_eq subsetD, metis memcpy_outside mem_Collect_eq subsetD)

lemma load_off:
  assumes "changes A m m'" and "A \<inter> rng a n = {}"
  shows "8 \<le> n \<Longrightarrow> load64 m' a = load64 m a" "4 \<le> n \<Longrightarrow> load32 m' a = load32 m a"
    and "n \<le> 2 ^ 64 \<Longrightarrow> bytes_at m' a n = bytes_at m a n" and "0 < n \<Longrightarrow> m' a = m a"
proof -
  have same: "m' x = m x" if "in_range a n x" for x using that assms by (auto simp: changes_def rng_def)
  show "load64 m' a = load64 m a" if "8 \<le> n"
    using that by (intro load64_cong same) (simp add: in_range_def)
  show "load32 m' a = load32 m a" if "4 \<le> n"
    using that by (intro load32_cong same) (simp add: in_range_def)
  show "m' a = m a" if "0 < n" using that same by (simp add: in_range_self)
  show "bytes_at m' a n = bytes_at m a n" if "n \<le> 2 ^ 64"
  proof -
    have "m' (a + of_nat i) = m (a + of_nat i)" if "i < n" for i
      using \<open>i < n\<close> \<open>n \<le> 2 ^ 64\<close> by (intro same) (simp add: in_range_def unat_of_nat_small)
    then show ?thesis by (simp add: bytes_at_def)
  qed
qed

section \<open>A heap whose blocks are all in use\<close>

primrec used_chain :: "mem \<Rightarrow> ptr \<Rightarrow> ptr list \<Rightarrow> bool" where
  "used_chain m p [] \<longleftrightarrow> p = NULL"
| "used_chain m p (a # as) \<longleftrightarrow> p = a \<and> a \<noteq> NULL \<and> \<not> blk_is_free m a \<and> used_chain m (blk_next m a) as"

definition headers :: "ptr list \<Rightarrow> ptr set" where "headers as = (\<Union>a \<in> set as. rng a 24)"

text \<open>The blocks start on the pages \<open>as\<close>, in the order they were taken, and none is free.\<close>

definition full_heap :: "'a pmm_scheme \<Rightarrow> ptr list \<Rightarrow> bool" where
  "full_heap s as \<longleftrightarrow> pmm_ok s \<and> used_chain (mem s) (pmm_free_blocks s) as
     \<and> distinct (as @ free_pages s) \<and> pages_ok (set (as @ free_pages s))"

lemma headers_append: "headers (as @ bs) = headers as \<union> headers bs"
  by (auto simp: headers_def)

lemma headers_one: "headers [a] = rng a 24"
  by (simp add: headers_def)

lemma header_cong:
  assumes "changes A m m'" and "A \<inter> rng a 24 = {}"
  shows "blk_next m' a = blk_next m a" "blk_is_free m' a = blk_is_free m a" "blk_size m' a = blk_size m a"
proof -
  have "A \<inter> rng (a + 8) 8 = {}" "A \<inter> rng (a + 16) 1 = {}" "A \<inter> rng a 8 = {}"
    using assms(2) rng_sub[of "a + 8" a 8 24] rng_sub[of "a + 16" a 1 24] rng_sub[of a a 8 24] by auto
  with load_off[OF assms(1)] show "blk_next m' a = blk_next m a" "blk_is_free m' a = blk_is_free m a"
    "blk_size m' a = blk_size m a"
    by (simp_all add: blk_defs load_bool_def)
qed

lemma used_chain_cong:
  assumes "\<forall>a \<in> set as. blk_next m' a = blk_next m a \<and> blk_is_free m' a = blk_is_free m a"
  shows "used_chain m' p as = used_chain m p as"
  using assms by (induction as arbitrary: p) auto

lemma used_chain_off:
  assumes "changes A m m'" and "A \<inter> headers as = {}"
  shows "used_chain m' p as = used_chain m p as"
proof (rule used_chain_cong, intro ballI)
  fix a assume "a \<in> set as"
  then have "A \<inter> rng a 24 = {}" using assms(2) by (auto simp: headers_def)
  with header_cong[OF assms(1)] show "blk_next m' a = blk_next m a \<and> blk_is_free m' a = blk_is_free m a" by simp
qed

lemma used_chain_find:
  "used_chain m p as \<Longrightarrow> find_block m sz p prev = Some (NULL, last (prev # as))"
proof (induction as arbitrary: p prev)
  case Nil
  then show ?case by (subst find_block.simps) simp
next
  case (Cons a as)
  then show ?case by (subst find_block.simps) auto
qed

lemma set_next_elsewhere:
  assumes "disj_range l 24 a 24"
  shows "blk_next (set_blk_next l q m) a = blk_next m a" "blk_is_free (set_blk_next l q m) a = blk_is_free m a"
  using header_same_outside[OF set_blk_local(2)[OF same_outside_refl] assms] by simp_all

lemma used_chain_snoc:
  assumes "used_chain m p (as @ [l])" and "\<forall>a \<in> set (as @ [q]). disj_range l 24 a 24" and "used_chain m q [q]"
  shows "used_chain (set_blk_next l q m) p (as @ [l, q])"
  using assms(1,2)
proof (induction as arbitrary: p)
  case Nil
  with assms(3) set_next_elsewhere[of l q q m] show ?case by (simp add: mem_simps)
next
  case (Cons a as)
  with set_next_elsewhere[of l a q m] show ?case by simp
qed

lemma page_rng:
  assumes "pages_ok P" and "p \<in> P" "q \<in> P" "p \<noteq> q"
  shows "rng p 4096 \<inter> rng q 4096 = {}"
  using assms by (intro rng_disj page_disj) (auto simp: pages_ok_def)

lemma payload_header:
  assumes "pages_ok P" and "p \<in> P" "set as \<subseteq> P" and "n \<le> 4072"
  shows "rng (p + 24) n \<inter> headers as = {}"
proof -
  have sub: "rng (p + 24) n \<subseteq> rng p 4096" "rng a 24 \<subseteq> rng a 4096" for a
    using assms(4) by (auto intro!: rng_sub)
  have "rng (p + 24) n \<inter> rng p 24 = {}"
    using assms(4) by (intro rng_disj) (simp add: mem_simps)
  moreover have "rng (p + 24) n \<inter> rng a 24 = {}" if "a \<in> set as" "a \<noteq> p" for a
    using page_rng[OF assms(1,2), of a] that assms(3) sub by blast
  ultimately show ?thesis by (auto simp: headers_def)
qed

lemma full_heap_mem:
  assumes "full_heap s as" and "changes A (mem s) m" and "A \<inter> headers as = {}"
  shows "full_heap (s\<lparr>mem := m\<rparr>) as"
  using assms(1) used_chain_off[OF assms(2,3)] by (simp add: full_heap_def)

text \<open>Each request takes a page of its own, whatever its size, and writes nothing but headers.\<close>

lemma full_alloc:
  assumes "full_heap s as" and "n \<noteq> 0" and "free_pages s = q # qs"
  obtains s' where "pmm_alloc n s = Some (q + 24, s')" "full_heap s' (as @ [q])" "free_pages s' = qs"
    "changes (headers (as @ [q])) (mem s) (mem s')" "trace s' = trace s" "dev s' = dev s" "pmm.more s' = pmm.more s"
    "blk_size (mem s') q = n + 24" "\<forall>a \<in> set as. blk_size (mem s') a = blk_size (mem s) a"
proof -
  have ok: "pmm_ok s" and chain: "used_chain (mem s) (pmm_free_blocks s) as"
    and d: "distinct (as @ q # qs)" and pg: "pages_ok (set (as @ q # qs))"
    using assms(1,3) by (simp_all add: full_heap_def)
  have q: "q \<noteq> NULL" using pg by (auto simp: pages_ok_def)
  define m3 where "m3 = set_blk_next q NULL (set_blk_is_free q False (set_blk_size q (n + 24) (mem s)))"
  have so: "same_outside q 24 (mem s) m3" unfolding m3_def by (intro set_blk_local) simp
  then have c3: "changes (rng q 24) (mem s) m3" by (simp add: changes_def same_outside_def rng_def)
  have apart: "disj_range a 24 b 24" if "a \<in> set (as @ [q])" "b \<in> set (as @ [q])" "a \<noteq> b" for a b
  proof -
    have "disj_range a 4096 b 4096" using that pg by (intro page_disj) (auto simp: pages_ok_def)
    from disj_range_fields[OF this, of 0 24 0 24] show ?thesis by simp
  qed
  have "rng q 24 \<inter> headers as = {}" using apart[of q] d by (auto simp: headers_def dest!: rng_disj)
  from used_chain_off[OF c3 this] chain have chain3: "used_chain m3 (pmm_free_blocks s) as" by simp
  have new: "used_chain m3 q [q]" and size: "blk_size m3 q = n + 24" using q by (simp_all add: m3_def mem_simps)
  have sizes: "\<forall>a \<in> set as. blk_size m3 a = blk_size (mem s) a"
    using header_same_outside[OF so] apart[of q] d by auto
  obtain s1 where page: "pmm_allocpage s = (q, s1)"
    using pg.fst_alloc[OF ok] assms(3) by (cases "pmm_allocpage s") simp
  have s1: "mem s1 = mem s" "pmm_free_blocks s1 = pmm_free_blocks s" "free_pages s1 = qs" "pmm_ok s1"
    using pmm_allocpage_frame[of s] pg.inv_alloc[OF ok] pg.pages_alloc[OF ok] assms(3) page by simp_all
  have more: "trace s1 = trace s" "dev s1 = dev s" "pmm.more s1 = pmm.more s"
    using page ok by (auto simp: pmm_allocpage_def pmm_ok_def Let_def split: if_splits)
  note run = used_chain_find[OF chain, of "n + 24" NULL] assms(2) ok q page s1 m3_def
  show thesis
  proof (cases as rule: rev_cases)
    case Nil
    show thesis
    proof (rule that)
      show "pmm_alloc n s = Some (q + 24, s1\<lparr>mem := m3, pmm_free_blocks := q\<rparr>)"
        using run Nil by (simp add: pmm_alloc_def pmm_ok_def sizeof_memblk_def Let_def)
      show "full_heap (s1\<lparr>mem := m3, pmm_free_blocks := q\<rparr>) (as @ [q])"
        using new d pg s1 Nil by (simp add: full_heap_def)
      show "changes (headers (as @ [q])) (mem s) (mem (s1\<lparr>mem := m3, pmm_free_blocks := q\<rparr>))"
        using c3 by (simp add: Nil headers_one)
    qed (use s1 more size sizes in simp_all)
  next
    case (snoc bs l)
    have l: "l \<noteq> NULL" using pg snoc by (auto simp: pages_ok_def)
    let ?m = "set_blk_next l q m3"
    have cl: "changes (rng l 24) m3 ?m"
      using set_blk_local(2)[OF same_outside_refl, of l m3 q] by (simp add: changes_def same_outside_def rng_def)
    have sep: "\<forall>a \<in> set (bs @ [q]). disj_range l 24 a 24"
      using apart[of l] d snoc by (auto simp del: disj_range_sym)
    have keep: "blk_size ?m a = blk_size m3 a" if "a \<in> set (as @ [q])" for a
      using that sep snoc header_same_outside(1)[OF set_blk_local(2)[OF same_outside_refl, of l m3 q], of a]
      by (cases "a = l") (auto simp: mem_simps)
    show thesis
    proof (rule that)
      show "pmm_alloc n s = Some (q + 24, s1\<lparr>mem := ?m\<rparr>)"
        using run snoc l by (simp add: pmm_alloc_def pmm_ok_def sizeof_memblk_def Let_def)
      show "full_heap (s1\<lparr>mem := ?m\<rparr>) (as @ [q])"
        using used_chain_snoc[OF chain3[unfolded snoc] sep new] d pg s1 by (simp add: full_heap_def snoc)
      show "changes (headers (as @ [q])) (mem s) (mem (s1\<lparr>mem := ?m\<rparr>))"
        using changes_mono[OF changes_trans[OF c3 cl], of "headers (as @ [q])"] by (auto simp: snoc headers_def)
    qed (use s1 more size sizes keep in simp_all)
  qed
qed

text \<open>What is above the allocator's fields stays as it is.\<close>

lemma more_sched:
  assumes "pmm.more s' = pmm.more (s :: 'a sched_scheme)"
  shows "sched_processes_list s' = sched_processes_list s" "sched_current_process s' = sched_current_process s"
    "sched_current_thread s' = sched_current_thread s" "next_free_pid s' = next_free_pid s"
    "next_thread_id s' = next_thread_id s" "idle_process s' = idle_process s" "sched.more s' = sched.more s"
    "hhdm_off s' = hhdm_off s" "vmm_kernel_pagemap s' = vmm_kernel_pagemap s"
    "vmm_current_pagemap s' = vmm_current_pagemap s"
  using assms by (cases s; cases s'; simp)+

section \<open>Structures on pages of their own\<close>

definition structs :: "(ptr \<times> ptr list) list \<Rightarrow> ptr list" where
  "structs ps = map fst ps @ concat (map snd ps)"

text \<open>
  \<open>built as ps s\<close>: the processes \<open>ps\<close> with their threads are the list that starts at \<open>sched_processes_list\<close>, each
  structure sits behind the header of one of the pages \<open>as\<close>, and one of the processes is current.
\<close>

definition built :: "ptr list \<Rightarrow> (ptr \<times> ptr list) list \<Rightarrow> 'a sched_scheme \<Rightarrow> bool" where
  "built as ps s \<longleftrightarrow> full_heap s as \<and> proc_list (mem s) (sched_processes_list s) ps
     \<and> distinct (structs ps) \<and> (\<forall>x \<in> set (structs ps). x - 24 \<in> set as)
     \<and> (\<exists>ts. (sched_current_process s, ts) \<in> set ps \<and> sched_current_thread s \<in> set ts)"

lemma struct_off:
  assumes "changes A m m'" and "A \<inter> rng x 336 = {}"
  shows "p_next m' x = p_next m x" "p_threads m' x = p_threads m x" "p_pid m' x = p_pid m x"
    "t_next m' x = t_next m x" "t_status m' x = t_status m x" "t_frame m' x = t_frame m x"
proof -
  have "A \<inter> rng (x + d) n = {}" if "unat d + n \<le> 336" for d n
    using assms(2) rng_sub[of "x + d" x n 336] that by auto
  note off = load_off[OF assms(1) this]
  show "p_next m' x = p_next m x" "p_threads m' x = p_threads m x" "p_pid m' x = p_pid m x"
    "t_next m' x = t_next m x" "t_status m' x = t_status m x" "t_frame m' x = t_frame m x"
    by (simp_all add: p_next_def p_threads_def p_pid_def t_next_def t_status_def t_frame_def t_context_def
        off(1)[of _ 8] off(2)[of _ 4] off(3))
qed

text \<open>Replacing the end of the process list, and the threads of its last process.\<close>

lemma proc_list_splice:
  assumes "proc_list m l (xs @ (c, ts) # ys)"
    and "\<And>x. x \<in> set (structs xs) \<Longrightarrow> p_next m' x = p_next m x \<and> p_threads m' x = p_threads m x \<and> t_next m' x = t_next m x"
    and "thread_list m' (p_threads m' c) ts'" and "proc_list m' (p_next m' c) zs"
  shows "proc_list m' l (xs @ (c, ts') # zs)"
  using assms(1,2)
proof (induction xs arbitrary: l)
  case Nil
  with assms(3,4) show ?case by simp
next
  case (Cons x xs)
  have "thread_list m' t (snd x) = thread_list m t (snd x)" for t
    using Cons.prems(2) by (intro thread_list_cong) (simp add: structs_def)
  moreover have "proc_list m' (p_next m (fst x)) (xs @ (c, ts') # zs)"
    using Cons.prems by (intro Cons.IH) (auto simp: structs_def)
  ultimately show ?case using Cons.prems by (simp add: structs_def)
qed

lemma proc_list_structs:
  assumes "\<And>x. x \<in> set (structs ps) \<Longrightarrow> p_next m' x = p_next m x \<and> p_threads m' x = p_threads m x \<and> t_next m' x = t_next m x"
  shows "proc_list m' l ps = proc_list m l ps"
  using assms by (intro proc_list_cong) (auto simp: structs_def threads_of_def)

lemma thread_list_snoc:
  assumes "thread_list m t ts" and "ts \<noteq> []" and "\<And>x. x \<in> set (butlast ts) \<Longrightarrow> t_next m' x = t_next m x"
    and "t_next m' (last ts) = n" and "n \<noteq> NULL" and "t_next m' n = NULL"
  shows "thread_list m' t (ts @ [n])"
  using assms
proof (induction ts arbitrary: t)
  case (Cons x ts)
  then show ?case by (cases "ts = []") auto
qed simp

lemma append_thread_last:
  assumes "thread_list m t ts" and "ts \<noteq> []"
  shows "append_thread m t n = Some (set_t_next (last ts) n m)"
  using assms
proof (induction ts arbitrary: t)
  case (Cons x ts)
  then show ?case by (cases ts) (auto simp: append_thread.simps[of m x] append_thread.simps[of m NULL])
qed simp

lemma last_not_butlast: "distinct ts \<Longrightarrow> ts \<noteq> [] \<Longrightarrow> last ts \<notin> set (butlast ts)"
  by (metis append_butlast_last_id distinct_append disjoint_iff list.set_intros(1))

lemma struct_split:
  "set (structs (xs @ (c, ts) # ys)) = set (structs xs) \<union> {c} \<union> set ts \<union> set (structs ys)"
  by (auto simp: structs_def)

lemma structs_Nil [simp]: "structs [] = []" and structs_one: "structs [(p, [])] = [p]"
  by (simp_all add: structs_def)

lemma distinct_structs_swap:
  "distinct (structs (xs @ [(c, ts), (p, us)])) \<longleftrightarrow> distinct (structs (xs @ [(c, ts)])) \<and> p \<notin> set (structs (xs @ [(c, ts)]))
     \<and> p \<notin> set us \<and> distinct us \<and> set us \<inter> set (structs (xs @ [(c, ts)])) = {}"
  by (auto simp: structs_def simp del: set_map)

lemma distinct_structs_thread:
  "distinct (structs (xs @ (c, ts @ [t]) # ys)) \<longleftrightarrow> distinct (structs (xs @ (c, ts) # ys)) \<and> t \<notin> set (structs (xs @ (c, ts) # ys))"
  by (auto simp: structs_def simp del: set_map)

lemma struct_distinct:
  assumes "distinct (structs (xs @ (c, ts) # ys))"
  shows "c \<notin> set (structs xs)" "c \<notin> set ts" "c \<notin> set (structs ys)" "distinct ts" "distinct (structs (xs @ [(c, ts)]))"
    "set ts \<inter> set (structs xs) = {}" "set ts \<inter> set (structs ys) = {}"
  using assms by (auto simp: structs_def simp del: set_map)

lemma built_current:
  assumes "built as (xs @ (sched_current_process s, ts) # ys) s"
  shows "sched_current_thread s \<in> set ts"
proof -
  let ?c = "sched_current_process s"
  obtain us where us: "(?c, us) \<in> set (xs @ (?c, ts) # ys)" "sched_current_thread s \<in> set us"
    using assms by (auto simp: built_def)
  have "(?c, us) \<in> set zs \<Longrightarrow> ?c \<in> set (structs zs)" for zs by (force simp: structs_def)
  moreover have "distinct (structs (xs @ (?c, ts) # ys))" using assms unfolding built_def by blast
  note struct_distinct(1,3)[OF this]
  ultimately show ?thesis using us by auto
qed

lemma list_structs_nonnull: "proc_list m l ps \<Longrightarrow> x \<in> set (structs ps) \<Longrightarrow> x \<noteq> NULL"
  by (induction ps arbitrary: l) (auto simp: structs_def dest: thread_list_nonnull)

section \<open>Names\<close>

text \<open>A string that lies clear of the addresses \<open>A\<close> and is short enough for \<open>strlen\<close>.\<close>

definition name_at :: "ptr set \<Rightarrow> mem \<Rightarrow> ptr \<Rightarrow> u8 list \<Rightarrow> bool" where
  "name_at A m name cs \<longleftrightarrow> cstr_at m name cs \<and> length cs < INT_MAX \<and> rng name (Suc (length cs)) \<inter> A = {}"

lemma name_off:
  assumes "changes A m m'" and "name_at B m name cs" and "A \<subseteq> B"
  shows "name_at B m' name cs"
proof -
  have "A \<inter> rng name (Suc (length cs)) = {}" using assms(2,3) by (auto simp: name_at_def)
  moreover have "Suc (length cs) \<le> 2 ^ 64" using assms(2) by (simp add: name_at_def INT_MAX_def)
  ultimately have "bytes_at m' name (Suc (length cs)) = bytes_at m name (Suc (length cs))"
    using load_off(3)[OF assms(1)] by blast
  then show ?thesis using assms(2) by (simp add: name_at_def cstr_at_def)
qed

lemma copy_name_some:
  assumes "name_at B m name cs"
  obtains m' where "copy_name dest name m = Some m'" "changes (rng dest 100) m m'"
proof -
  define n :: u64 where "n = (if Suc (length cs) \<ge> 100 then 100 else of_nat (Suc (length cs)))"
  have "unat n \<le> 100" by (simp add: n_def unat_of_nat_small del: of_nat_Suc)
  then have "rng dest (unat n) \<subseteq> rng dest 100" by (intro rng_sub) simp
  from changes_stores(4)[OF this changes_refl] have "changes (rng dest 100) m (snd (memcpy dest name n m))" .
  moreover have "copy_name dest name m = Some (snd (memcpy dest name n m))"
    using assms strlen_loop_cstr[of m name cs 0] by (simp add: copy_name_def strlen_def name_at_def n_def)
  ultimately show thesis using that by blast
qed

lemma copy_literal_some:
  assumes "name_at B m name cs" and "length cs < 100"
  obtains m' where "copy_literal dest name m = Some m'" "changes (rng dest 100) m m'"
proof -
  define n :: u64 where "n = of_nat (Suc (length cs))"
  have "unat n \<le> 100" using assms(2) by (simp add: n_def unat_of_nat_small del: of_nat_Suc)
  then have "rng dest (unat n) \<subseteq> rng dest 100" by (intro rng_sub) simp
  from changes_stores(4)[OF this changes_refl] have "changes (rng dest 100) m (snd (memcpy dest name n m))" .
  moreover have "copy_literal dest name m = Some (snd (memcpy dest name n m))"
    using assms strlen_loop_cstr[of m name cs 0] by (simp add: copy_literal_def strlen_def name_at_def n_def)
  ultimately show thesis using that by blast
qed

section \<open>A new process\<close>

lemma free_pages_fields [simp]:
  "free_pages (s\<lparr>next_free_pid := x\<rparr>) = free_pages s" "free_pages (s\<lparr>next_thread_id := x\<rparr>) = free_pages s"
  "free_pages (s\<lparr>idle_process := p\<rparr>) = free_pages s" "free_pages (s\<lparr>sched_current_thread := p\<rparr>) = free_pages s"
  "free_pages (s\<lparr>sched_current_process := p\<rparr>) = free_pages s" "free_pages (s\<lparr>sched_processes_list := p\<rparr>) = free_pages s"
  for s :: "'a sched_scheme"
  by (simp_all add: free_pages_def)

lemma struct_apart:
  assumes "pages_ok P" and "x - 24 \<in> P" "y - 24 \<in> P" "x \<noteq> y" and "n \<le> 4072" "k \<le> 4072"
  shows "rng x n \<inter> rng y k = {}"
proof -
  have "rng x n \<subseteq> rng (x - 24) 4096" "rng y k \<subseteq> rng (y - 24) 4096"
    using assms(5,6) by (auto intro!: rng_sub)
  moreover have "rng (x - 24) 4096 \<inter> rng (y - 24) 4096 = {}"
    using assms(1-4) by (intro page_rng[OF assms(1)]) auto
  ultimately show ?thesis by blast
qed

lemma payload_nonnull:
  assumes "pages_ok P" and "q \<in> P"
  shows "q + 24 \<noteq> NULL"
proof
  assume "q + 24 = NULL"
  then have "unat (q + 24) = 0" by simp
  moreover have "unat q + 24 < 2 ^ 64" using assms aligned_le[of q] by (simp add: pages_ok_def)
  then have "unat (q + 24) = unat q + 24" by (simp add: unat_plus_small)
  ultimately show False by simp
qed

lemma struct_header:
  assumes "pages_ok P" and "x - 24 \<in> P" and "set as \<subseteq> P" and "n \<le> 4072"
  shows "headers as \<inter> rng x n = {}"
  using payload_header[OF assms(1,2,3,4)] by auto

text \<open>All memory of the heap: the pages it has and those it may still take.\<close>

definition heap_area :: "ptr list \<Rightarrow> 'a pmm_scheme \<Rightarrow> ptr set" where
  "heap_area as s = (\<Union>p \<in> set (as @ free_pages s). rng p 4096)"

lemma heap_area_headers: "set bs \<subseteq> set (as @ free_pages s) \<Longrightarrow> headers bs \<subseteq> heap_area as s"
  using rng_sub[of p p 24 4096 for p] by (fastforce simp: headers_def heap_area_def)

lemma heap_area_struct:
  assumes "x - 24 \<in> set (as @ free_pages s)" and "n \<le> 4072"
  shows "rng x n \<subseteq> heap_area as s"
proof -
  have "rng x n \<subseteq> rng (x - 24) 4096" using assms(2) by (intro rng_sub) simp
  then show ?thesis using assms(1) by (auto simp: heap_area_def)
qed

text \<open>What the constructors do not touch beside memory.\<close>

definition beside :: "'a sched_scheme \<Rightarrow> 'a sched_scheme \<Rightarrow> bool" where
  "beside s s' \<longleftrightarrow> sched_processes_list s' = sched_processes_list s
     \<and> sched_current_process s' = sched_current_process s \<and> sched_current_thread s' = sched_current_thread s
     \<and> sched.more s' = sched.more s \<and> dev s' = dev s \<and> hhdm_off s' = hhdm_off s
     \<and> vmm_kernel_pagemap s' = vmm_kernel_pagemap s \<and> vmm_current_pagemap s' = vmm_current_pagemap s"

lemma beside_trans: "beside s t \<Longrightarrow> beside t u \<Longrightarrow> beside s u"
  by (simp add: beside_def)

text \<open>The memory writes of \<open>sched_new\<close>, seen from the list.\<close>

lemma new_process_writes:
  fixes q c :: ptr and pid :: u32 and m :: mem
  assumes "rng q 152 \<inter> rng c 152 = {}"
  defines "m' \<equiv> set_p_next c q (set_p_next q NULL (set_p_threads q NULL (set_p_pid q pid m)))"
  shows "p_next m' c = q" "p_next m' q = NULL" "p_threads m' q = NULL" "p_pid m' q = pid"
    and "p_threads m' c = p_threads m c" "changes (rng q 152 \<union> rng (c + 144) 8) m m'"
proof -
  have d: "disj_range q 152 c 152" using assms(1) by (intro rng_disjD) simp_all
  have f: "disj_range (q + a) i (c + b) j" "disj_range (c + b) j (q + a) i"
    if "unat a + i \<le> 152" "unat b + j \<le> 152" "0 < i" "0 < j" for a b i j
    using that disj_range_fields[OF d, of a i b j] disj_range_sym by blast+
  show "p_next m' c = q" "p_next m' q = NULL" "p_threads m' q = NULL" "p_pid m' q = pid"
    "p_threads m' c = p_threads m c"
    by (simp_all add: m'_def p_next_def p_threads_def p_pid_def set_p_next_def set_p_threads_def set_p_pid_def
        mem_simps f)
  show "changes (rng q 152 \<union> rng (c + 144) 8) m m'"
    unfolding m'_def set_p_next_def set_p_threads_def set_p_pid_def
    using rng_sub[of "q + 144" q 8 152] rng_sub[of "q + 136" q 8 152] rng_sub[of "q + 128" q 4 152]
    by (intro changes_stores changes_refl) auto
qed

text \<open>A write into the structures \<open>D\<close> is seen by no other structure and by no header.\<close>

lemma writes_apart:
  assumes "pages_ok P" and "D \<subseteq> (\<lambda>p. p + 24) ` P" and "W \<subseteq> (\<Union>y \<in> D. rng y 336)"
  shows "x - 24 \<in> P \<Longrightarrow> x \<notin> D \<Longrightarrow> n \<le> 4072 \<Longrightarrow> W \<inter> rng x n = {}"
    and "set as \<subseteq> P \<Longrightarrow> W \<inter> headers as = {}"
proof -
  have D: "y - 24 \<in> P" if "y \<in> D" for y using assms(2) that by auto
  show "W \<inter> rng x n = {}" if "x - 24 \<in> P" "x \<notin> D" "n \<le> 4072"
  proof -
    have "rng y 336 \<inter> rng x n = {}" if "y \<in> D" for y
      using struct_apart[OF assms(1) D[OF that] \<open>x - 24 \<in> P\<close>, of 336 n] that \<open>x \<notin> D\<close> \<open>n \<le> 4072\<close> by auto
    then show ?thesis using assms(3) by blast
  qed
  show "W \<inter> headers as = {}" if "set as \<subseteq> P"
    using struct_header[OF assms(1) D that, of _ 336] assms(3) by fastforce
qed

lemma keep_structs:
  assumes "pages_ok P" and "D \<subseteq> (\<lambda>p. p + 24) ` P" and "W \<subseteq> (\<Union>y \<in> D. rng y 336)"
    and "changes (headers as \<union> W) m m'" and "set as \<subseteq> P" and "x - 24 \<in> P" "x \<notin> D"
  shows "p_next m' x = p_next m x" "p_threads m' x = p_threads m x" "p_pid m' x = p_pid m x"
    "t_next m' x = t_next m x" "t_status m' x = t_status m x" "t_frame m' x = t_frame m x"
proof -
  have "(headers as \<union> W) \<inter> rng x 336 = {}"
    using writes_apart(1)[OF assms(1-3,6,7), of 336] struct_header[OF assms(1,6,5), of 336] by auto
  from struct_off[OF assms(4) this] show "p_next m' x = p_next m x" "p_threads m' x = p_threads m x"
    "p_pid m' x = p_pid m x" "t_next m' x = t_next m x" "t_status m' x = t_status m x" "t_frame m' x = t_frame m x" .
qed

lemma heap_after:
  assumes "full_heap s as" and "changes W (mem s) m" and "D \<subseteq> (\<lambda>p. p + 24) ` set as" and "W \<subseteq> (\<Union>y \<in> D. rng y 336)"
  shows "full_heap (s\<lparr>mem := m\<rparr>) as"
proof -
  have "pages_ok (set as)" using assms(1) by (simp add: full_heap_def pages_ok_def)
  from writes_apart(2)[OF this assms(3,4)] show ?thesis by (intro full_heap_mem[OF assms(1,2)]) simp
qed

lemma built_pages:
  assumes "built as ps s"
  shows "pages_ok (set as \<union> set (free_pages s))" "x \<in> set (structs ps) \<Longrightarrow> x - 24 \<in> set as"
    "q \<in> set (free_pages s) \<Longrightarrow> q + 24 \<notin> set (structs ps)" "q \<in> set (free_pages s) \<Longrightarrow> q \<notin> set as"
  using assms by (auto simp: built_def full_heap_def)

lemma sched_new_built:
  assumes b: "built as (xs @ (c, ts) # ys) s" and c: "c = sched_current_process s"
    and q: "free_pages s = q # qs" and name: "name_at (heap_area as s) (mem s) name cs"
  obtains s' where "sched_new name s = Some (q + 24, s')"
    "built (as @ [q]) (xs @ [(c, ts), (q + 24, [])]) s'" "free_pages s' = qs" "beside s s'"
    "changes (headers (as @ [q]) \<union> (rng (q + 24) 152 \<union> rng (c + 144) 8)) (mem s) (mem s')"
    "p_pid (mem s') (q + 24) = ucast (next_free_pid s)" "trace s' = trace s" "next_free_pid s' = next_free_pid s + 1"
    "next_thread_id s' = next_thread_id s"
proof -
  let ?p = "q + 24" and ?as = "as @ [q]" and ?D = "{q + 24, c}" and ?W = "rng (q + 24) 152 \<union> rng (c + 144) 8"
  note b' = b[unfolded built_def] and pg = built_pages[OF b]
  have P: "pages_ok (set ?as)" using pg(1) q by (simp add: pages_ok_def)
  note d = struct_distinct[OF conjunct1[OF conjunct2[OF conjunct2[OF b']]]]
  have cs: "c \<in> set (structs (xs @ (c, ts) # ys))" by (simp add: struct_split)
  have new: "?p \<notin> set (structs (xs @ (c, ts) # ys))" using pg(3) q by simp
  have D: "?D \<subseteq> (\<lambda>p. p + 24) ` set ?as" using pg(2)[OF cs] by (auto intro!: image_eqI[of _ _ "c - 24"])
  have W: "?W \<subseteq> (\<Union>y \<in> ?D. rng y 336)" using rng_sub[of ?p ?p 152 336] rng_sub[of "c + 144" c 8 336] by auto
  obtain s1 where 1: "pmm_alloc sizeof_process s = Some (?p, s1)" "full_heap s1 ?as" "free_pages s1 = qs"
    "changes (headers ?as) (mem s) (mem s1)" "trace s1 = trace s" "dev s1 = dev s" "pmm.more s1 = pmm.more s"
    using full_alloc[OF conjunct1[OF b'] _ q, of sizeof_process] by (auto simp: sizeof_process_def)
  note more = more_sched[OF 1(7)]
  have "headers ?as \<subseteq> heap_area as s"
    using q by (intro heap_area_headers) auto
  from name_off[OF 1(4) name this] obtain m1 where
    m1: "copy_name ?p name (mem s1) = Some m1" "changes (rng ?p 100) (mem s1) m1"
    using copy_name_some by metis
  have apart: "rng ?p 152 \<inter> rng c 152 = {}"
    using struct_apart[OF P, of ?p c 152 152] new cs pg(2) by auto
  define m5 where "m5 = set_p_next c ?p (set_p_next ?p NULL (set_p_threads ?p NULL (set_p_pid ?p (ucast (next_free_pid s)) m1)))"
  note w = new_process_writes[OF apart, where pid = "ucast (next_free_pid s)" and m = m1, folded m5_def]
  define s' where "s' = s1\<lparr>next_free_pid := next_free_pid s + 1, mem := m5\<rparr>"
  have run: "sched_new name s = Some (?p, s')"
    by (simp add: sched_new_def 1(1) m1(1) m5_def s'_def more c Let_def)
  have "rng ?p 100 \<subseteq> rng ?p 152" by (intro rng_sub) simp
  with changes_trans[OF m1(2) w(6)] have c15: "changes ?W (mem s1) m5" by (auto elim: changes_mono)
  from changes_trans[OF 1(4) this] have c05: "changes (headers ?as \<union> ?W) (mem s) m5" .
  have heap: "full_heap s' ?as"
    using heap_after[OF 1(2) c15 D W] by (simp add: s'_def full_heap_def free_pages_def pmm_ok_def)
  have keep: "p_next m5 x = p_next (mem s) x \<and> p_threads m5 x = p_threads (mem s) x \<and> t_next m5 x = t_next (mem s) x"
    if "x \<in> set (structs xs) \<union> set ts" for x
  proof -
    have "x \<in> set (structs (xs @ (c, ts) # ys))" using that by (auto simp: struct_split)
    then have "x - 24 \<in> set ?as" "x \<notin> ?D" using new pg(2) that d by auto
    from keep_structs[OF P D W c05 _ this] show ?thesis by simp
  qed
  have "(headers ?as \<union> rng ?p 100) \<inter> rng c 336 = {}"
    using struct_apart[OF P, of ?p c 100 336] struct_header[OF P, of c ?as 336] new cs pg(2) by auto
  from struct_off(2)[OF changes_trans[OF 1(4) m1(2)] this] w(5) have "p_threads m5 c = p_threads (mem s) c"
    by simp
  then have tl: "thread_list m5 (p_threads m5 c) ts"
    using proc_list_append[of "mem s" _ xs c ts ys] b' thread_list_cong[of ts m5 "mem s"] keep by auto
  have "proc_list m5 (p_next m5 c) [(?p, [])]" using w(1-3) payload_nonnull[OF P, of q] by simp
  from proc_list_splice[OF conjunct1[OF conjunct2[OF b']] keep tl this]
  have "proc_list m5 (sched_processes_list s) (xs @ (c, ts) # [(?p, [])])" by simp
  then have "proc_list (mem s') (sched_processes_list s') (xs @ [(c, ts), (?p, [])])" by (simp add: s'_def more)
  moreover have "distinct (structs (xs @ [(c, ts), (?p, [])]))"
    using d(5) new by (simp add: distinct_structs_swap struct_split)
  moreover have "\<forall>x \<in> set (structs (xs @ [(c, ts), (?p, [])])). x - 24 \<in> set ?as"
    using pg(2) by (auto simp: struct_split structs_one)
  moreover have "sched_current_thread s' \<in> set ts" "sched_current_process s' = c"
    using built_current[OF b[unfolded c]] by (simp_all add: s'_def more c)
  ultimately have "built ?as (xs @ [(c, ts), (?p, [])]) s'"
    using heap unfolding built_def by (auto intro!: exI[of _ ts])
  then show thesis
    using that[OF run] c05 w(4) 1 more by (simp add: s'_def beside_def)
qed

section \<open>A new thread\<close>

definition t_reg :: "mem \<Rightarrow> ptr \<Rightarrow> u64 \<Rightarrow> u64" where "t_reg m t off = load64 m (t_context t + off)"

text \<open>The two runs of stores of \<open>sched_new_thread\<close>, before and after the stack is allocated.\<close>

definition thread_fields :: "ptr \<Rightarrow> ptr \<Rightarrow> u64 \<Rightarrow> mem \<Rightarrow> mem" where
  "thread_fields t p tid m = set_t_reg t sf_ss 0x10 (set_t_next t NULL (set_t_status t READY
     (set_t_tid t tid (set_t_parent t p m))))"

definition thread_regs :: "ptr \<Rightarrow> u64 \<Rightarrow> u64 \<Rightarrow> mem \<Rightarrow> mem" where
  "thread_regs t rsp func m = set_t_reg t sf_rbp 0 (set_t_reg t sf_rip func (set_t_reg t sf_cs 0x08
     (set_t_reg t sf_rflags 0x202 (set_t_reg t sf_rsp rsp m))))"

lemmas thread_writes = thread_fields_def thread_regs_def set_t_reg_def set_t_next_def set_t_status_def set_t_tid_def
  set_t_parent_def t_context_def sf_ss_def sf_rbp_def sf_rip_def sf_cs_def sf_rflags_def sf_rsp_def

lemmas thread_reads = t_next_def t_status_def t_tid_def t_reg_def

lemma thread_fields_reads:
  "t_next (thread_fields t p tid m) t = NULL" "t_status (thread_fields t p tid m) t = READY"
  "t_tid (thread_fields t p tid m) t = tid" "t_reg (thread_fields t p tid m) t sf_ss = 0x10"
  by (simp_all add: thread_writes thread_reads mem_simps add.assoc)

lemma thread_regs_reads:
  "t_next (thread_regs t rsp func m) t = t_next m t" "t_status (thread_regs t rsp func m) t = t_status m t"
  "t_tid (thread_regs t rsp func m) t = t_tid m t" "t_reg (thread_regs t rsp func m) t sf_ss = t_reg m t sf_ss"
  "t_reg (thread_regs t rsp func m) t sf_rip = func" "t_reg (thread_regs t rsp func m) t sf_cs = 0x08"
  "t_reg (thread_regs t rsp func m) t sf_rflags = 0x202" "t_reg (thread_regs t rsp func m) t sf_rsp = rsp"
  "t_reg (thread_regs t rsp func m) t sf_rbp = 0"
  by (simp_all add: thread_writes thread_reads mem_simps add.assoc)

lemma thread_changes:
  "changes (rng t 336) m (thread_fields t p tid m)" "changes (rng t 336) m (thread_regs t rsp func m)"
  unfolding thread_writes
  by (intro changes_stores changes_refl rng_sub; simp add: add.assoc)+

text \<open>The new thread is hung on the process, or on its last thread.\<close>

definition link_mem :: "ptr \<Rightarrow> ptr list \<Rightarrow> ptr \<Rightarrow> mem \<Rightarrow> mem" where
  "link_mem p ts t m = (if ts = [] then set_p_threads p t m else set_t_next (last ts) t m)"

definition link_struct :: "ptr \<Rightarrow> ptr list \<Rightarrow> ptr" where
  "link_struct p ts = (if ts = [] then p else last ts)"

definition link_slot :: "ptr \<Rightarrow> ptr list \<Rightarrow> ptr" where
  "link_slot p ts = (if ts = [] then p + 136 else last ts + 328)"

lemma link_slot_in: "rng (link_slot p ts) 8 \<subseteq> rng (link_struct p ts) 336"
  by (simp add: link_slot_def link_struct_def rng_sub)

lemma link_run:
  assumes "thread_list m (p_threads m p) ts"
  shows "(if p_threads m p = NULL then Some (set_p_threads p t m) else append_thread m (p_threads m p) t)
    = Some (link_mem p ts t m)"
proof (cases "ts = []")
  case False
  then have "p_threads m p \<noteq> NULL" using assms by (cases ts) auto
  with False append_thread_last[OF assms False] show ?thesis by (simp add: link_mem_def)
qed (use assms in \<open>simp add: link_mem_def\<close>)

lemma link_reads:
  "ts = [] \<Longrightarrow> p_threads (link_mem p ts t m) p = t" "ts = [] \<Longrightarrow> p_next (link_mem p ts t m) p = p_next m p"
  "ts \<noteq> [] \<Longrightarrow> t_next (link_mem p ts t m) (last ts) = t"
  "changes (rng (link_slot p ts) 8) m (link_mem p ts t m)"
proof -
  show "changes (rng (link_slot p ts) 8) m (link_mem p ts t m)"
    unfolding link_mem_def link_slot_def set_p_threads_def set_t_next_def
    by (auto intro!: changes_stores)
qed (simp_all add: link_mem_def p_threads_def set_p_threads_def p_next_def t_next_def set_t_next_def mem_simps)

lemma linked_threads:
  assumes "thread_list m (p_threads m p) ts" and "t \<noteq> NULL" "t_next m' t = NULL"
    and "ts = [] \<Longrightarrow> p_threads m' p = t" and "ts \<noteq> [] \<Longrightarrow> p_threads m' p = p_threads m p"
    and "ts \<noteq> [] \<Longrightarrow> t_next m' (last ts) = t" and "\<And>x. x \<in> set (butlast ts) \<Longrightarrow> t_next m' x = t_next m x"
  shows "thread_list m' (p_threads m' p) (ts @ [t])"
  using assms thread_list_snoc[OF assms(1) _ assms(7,6,2,3)] by (cases "ts = []") auto

lemma name_in_thread: "changes (rng (t_name t) 100) m m' \<Longrightarrow> changes (rng t 336) m m'"
  by (erule changes_mono, rule rng_sub) (simp add: t_name_def)

lemma thread_fields_changes:
  assumes "changes (rng (t_name t) 100) (link_mem p ts t m) m2"
  shows "changes (rng t 336 \<union> rng (link_slot p ts) 8) m (thread_fields t p tid m2)"
  using changes_trans[OF link_reads(4) changes_trans[OF name_in_thread[OF assms] thread_changes(1)[of t m2 p tid]]]
  by (auto elim: changes_mono)

text \<open>All memory effects of \<open>sched_new_thread\<close> in order, from the first allocation to the last store.\<close>

lemma new_thread_memory:
  fixes t rsp func :: u64 and m3 :: mem
  assumes P: "pages_ok P" "set as \<subseteq> P" "t - 24 \<in> P" "l - 24 \<in> P" "t \<noteq> l"
    and "changes (headers as) m0 m0'" and "m1 = link_mem p ts t m0'" "l = link_struct p ts"
    and "changes (rng (t_name t) 100) m1 m2" and "changes (headers as) (thread_fields t p tid m2) m3"
  defines "m' \<equiv> thread_regs t rsp func m3"
  shows "changes (headers as \<union> (rng t 336 \<union> rng (link_slot p ts) 8)) m0 m'"
    and "t_next m' t = NULL" "t_status m' t = READY" "t_tid m' t = tid" "t_reg m' t sf_ss = 0x10"
    and "ts = [] \<Longrightarrow> p_threads m' l = t" "ts = [] \<Longrightarrow> p_next m' l = p_next m0 l" "ts \<noteq> [] \<Longrightarrow> t_next m' l = t"
proof -
  have m7: "changes (rng t 336 \<union> rng (link_slot p ts) 8) m0' (thread_fields t p tid m2)"
    using assms(9) by (intro thread_fields_changes) (simp add: assms(7))
  note c7 = changes_trans[OF name_in_thread[OF assms(9)] thread_changes(1)[of t m2 p tid]]
  have m12: "changes (rng t 336) m3 m'" unfolding m'_def by (rule thread_changes)
  show "changes (headers as \<union> (rng t 336 \<union> rng (link_slot p ts) 8)) m0 m'"
    using changes_trans[OF changes_trans[OF changes_trans[OF assms(6) m7] assms(10)] m12] by (auto elim: changes_mono)
  have ht: "headers as \<inter> rng t 336 = {}" "headers as \<inter> rng l 336 = {}" "rng t 336 \<inter> rng l 336 = {}"
    using struct_header[OF P(1) _ P(2)] P struct_apart[OF P(1,3,4,5)] by simp_all
  have "headers as \<inter> rng t 8 = {}" "headers as \<inter> rng (t_context t + sf_ss) 8 = {}"
    using ht(1) rng_sub[of t t 8 336] rng_sub[of "t_context t + sf_ss" t 8 336]
    by (auto simp: t_context_def sf_ss_def add.assoc)
  then have "t_tid m3 t = tid" "t_reg m3 t sf_ss = 0x10"
    using load_off(1)[OF assms(10)] thread_fields_reads[of t p tid m2] by (simp_all add: t_tid_def t_reg_def)
  then show "t_next m' t = NULL" "t_status m' t = READY" "t_tid m' t = tid" "t_reg m' t sf_ss = 0x10"
    using struct_off(4,5)[OF assms(10) ht(1)] by (simp_all add: m'_def thread_regs_reads thread_fields_reads)
  have "changes (headers as \<union> rng t 336) m1 m'"
    using changes_trans[OF changes_trans[OF c7 assms(10)] m12] by (auto elim: changes_mono)
  moreover have "(headers as \<union> rng t 336) \<inter> rng l 336 = {}" using ht by auto
  ultimately have "p_threads m' l = p_threads m1 l" "p_next m' l = p_next m1 l" "t_next m' l = t_next m1 l"
    using struct_off by blast+
  moreover have "p_next m0' l = p_next m0 l" using struct_off(1)[OF assms(6) ht(2)] .
  ultimately show "ts = [] \<Longrightarrow> p_threads m' l = t" "ts = [] \<Longrightarrow> p_next m' l = p_next m0 l" "ts \<noteq> [] \<Longrightarrow> t_next m' l = t"
    using link_reads(1-3)[of ts] by (simp_all add: assms(7,8) link_struct_def)
qed

text \<open>The lists after the structure that precedes the new thread has been linked to it.\<close>

lemma proc_list_thread_appended:
  assumes pl: "proc_list m start (xs @ (p, ts) # ys)" and dist: "distinct (structs (xs @ (p, ts) # ys))"
    and "t \<noteq> NULL" and "t_next m' t = NULL"
  defines "l \<equiv> link_struct p ts"
  assumes link: "ts = [] \<Longrightarrow> p_threads m' l = t" "ts = [] \<Longrightarrow> p_next m' l = p_next m l" "ts \<noteq> [] \<Longrightarrow> t_next m' l = t"
    and keep: "\<And>x. x \<in> set (structs (xs @ (p, ts) # ys)) \<Longrightarrow> x \<noteq> l \<Longrightarrow>
      p_next m' x = p_next m x \<and> p_threads m' x = p_threads m x \<and> t_next m' x = t_next m x"
  shows "proc_list m' start (xs @ (p, ts @ [t]) # ys)"
proof -
  note d = struct_distinct[OF dist] and all = struct_split[of xs p ts ys]
  have tl: "thread_list m (p_threads m p) ts" using proc_list_append[OF pl] by simp
  have apart: "x \<noteq> l" if "x \<in> set (structs xs) \<union> set (structs ys) \<union> set (butlast ts)" for x
  proof (cases "ts = []")
    case True
    with that d show ?thesis by (auto simp: l_def link_struct_def)
  next
    case False
    then have "l = last ts" "l \<in> set ts" by (simp_all add: l_def link_struct_def)
    with that d last_not_butlast[OF d(4) False] show ?thesis by blast
  qed
  have "p \<noteq> l" if "ts \<noteq> []" using d(2) last_in_set[OF that] that by (auto simp: l_def link_struct_def)
  moreover have "l = p" if "ts = []" using that by (simp add: l_def link_struct_def)
  ultimately have ends: "p_next m' p = p_next m p" "ts \<noteq> [] \<Longrightarrow> p_threads m' p = p_threads m p"
    using keep[of p] link(2) by (metis UnI1 UnI2 all singletonI)+
  have "thread_list m' (p_threads m' p) (ts @ [t])"
    using tl assms(3,4) _ ends(2)
  proof (rule linked_threads)
    show "ts = [] \<Longrightarrow> p_threads m' p = t" "ts \<noteq> [] \<Longrightarrow> t_next m' (last ts) = t"
      using link(1,3) by (simp_all add: l_def link_struct_def)
    show "t_next m' x = t_next m x" if "x \<in> set (butlast ts)" for x
      using keep[of x] apart[of x] that by (auto simp: all dest: in_set_butlastD)
  qed
  moreover have "proc_list m' (p_next m' p) ys"
    using proc_list_append[OF pl] ends(1) proc_list_structs[of ys m' m] keep apart by (simp add: all)
  ultimately show ?thesis
    using keep apart by (intro proc_list_splice[OF pl]) (auto simp: all)
qed

text \<open>The first half of \<open>sched_new_thread\<close>: the block, the link to it, and the copy of the name.\<close>

lemma thread_block:
  assumes b: "built as (xs @ (p, ts) # ys) s" and q: "free_pages s = q # rs"
    and name: "name_at (heap_area as s) (mem s) name cs"
  defines "t \<equiv> q + 24"
  obtains s1 m2 where "pmm_alloc sizeof_thread s = Some (t, s1)" "full_heap s1 (as @ [q])" "free_pages s1 = rs"
    "changes (headers (as @ [q])) (mem s) (mem s1)" "trace s1 = trace s" "dev s1 = dev s" "pmm.more s1 = pmm.more s"
    "blk_size (mem s1) q = 360" "thread_list (mem s1) (p_threads (mem s1) p) ts"
    "copy_name (t_name t) name (link_mem p ts t (mem s1)) = Some m2"
    "changes (rng (t_name t) 100) (link_mem p ts t (mem s1)) m2"
proof -
  note b' = b[unfolded built_def] and pg = built_pages[OF b]
  have P: "pages_ok (set (as @ [q]))" using pg(1) q by (simp add: pages_ok_def)
  have all: "set (structs (xs @ (p, ts) # ys)) = set (structs xs) \<union> {p} \<union> set ts \<union> set (structs ys)"
    by (rule struct_split)
  have ls: "link_struct p ts \<in> set (structs (xs @ (p, ts) # ys))" by (auto simp: link_struct_def all)
  have tl: "thread_list (mem s) (p_threads (mem s) p) ts"
    using proc_list_append[OF conjunct1[OF conjunct2[OF b']]] by simp
  obtain s1 where 1: "pmm_alloc sizeof_thread s = Some (t, s1)" "full_heap s1 (as @ [q])" "free_pages s1 = rs"
    "changes (headers (as @ [q])) (mem s) (mem s1)" "trace s1 = trace s" "dev s1 = dev s" "pmm.more s1 = pmm.more s"
    "blk_size (mem s1) q = 360"
    using full_alloc[OF conjunct1[OF b'] _ q, of sizeof_thread] by (auto simp: sizeof_thread_def t_def)
  have off1: "headers (as @ [q]) \<inter> rng x 336 = {}" if "x \<in> set (structs (xs @ (p, ts) # ys))" for x
    using struct_header[OF P, of x "as @ [q]" 336] pg(2)[OF that] by auto
  have "p_threads (mem s1) p = p_threads (mem s) p" "\<And>x. x \<in> set ts \<Longrightarrow> t_next (mem s1) x = t_next (mem s) x"
    using struct_off(2,4)[OF 1(4) off1] by (simp_all add: all)
  with tl have tl1: "thread_list (mem s1) (p_threads (mem s1) p) ts" using thread_list_cong[of ts "mem s1" "mem s"] by simp
  have area: "headers (as @ [q]) \<subseteq> heap_area as s" "rng (link_struct p ts) 336 \<subseteq> heap_area as s"
    using q pg(2)[OF ls] by (intro heap_area_headers heap_area_struct; auto)+
  have "changes (rng (link_struct p ts) 336) (mem s1) (link_mem p ts t (mem s1))"
    using changes_mono[OF link_reads(4) link_slot_in, of p ts "mem s1" t] .
  from name_off[OF this name_off[OF 1(4) name area(1)] area(2)] show ?thesis
    using that[OF 1 tl1] copy_name_some by metis
qed

lemma sched_new_thread_built:
  fixes func :: u64
  assumes b: "built as (xs @ (p, ts) # ys) s" and q: "free_pages s = q # r # qs"
    and name: "name_at (heap_area as s) (mem s) name cs"
  defines "t \<equiv> q + 24" and "l \<equiv> link_struct p ts"
  obtains s' where "sched_new_thread p name func s = Some (t, s')"
    "built (as @ [q, r]) (xs @ (p, ts @ [t]) # ys) s'" "free_pages s' = qs" "beside s s'"
    "changes (headers (as @ [q, r]) \<union> (rng t 336 \<union> rng (link_slot p ts) 8)) (mem s) (mem s')"
    "t_status (mem s') t = READY" "t_tid (mem s') t = next_thread_id s"
    "t_reg (mem s') t sf_rip = func" "t_reg (mem s') t sf_cs = 0x08" "t_reg (mem s') t sf_ss = 0x10"
    "t_reg (mem s') t sf_rflags = 0x202" "t_reg (mem s') t sf_rsp = r + 4119" "t_reg (mem s') t sf_rbp = 0"
    "trace s' = trace s @ [Logln Lg_info ''sched'' ''new thread %d\<newline>'' [next_thread_id s]]"
    "blk_size (mem s') q = 360" "blk_size (mem s') r = 4120" "next_thread_id s' = next_thread_id s + 1"
proof -
  let ?as = "as @ [q, r]"
  note b' = b[unfolded built_def] and pg = built_pages[OF b]
  have P: "pages_ok (set ?as)" using pg(1) q by (simp add: pages_ok_def)
  note pl = conjunct1[OF conjunct2[OF b']]
  have all: "set (structs (xs @ (p, ts) # ys)) = set (structs xs) \<union> {p} \<union> set ts \<union> set (structs ys)"
    by (rule struct_split)
  have ls: "l \<in> set (structs (xs @ (p, ts) # ys))" by (auto simp: l_def link_struct_def all)
  have new: "t \<notin> set (structs (xs @ (p, ts) # ys))" using pg(3) q by (simp add: t_def)
  obtain s1 m2 where 1: "pmm_alloc sizeof_thread s = Some (t, s1)" "full_heap s1 (as @ [q])" "free_pages s1 = r # qs"
    "changes (headers (as @ [q])) (mem s) (mem s1)" "trace s1 = trace s" "dev s1 = dev s" "pmm.more s1 = pmm.more s"
    "blk_size (mem s1) q = 360" and tl1: "thread_list (mem s1) (p_threads (mem s1) p) ts"
    and m2': "copy_name (t_name t) name (link_mem p ts t (mem s1)) = Some m2"
      "changes (rng (t_name t) 100) (link_mem p ts t (mem s1)) m2"
    using thread_block[OF b q name] unfolding t_def by metis
  note more1 = more_sched[OF 1(7)]
  define m1 where "m1 = link_mem p ts t (mem s1)"
  note m2 = m2'[folded m1_def]
  define m7 where "m7 = thread_fields t p (next_thread_id s) m2"
  define s2 where "s2 = s1\<lparr>next_thread_id := next_thread_id s + 1, mem := m7\<rparr>"
  let ?D = "{t, l}" and ?W = "rng t 336 \<union> rng (link_slot p ts) 8"
  have D: "?D \<subseteq> (\<lambda>p. p + 24) ` set (as @ [q])" "?D \<subseteq> (\<lambda>p. p + 24) ` set ?as"
    using pg(2)[OF ls] by (auto simp: t_def intro!: image_eqI[of _ _ "l - 24"])
  have W: "?W \<subseteq> (\<Union>y \<in> ?D. rng y 336)" using link_slot_in[of p ts] by (auto simp: l_def)
  have "headers (as @ [q]) \<subseteq> headers ?as" by (auto simp: headers_def)
  note ch1 = changes_mono[OF 1(4) this]
  have tl_pages: "t - 24 \<in> set ?as" "l - 24 \<in> set ?as" "t \<noteq> l" using pg(2)[OF ls] new ls by (auto simp: t_def)
  have c7: "changes ?W (mem s1) m7"
    using thread_fields_changes[OF m2(2)[unfolded m1_def]] by (simp add: m7_def)
  have "full_heap s2 (as @ [q])"
    using heap_after[OF 1(2) c7 D(1) W] by (simp add: s2_def full_heap_def free_pages_def pmm_ok_def)
  moreover have "free_pages s2 = r # qs" by (simp add: s2_def 1(3))
  ultimately obtain s3 where 3: "pmm_alloc 4096 s2 = Some (r + 24, s3)" "full_heap s3 ?as" "free_pages s3 = qs"
    "changes (headers ?as) (mem s2) (mem s3)" "trace s3 = trace s2" "dev s3 = dev s2" "pmm.more s3 = pmm.more s2"
    "blk_size (mem s3) q = blk_size (mem s2) q" "blk_size (mem s3) r = 4120"
    using full_alloc[of s2 "as @ [q]" 4096 r qs] by auto
  note more3 = more_sched[OF 3(7)]
  have ch3: "changes (headers ?as) m7 (mem s3)" using 3(4) by (simp add: s2_def)
  define m' where "m' = thread_regs t (r + 4119) func (mem s3)"
  define s' where "s' = logln Lg_info ''sched'' ''new thread %d\<newline>'' [next_thread_id s] (s3\<lparr>mem := m'\<rparr>)"
  note mm = new_thread_memory[OF P order_refl tl_pages ch1 m1_def meta_eq_to_obj_eq[OF l_def] m2(2) ch3[unfolded m7_def],
      of "r + 4119" func, folded m'_def]
  have stack: "sched_alloc_stack s2 = Some (r + 4119, s3)" by (simp add: sched_alloc_stack_def 3(1))
  have run: "sched_new_thread p name func s = Some (t, s')"
    using mm(4) by (simp add: sched_new_thread_def 1(1) link_run[OF tl1] m1_def[symmetric] m2(1) more1 Let_def
        thread_fields_def[symmetric] m7_def[symmetric] s2_def[symmetric] stack thread_regs_def[symmetric] m'_def[symmetric] s'_def)
  have "next_thread_id s3 = next_thread_id s + 1" using more3(5) by (simp add: s2_def)
  then have count: "next_thread_id s' = next_thread_id s + 1" by (simp add: s'_def emit_def)
  have "full_heap (s3\<lparr>mem := m'\<rparr>) ?as"
    unfolding m'_def using thread_changes(2) by (rule heap_after[OF 3(2), where D = "{t}"]) (use D(2) in auto)
  then have heap: "full_heap s' ?as" by (simp add: s'_def full_heap_def)
  have keep: "p_next m' x = p_next (mem s) x \<and> p_threads m' x = p_threads (mem s) x \<and> t_next m' x = t_next (mem s) x"
    if "x \<in> set (structs (xs @ (p, ts) # ys))" "x \<noteq> l" for x
  proof -
    have "x - 24 \<in> set ?as" "x \<notin> ?D" using pg(2)[OF that(1)] that new by auto
    from keep_structs[OF P D(2) W mm(1) order_refl this] show ?thesis by simp
  qed
  have "t \<noteq> NULL" using payload_nonnull[OF P, of q] by (simp add: t_def)
  from proc_list_thread_appended[OF pl conjunct1[OF conjunct2[OF conjunct2[OF b']]] this mm(2), folded l_def]
  have "proc_list m' (sched_processes_list s) (xs @ (p, ts @ [t]) # ys)"
    using mm(6-8) keep by blast
  then have "proc_list (mem s') (sched_processes_list s') (xs @ (p, ts @ [t]) # ys)"
    by (simp add: s'_def more1 more3 s2_def emit_def)
  moreover have "distinct (structs (xs @ (p, ts @ [t]) # ys))"
    using b' new by (simp add: distinct_structs_thread)
  moreover have "\<forall>x \<in> set (structs (xs @ (p, ts @ [t]) # ys)). x - 24 \<in> set ?as"
    using pg(2) tl_pages by (auto simp: struct_split)
  moreover have "beside s s'"
    using 1 3 more1 more3 by (simp add: beside_def s'_def s2_def emit_def)
  moreover have "\<exists>us. (sched_current_process s, us) \<in> set (xs @ (p, ts @ [t]) # ys) \<and> sched_current_thread s \<in> set us"
    using b' by auto
  ultimately have "built ?as (xs @ (p, ts @ [t]) # ys) s'"
    using heap by (simp add: built_def beside_def)
  moreover have "blk_size (mem s') q = 360" "blk_size (mem s') r = 4120"
  proof -
    have apart: "W \<inter> headers [a] = {}" if "W \<subseteq> (\<Union>y \<in> ?D. rng y 336)" "a \<in> {q, r}" for W a
      using writes_apart(2)[OF P D(2) that(1), of "[a]"] that(2) by auto
    from apart[OF W] have "blk_size m7 q = blk_size (mem s1) q"
      using header_cong(3)[OF c7] by (auto simp: headers_one)
    moreover have "blk_size m' a = blk_size (mem s3) a" if "a \<in> {q, r}" for a
      using apart[of "rng t 336" a] that header_cong(3)[OF thread_changes(2)] by (auto simp: headers_one m'_def)
    ultimately show "blk_size (mem s') q = 360" "blk_size (mem s') r = 4120"
      using 1(8) 3(8,9) by (simp_all add: s'_def s2_def)
  qed
  ultimately show thesis
    using that[OF run] \<open>beside s s'\<close> mm 3 1 count by (simp add: s'_def m'_def thread_regs_reads s2_def)
qed

section \<open>The first process and its thread\<close>

text \<open>\<open>sched_init\<close> up to the creation of the idle process.\<close>

definition sched_init_kernel :: "ptr \<Rightarrow> 'a sched_scheme \<Rightarrow> 'a sched_scheme option" where
  "sched_init_kernel kernel_str s =
     Option.bind (pmm_alloc sizeof_process s) (\<lambda>(process, s1).
     Option.bind (copy_literal process kernel_str (mem s1)) (\<lambda>m1.
       let m3 = set_p_next process NULL (set_p_pid process (- 1) m1);
           s2 = s1\<lparr>sched_current_process := process, sched_processes_list := process, mem := m3\<rparr>
       in Option.bind (pmm_alloc sizeof_thread s2) (\<lambda>(thread, s3).
          map_option (\<lambda>m4. s3\<lparr>sched_current_thread := thread, mem := set_p_threads process thread
              (set_t_next thread NULL (set_t_tid thread (- 1) m4))\<rparr>)
            (copy_literal (t_name thread) kernel_str (mem s3)))))"

lemma sched_init_split:
  "sched_init kernel_str idle_str sched_idle s = Option.bind (sched_init_kernel kernel_str s) (\<lambda>s4.
     Option.bind (sched_new idle_str s4) (\<lambda>(idle_proc, s5).
       map_option snd (sched_new_thread idle_proc idle_str sched_idle (s5\<lparr>idle_process := idle_proc\<rparr>))))"
  by (simp add: sched_init_def sched_init_kernel_def Let_def case_prod_unfold bind_map_option comp_def)

lemma kernel_thread_writes:
  assumes "rng k 336 \<inter> rng t 336 = {}"
  defines "m' \<equiv> \<lambda>m. set_p_threads k t (set_t_next t NULL (set_t_tid t (- 1) m))"
  shows "p_threads (m' m) k = t" "p_next (m' m) k = p_next m k" "t_next (m' m) t = NULL"
    "changes (rng k 336 \<union> rng t 336) m (m' m)"
proof -
  have d: "disj_range k 336 t 336" using assms(1) by (intro rng_disjD) simp_all
  have f: "disj_range (k + a) i (t + b) j" "disj_range (t + b) j (k + a) i"
    if "unat a + i \<le> 336" "unat b + j \<le> 336" "0 < i" "0 < j" for a b i j
    using that disj_range_fields[OF d, of a i b j] disj_range_sym by blast+
  note g = f(2)[of _ _ 0, simplified]
  show "p_threads (m' m) k = t" "p_next (m' m) k = p_next m k" "t_next (m' m) t = NULL"
    by (simp_all add: m'_def p_next_def p_threads_def t_next_def set_p_threads_def set_t_next_def set_t_tid_def mem_simps f g)
  show "changes (rng k 336 \<union> rng t 336) m (m' m)"
    unfolding m'_def set_p_threads_def set_t_next_def set_t_tid_def
    using rng_sub[of "k + 136" k 8 336] rng_sub[of "t + 328" t 8 336] rng_sub[of t t 8 336]
    by (intro changes_stores changes_refl) auto
qed

lemma kernel_process_built:
  assumes heap: "full_heap s as" and q: "free_pages s = k # t # qs"
    and name: "name_at (heap_area as s) (mem s) name cs" "length cs < 100"
  defines "K \<equiv> k + 24" and "T \<equiv> t + 24"
  obtains s' where "sched_init_kernel name s = Some s'" "built (as @ [k, t]) [(K, [T])] s'" "free_pages s' = qs"
    "sched_processes_list s' = K" "sched_current_process s' = K" "sched_current_thread s' = T"
    "changes (headers (as @ [k, t]) \<union> (rng K 336 \<union> rng T 336)) (mem s) (mem s')" "trace s' = trace s" "dev s' = dev s"
    "sched.more s' = sched.more s" "hhdm_off s' = hhdm_off s" "vmm_kernel_pagemap s' = vmm_kernel_pagemap s"
    "vmm_current_pagemap s' = vmm_current_pagemap s" "next_free_pid s' = next_free_pid s" "next_thread_id s' = next_thread_id s"
proof -
  let ?as = "as @ [k, t]" and ?D = "{K, T}" and ?W = "rng K 336 \<union> rng T 336"
  have P: "pages_ok (set ?as)" "k \<noteq> t" using heap q by (auto simp: full_heap_def pages_ok_def)
  have D: "{K} \<subseteq> (\<lambda>p. p + 24) ` set (as @ [k])" "?D \<subseteq> (\<lambda>p. p + 24) ` set ?as" by (auto simp: K_def T_def)
  have pages: "K - 24 \<in> set ?as" "T - 24 \<in> set ?as" "K \<noteq> T" using P(2) by (auto simp: K_def T_def)
  have KT: "rng K 336 \<inter> rng T 336 = {}" using struct_apart[OF P(1) pages] by simp
  obtain s1 where 1: "pmm_alloc sizeof_process s = Some (K, s1)" "full_heap s1 (as @ [k])" "free_pages s1 = t # qs"
    "changes (headers (as @ [k])) (mem s) (mem s1)" "trace s1 = trace s" "dev s1 = dev s" "pmm.more s1 = pmm.more s"
    using full_alloc[OF heap _ q, of sizeof_process] by (auto simp: sizeof_process_def K_def)
  have area: "headers (as @ [k]) \<subseteq> heap_area as s" "headers ?as \<subseteq> heap_area as s" "rng K 336 \<subseteq> heap_area as s"
    using q by (intro heap_area_headers heap_area_struct; auto simp: K_def)+
  note name1 = name_off[OF 1(4) name(1) area(1)]
  obtain m1 where m1: "copy_literal K name (mem s1) = Some m1" "changes (rng K 100) (mem s1) m1"
    using copy_literal_some[OF name1 name(2)] by metis
  define m3 where "m3 = set_p_next K NULL (set_p_pid K (- 1) m1)"
  have c3: "changes (rng K 336) (mem s1) m3"
    using m1(2) rng_sub[of K K 100 336] rng_sub[of "K + 144" K 8 336] rng_sub[of "K + 128" K 4 336]
    unfolding m3_def set_p_next_def set_p_pid_def by (auto intro!: changes_stores elim: changes_mono)
  define s2 where "s2 = s1\<lparr>sched_current_process := K, sched_processes_list := K, mem := m3\<rparr>"
  have "full_heap s2 (as @ [k])"
    using heap_after[OF 1(2) c3 D(1)] by (simp add: s2_def full_heap_def free_pages_def pmm_ok_def)
  moreover have "free_pages s2 = t # qs" by (simp add: s2_def 1(3))
  ultimately obtain s3 where 3: "pmm_alloc sizeof_thread s2 = Some (T, s3)" "full_heap s3 ?as" "free_pages s3 = qs"
    "changes (headers ?as) m3 (mem s3)" "trace s3 = trace s2" "dev s3 = dev s2" "pmm.more s3 = pmm.more s2"
    using full_alloc[of s2 "as @ [k]" sizeof_thread t qs] by (auto simp: sizeof_thread_def T_def s2_def)
  note more = more_sched[OF 1(7)] more_sched[OF 3(7)]
  note name3 = name_off[OF 3(4) name_off[OF c3 name1 area(3)] area(2)]
  obtain m4 where m4: "copy_literal (t_name T) name (mem s3) = Some m4" "changes (rng (t_name T) 100) (mem s3) m4"
    using copy_literal_some[OF name3 name(2)] by metis
  define m7 where "m7 = set_p_threads K T (set_t_next T NULL (set_t_tid T (- 1) m4))"
  note w = kernel_thread_writes[OF KT, of m4, folded m7_def]
  define s' where "s' = s3\<lparr>sched_current_thread := T, mem := m7\<rparr>"
  have run: "sched_init_kernel name s = Some s'"
    by (simp add: sched_init_kernel_def 1(1) m1(1) Let_def m3_def[symmetric] s2_def[symmetric] 3(1) m4(1) m7_def s'_def)
  have c37: "changes ?W (mem s3) m7" using changes_trans[OF name_in_thread[OF m4(2)] w(4)] by (auto elim: changes_mono)
  have ch: "changes (headers ?as \<union> ?W) (mem s) m7"
    by (rule changes_mono[OF changes_trans[OF changes_trans[OF changes_trans[OF 1(4) c3] 3(4)] c37]]) (auto simp: headers_def)
  have heap': "full_heap s' ?as"
    using heap_after[OF 3(2) c37 D(2)] by (simp add: s'_def full_heap_def free_pages_def pmm_ok_def)
  have "p_next m7 K = p_next m3 K"
  proof -
    have "(headers ?as \<union> rng T 336) \<inter> rng K 336 = {}" using KT struct_header[OF P(1) pages(1) order_refl, of 336] by auto
    with struct_off(1)[OF changes_trans[OF 3(4) name_in_thread[OF m4(2)]]] w(2) show ?thesis by simp
  qed
  then have "p_next m7 K = NULL" by (simp add: m3_def p_next_def set_p_next_def)
  moreover have "K \<noteq> NULL" "T \<noteq> NULL" using payload_nonnull[OF P(1)] by (simp_all add: K_def T_def)
  ultimately have "proc_list (mem s') K [(K, [T])]" using w(1,3) by (simp add: s'_def)
  moreover have fields: "sched_processes_list s' = K" "sched_current_process s' = K" "sched_current_thread s' = T"
    by (simp_all add: s'_def more s2_def)
  ultimately have "built ?as [(K, [T])] s'"
    using heap' pages by (simp add: built_def structs_def)
  then show thesis
    using that[OF run _ _ fields] ch 1 3 more by (simp add: s'_def s2_def)
qed

text \<open>Names survive the constructors, which write to the heap's own memory only.\<close>

lemma heap_area_grow:
  assumes "free_pages s = qs @ free_pages s'"
  shows "heap_area (as @ qs) s' = heap_area as s"
  using assms by (auto simp: heap_area_def)

lemma area_changes:
  assumes "changes (headers bs \<union> W) m m'" and "set bs \<subseteq> set (as @ free_pages s)"
    and "W \<subseteq> (\<Union>y \<in> D. rng y 336)" and "D \<subseteq> (\<lambda>p. p + 24) ` set bs"
  shows "changes (heap_area as s) m m'"
proof -
  have "y - 24 \<in> set bs" if "y \<in> D" for y using assms(4) that by auto
  then have "rng y 336 \<subseteq> heap_area as s" if "y \<in> D" for y
    using assms(2) that by (intro heap_area_struct) auto
  then have "headers bs \<union> W \<subseteq> heap_area as s" using heap_area_headers[OF assms(2)] assms(3) by blast
  with assms(1) show ?thesis by (rule changes_mono)
qed

lemma changes_same_trans: "changes A m m' \<Longrightarrow> changes A m' m'' \<Longrightarrow> changes A m m''"
  by (simp add: changes_def)

lemma sched_init_built:
  assumes heap: "full_heap s as" and q: "free_pages s = k # t # i # j # r # qs"
    and names: "name_at (heap_area as s) (mem s) kname ks" "length ks < 100" "name_at (heap_area as s) (mem s) iname is"
  obtains s' where "sched_init kname iname func s = Some s'"
    "built (as @ [k, t, i, j, r]) [(k + 24, [t + 24]), (i + 24, [j + 24])] s'" "free_pages s' = qs"
    "sched_processes_list s' = k + 24" "sched_current_process s' = k + 24" "sched_current_thread s' = t + 24"
    "changes (heap_area as s) (mem s) (mem s')" "dev s' = dev s" "sched.more s' = sched.more s" "hhdm_off s' = hhdm_off s"
    "vmm_kernel_pagemap s' = vmm_kernel_pagemap s" "vmm_current_pagemap s' = vmm_current_pagemap s"
    "trace s' = trace s @ [Logln Lg_info ''sched'' ''new thread %d\<newline>'' [next_thread_id s]]"
    "next_thread_id s' = next_thread_id s + 1"
proof -
  let ?K = "k + 24" and ?T = "t + 24" and ?I = "i + 24" and ?J = "j + 24"
  obtain s4 where 4: "sched_init_kernel kname s = Some s4" "built (as @ [k, t]) [(?K, [?T])] s4" "free_pages s4 = i # j # r # qs"
    "sched_processes_list s4 = ?K" "sched_current_process s4 = ?K" "sched_current_thread s4 = ?T"
    "changes (headers (as @ [k, t]) \<union> (rng ?K 336 \<union> rng ?T 336)) (mem s) (mem s4)" "dev s4 = dev s"
    "sched.more s4 = sched.more s" "hhdm_off s4 = hhdm_off s" "vmm_kernel_pagemap s4 = vmm_kernel_pagemap s"
    "vmm_current_pagemap s4 = vmm_current_pagemap s" "trace s4 = trace s" "next_thread_id s4 = next_thread_id s"
    using kernel_process_built[OF heap q names(1,2)] by metis
  have a4: "heap_area (as @ [k, t]) s4 = heap_area as s" using q 4(3) by (intro heap_area_grow) simp
  have c4: "changes (heap_area as s) (mem s) (mem s4)"
    using 4(7) by (rule area_changes[where D = "{?K, ?T}"]) (use q in auto)
  have n4: "name_at (heap_area (as @ [k, t]) s4) (mem s4) iname is"
    unfolding a4 using name_off[OF c4 names(3) order_refl] .
  have b4: "built (as @ [k, t]) ([] @ (?K, [?T]) # []) s4" using 4(2) by simp
  obtain s5 where "sched_new iname s4 = Some (?I, s5)"
    "built ((as @ [k, t]) @ [i]) ([] @ [(?K, [?T]), (?I, [])]) s5" "free_pages s5 = j # r # qs" "beside s4 s5"
    "changes (headers ((as @ [k, t]) @ [i]) \<union> (rng ?I 152 \<union> rng (?K + 144) 8)) (mem s4) (mem s5)"
    "trace s5 = trace s4" "next_thread_id s5 = next_thread_id s4"
    by (rule sched_new_built[OF b4 4(5)[symmetric] 4(3) n4])
  then have 5: "sched_new iname s4 = Some (?I, s5)" "built (as @ [k, t, i]) [(?K, [?T]), (?I, [])] s5"
    "free_pages s5 = j # r # qs" "beside s4 s5"
    "changes (headers (as @ [k, t, i]) \<union> (rng ?I 152 \<union> rng (?K + 144) 8)) (mem s4) (mem s5)"
    "trace s5 = trace s" "next_thread_id s5 = next_thread_id s" by (simp_all add: 4(13,14))
  let ?s5 = "s5\<lparr>idle_process := ?I\<rparr>"
  have a5: "heap_area (as @ [k, t, i]) s5 = heap_area as s"
    using heap_area_grow[of s "[k, t, i]" s5 as] q 5(3) by simp
  have sub5: "rng ?I 152 \<union> rng (?K + 144) 8 \<subseteq> (\<Union>y \<in> {?I, ?K}. rng y 336)"
    using rng_sub[of ?I ?I 152 336] rng_sub[of "?K + 144" ?K 8 336] by auto
  have c5: "changes (heap_area as s) (mem s4) (mem s5)"
    using 5(5) by (rule area_changes[OF _ _ sub5]) (use q in auto)
  have n5: "name_at (heap_area as s) (mem s5) iname is"
    using name_off[OF c5 n4[unfolded a4] order_refl] .
  have b5: "built (as @ [k, t, i]) ([(?K, [?T])] @ (?I, []) # []) ?s5" using 5(2)
    by (simp add: built_def full_heap_def free_pages_def pmm_ok_def)
  obtain s6 where 6: "sched_new_thread ?I iname func ?s5 = Some (?J, s6)"
    "built ((as @ [k, t, i]) @ [j, r]) ([(?K, [?T])] @ (?I, [] @ [?J]) # []) s6"
    "free_pages s6 = qs" "beside ?s5 s6"
    "changes (headers ((as @ [k, t, i]) @ [j, r]) \<union> (rng ?J 336 \<union> rng (link_slot ?I []) 8)) (mem ?s5) (mem s6)"
    "trace s6 = trace ?s5 @ [Logln Lg_info ''sched'' ''new thread %d\<newline>'' [next_thread_id ?s5]]"
    "next_thread_id s6 = next_thread_id ?s5 + 1"
    by (rule sched_new_thread_built[OF b5, of j r qs iname "is" func]) (use 5(3) n5 a5 in \<open>simp_all add: heap_area_def\<close>)
  have c6: "changes (heap_area as s) (mem s5) (mem s6)"
    using 6(5) link_slot_in[of ?I "[]"]
    by (intro area_changes[where D = "{?J, ?I}" and bs = "as @ [k, t, i, j, r]"]) (use q in \<open>auto simp: link_struct_def\<close>)
  have run: "sched_init kname iname func s = Some s6"
    by (simp add: sched_init_split 4(1) 5(1) 6(1))
  have "changes (heap_area as s) (mem s) (mem s6)"
    using c4 c5 c6 by (blast intro: changes_same_trans)
  moreover have b6: "built (as @ [k, t, i, j, r]) [(?K, [?T]), (?I, [?J])] s6" using 6(2) by simp
  ultimately show thesis
    using that[OF run b6] 4 5(4,6,7) 6(3,4,6,7) by (simp add: beside_def)
qed

end
