(* ===== verification/SchedNew.thy ===== *)
theory SchedNew
  imports SchedBoot
begin

text \<open>
  What creating a process or a thread does to the scheduler's list, and what the first thing a new thread writes
  to its stack does to the heap.
\<close>

section \<open>A new process\<close>

text \<open>
  C32. \<open>sched_new\<close> puts the new process right behind the current one, not at the end of the list: it overwrites the
  current process's \<open>next\<close>, so every process that came after the current one is dropped from the list
  with its threads.  The list stays well-formed, the new process has the next process identifier and no thread.
\<close>

theorem sched_new_drops_successors:
  assumes "built as (xs @ (c, ts) # ys) s" and "sched_current_process s = c" and "free_pages s = q # qs"
    and "name_at (heap_area as s) (mem s) name cs"
  shows "\<exists>s'. sched_new name s = Some (q + 24, s') \<and> built (as @ [q]) (xs @ [(c, ts), (q + 24, [])]) s'
    \<and> p_pid (mem s') (q + 24) = ucast (next_free_pid s) \<and> next_free_pid s' = next_free_pid s + 1
    \<and> free_pages s' = qs \<and> trace s' = trace s"
proof -
  obtain s' where "sched_new name s = Some (q + 24, s')" "built (as @ [q]) (xs @ [(c, ts), (q + 24, [])]) s'"
    "free_pages s' = qs" "p_pid (mem s') (q + 24) = ucast (next_free_pid s)" "trace s' = trace s"
    "next_free_pid s' = next_free_pid s + 1"
    by (rule sched_new_built[OF assms(1) assms(2)[symmetric] assms(3,4)])
  then show ?thesis by blast
qed

section \<open>A new thread\<close>

lemma thread_kept:
  assumes P: "pages_ok P" "set as \<subseteq> P" and ch: "changes (headers as \<union> (rng t 336 \<union> rng (link_slot p ts) 8)) m m'"
    and pages: "u - 24 \<in> P" "t - 24 \<in> P" "p - 24 \<in> P" "\<forall>x \<in> set ts. x - 24 \<in> P" and "u \<noteq> t" "u \<noteq> p"
  shows "t_frame m' u = t_frame m u" "t_status m' u = t_status m u"
proof -
  have sub: "rng (u + 8) 180 \<subseteq> rng u 336" by (intro rng_sub) simp
  have slot: "rng (link_slot p ts) 8 \<inter> rng (u + 8) 180 = {}"
  proof (cases "ts \<noteq> [] \<and> last ts = u")
    case True
    then have "disj_range (u + 328) 8 (u + 8) 180" by (simp add: mem_simps)
    with True show ?thesis by (auto simp: link_slot_def dest!: rng_disj)
  next
    case False
    have l: "link_struct p ts - 24 \<in> P" using pages(3,4) last_in_set[of ts] by (auto simp: link_struct_def)
    have "link_struct p ts \<noteq> u" using False assms(9) by (auto simp: link_struct_def)
    from struct_apart[OF P(1) l pages(1) this, of 336 336] show ?thesis using link_slot_in[of p ts] sub by auto
  qed
  have "(headers as \<union> (rng t 336 \<union> rng (link_slot p ts) 8)) \<inter> rng (u + 8) 180 = {}"
    using slot sub struct_header[OF P(1) pages(1) P(2), of 336] struct_apart[OF P(1) pages(2,1), of 336 336] assms(8) by auto
  moreover have "rng (u + 8) 176 \<subseteq> rng (u + 8) 180" "rng (u + 184) 4 \<subseteq> rng (u + 8) 180" by (auto intro!: rng_sub)
  ultimately show "t_frame m' u = t_frame m u" "t_status m' u = t_status m u"
    using load_off(3)[OF ch, of "u + 8" 176] load_off(2)[OF ch, of "u + 184" 4]
    by (auto simp: t_frame_def t_context_def t_status_def)
qed

lemma threads_structs: "u \<in> threads_of ps \<Longrightarrow> u \<in> set (structs ps)"
  by (auto simp: threads_of_def structs_def)

lemma threads_not_process:
  assumes "distinct (structs ps)" and "u \<in> threads_of ps" and "p \<in> fst ` set ps"
  shows "u \<noteq> p"
  using assms by (auto simp: threads_of_def structs_def)

text \<open>
  C17. \<open>sched_new_thread\<close> appends the thread to its process's list, ready to run: it has the next thread
  identifier and starts at the given function, in the kernel's code and data segments, with interrupts enabled, a
  frame pointer of 0 and the stack pointer at the last byte of a new block of 4096 bytes; every thread there was
  keeps its saved registers and its status.  (The general registers are not set; they are what the new block held.)
\<close>

theorem sched_new_thread_appends:
  assumes "built as (xs @ (p, ts) # ys) s" and "free_pages s = q # r # qs"
    and "name_at (heap_area as s) (mem s) name cs"
  shows "\<exists>s'. sched_new_thread p name func s = Some (q + 24, s')
    \<and> built (as @ [q, r]) (xs @ (p, ts @ [q + 24]) # ys) s'
    \<and> t_status (mem s') (q + 24) = READY \<and> t_tid (mem s') (q + 24) = next_thread_id s
    \<and> t_reg (mem s') (q + 24) sf_rip = func \<and> t_reg (mem s') (q + 24) sf_cs = 0x08
    \<and> t_reg (mem s') (q + 24) sf_ss = 0x10 \<and> t_reg (mem s') (q + 24) sf_rflags = 0x202
    \<and> t_reg (mem s') (q + 24) sf_rsp = r + 24 + 4095 \<and> blk_size (mem s') r = 4096 + 24
    \<and> t_reg (mem s') (q + 24) sf_rbp = 0
    \<and> (\<forall>u \<in> threads_of (xs @ (p, ts) # ys). t_frame (mem s') u = t_frame (mem s) u \<and> t_status (mem s') u = t_status (mem s) u)"
proof -
  let ?ps = "xs @ (p, ts) # ys" and ?t = "q + 24"
  obtain s' where s': "sched_new_thread p name func s = Some (?t, s')" "built (as @ [q, r]) (xs @ (p, ts @ [?t]) # ys) s'"
    "changes (headers (as @ [q, r]) \<union> (rng ?t 336 \<union> rng (link_slot p ts) 8)) (mem s) (mem s')"
    "t_status (mem s') ?t = READY" "t_tid (mem s') ?t = next_thread_id s" "t_reg (mem s') ?t sf_rip = func"
    "t_reg (mem s') ?t sf_cs = 0x08" "t_reg (mem s') ?t sf_ss = 0x10" "t_reg (mem s') ?t sf_rflags = 0x202"
    "t_reg (mem s') ?t sf_rsp = r + 4119" "t_reg (mem s') ?t sf_rbp = 0" "blk_size (mem s') r = 4120"
    by (rule sched_new_thread_built[OF assms])
  have pages: "\<And>x. x \<in> set (structs ?ps) \<Longrightarrow> x - 24 \<in> set (as @ [q, r])" and P: "pages_ok (set (as @ [q, r]))"
    and new: "?t \<notin> set (structs ?ps)"
    using built_pages[OF assms(1)] assms(2) by (auto simp: pages_ok_def)
  have "t_frame (mem s') u = t_frame (mem s) u \<and> t_status (mem s') u = t_status (mem s) u"
    if u: "u \<in> threads_of ?ps" for u
  proof -
    have "u \<noteq> p" using threads_not_process[OF _ u, of p] assms(1) by (simp add: built_def)
    moreover have "u \<noteq> ?t" using new threads_structs[OF u] by auto
    ultimately show ?thesis
      using thread_kept[OF P order_refl s'(3)] pages threads_structs[OF u] by (simp add: struct_split)
  qed
  then show ?thesis using s' by (intro exI[of _ s']) simp
qed

section \<open>The first word on a new stack\<close>

text \<open>The pages of one memory region come off the page stack in descending order, so the stack's page is the one below the thread's.\<close>

lemma aligned_plus_or:
  fixes q k :: u64
  assumes "unat q mod 4096 = 0" and "unat k < 4096"
  shows "q + k = q OR k"
proof -
  have "q AND k = 0"
  proof (rule bit_word_eqI)
    fix n assume "n < LENGTH(64)"
    show "bit (q AND k) n = bit 0 n"
      using aligned_bit[OF assms(1), of n] small_bit[of k 12 n] assms(2) by (auto simp: bit_and_iff)
  qed
  then show ?thesis using word_plus_and_or[of q k] by simp
qed

lemma stack_top_in_header:
  assumes "r + 4096 = (q :: u64)" and "unat q mod 4096 = 0"
  shows "r + 4119 - 8 = q + 15" "((r + 4119) AND NOT 0xF) - 8 = q + 8"
proof -
  have "q AND NOT (mask 4) = q"
    by (rule bit_word_eqI) (auto simp: bit_and_iff bit_not_iff bit_mask_iff dest: aligned_bit[OF assms(2)])
  then have q: "q AND NOT 0xF = q" by (simp add: mask_eq_exp_minus_1)
  have "r + 4119 = q + 23" by (simp add: assms(1)[symmetric])
  also have "\<dots> = q OR 23" by (rule aligned_plus_or[OF assms(2)]) simp
  finally have "(r + 4119) AND NOT 0xF = (q AND NOT 0xF) OR (23 AND NOT 0xF)" by (simp only: bit.conj_disj_distrib2)
  also have "\<dots> = q + 16" unfolding q using aligned_plus_or[OF assms(2), of 16] by simp
  finally show "((r + 4119) AND NOT 0xF) - 8 = q + 8" by simp
  show "r + 4119 - 8 = q + 15" by (simp add: assms(1)[symmetric])
qed

lemma store64_byte1: "store64 m a v (a + 1) = of_nat (unat v div 256 mod 256)"
proof -
  have "store m a (Suc (Suc 6)) w (a + 1) = of_nat (w div 256 mod 256)" for w
    by (simp only: store.simps fun_upd_apply) simp
  moreover have "(8 :: nat) = Suc (Suc 6)" by simp
  ultimately show ?thesis by (simp only: store64_def)
qed

lemma find_block_freed:
  assumes "used_chain m p (as @ q # bs)" and "\<forall>a \<in> set as. blk_next m' a = blk_next m a \<and> blk_is_free m' a = blk_is_free m a"
    and "blk_is_free m' q" and "sz \<le> blk_size m' q"
  shows "\<exists>pv. find_block m' sz p prev = Some (q, pv)"
  using assms(1,2)
proof (induction as arbitrary: p prev)
  case Nil
  then show ?case using assms(3,4) by (subst find_block.simps) simp
next
  case (Cons a as)
  then show ?case by (subst find_block.simps) auto
qed

text \<open>
  C33. The stack of a new thread is 4096 bytes behind a block header, so it ends 24 bytes into the next page; when that is
  the thread's own page, the initial stack pointer lies in the header of the thread's own block.  The first word the thread
  pushes overwrites the block's flag: if its second byte is not 0 the block of the live thread counts as free from
  then on, and the next request, if it is for at most the 336 bytes of the structure, is given the thread's structure;
  if that byte is 0, as in a frame pointer of 0, the block stays allocated.  An interrupt before the first push
  is no better: the processor aligns the stack pointer and pushes the stack segment over the block's \<open>next\<close>.
\<close>

theorem first_push_frees_thread:
  assumes "built as (xs @ (p, ts) # ys) s" and "free_pages s = q # r # qs"
    and "name_at (heap_area as s) (mem s) name cs" and "r + 4096 = q"
    and "sched_new_thread p name func s = Some (t, s')"
  shows "let rsp = t_reg (mem s') t sf_rsp; m = store64 (mem s') (rsp - 8) v in
      blk_is_free m q = (unat v div 256 mod 256 \<noteq> 0)
    \<and> (blk_is_free m q \<and> 0 < n \<and> n \<le> 336 \<longrightarrow> (\<exists>s''. pmm_alloc n (s'\<lparr>mem := m\<rparr>) = Some (t, s'')))
    \<and> blk_next (store64 (mem s') ((rsp AND NOT 0xF) - 8) ss) q = ss"
proof -
  obtain s1 where s1: "sched_new_thread p name func s = Some (q + 24, s1)"
    "built (as @ [q, r]) (xs @ (p, ts @ [q + 24]) # ys) s1" "t_reg (mem s1) (q + 24) sf_rsp = r + 4119"
    "blk_size (mem s1) q = 360"
    by (rule sched_new_thread_built[OF assms(1-3)])
  then have t: "t = q + 24" "s1 = s'" using assms(5) by simp_all
  have P: "pages_ok (set (as @ [q, r]))" and d: "q \<notin> set as" and heap: "full_heap s' (as @ [q, r])"
    using built_pages[OF assms(1)] assms(2) s1(2) t(2) by (auto simp: pages_ok_def built_def)
  have al: "unat q mod 4096 = 0" using P by (simp add: pages_ok_def)
  have rsp: "t_reg (mem s') t sf_rsp - 8 = q + 15" "((t_reg (mem s') t sf_rsp) AND NOT 0xF) - 8 = q + 8"
    using s1(3) stack_top_in_header[OF assms(4) al] by (simp_all add: t)
  define m where "m = store64 (mem s') (q + 15) v"
  have "m (q + 16) = of_nat (unat v div 256 mod 256)"
    using store64_byte1[of "mem s'" "q + 15" v] by (simp add: m_def add.assoc)
  moreover have "of_nat (unat v div 256 mod 256) = (0 :: u8) \<longleftrightarrow> unat v div 256 mod 256 = 0"
    by (simp add: word_of_nat_eq_0_iff dvd_eq_mod_eq_0)
  ultimately have free: "blk_is_free m q \<longleftrightarrow> unat v div 256 mod 256 \<noteq> 0"
    by (simp add: blk_is_free_def load_bool_def)
  have size: "blk_size m q = 360" using s1(4) by (simp add: t m_def blk_size_def mem_simps)
  have "\<exists>s''. pmm_alloc n (s'\<lparr>mem := m\<rparr>) = Some (t, s'')" if freed: "blk_is_free m q" and n: "0 < n" "n \<le> 336"
  proof -
    have ch: "changes (rng (q + 15) 8) (mem s') m" unfolding m_def by (intro changes_stores) simp_all
    have "blk_next m a = blk_next (mem s') a \<and> blk_is_free m a = blk_is_free (mem s') a" if "a \<in> set as" for a
    proof -
      have "rng q 4096 \<inter> rng a 4096 = {}" using page_rng[OF P, of q a] that d by auto
      then have "rng (q + 15) 8 \<inter> rng a 24 = {}" using rng_sub[of "q + 15" q 8 4096] rng_sub[of a a 24 4096] by auto
      from header_cong[OF ch this] show ?thesis by simp
    qed
    moreover have "used_chain (mem s') (pmm_free_blocks s') (as @ q # [r])" and ok: "pmm_ok s'"
      using heap by (simp_all add: full_heap_def)
    moreover have "n + 24 \<le> 360"
      using n(2) by (simp add: word_le_nat_alt unat_plus_small)
    ultimately obtain pv where "find_block m (n + 24) (pmm_free_blocks s') NULL = Some (q, pv)"
      using find_block_freed[of "mem s'" "pmm_free_blocks s'" as q "[r]" m "n + 24" NULL] freed size by auto
    moreover have "q \<noteq> NULL" using P by (auto simp: pages_ok_def)
    ultimately show ?thesis using ok n(1)
      by (auto simp: pmm_alloc_def pmm_ok_def sizeof_memblk_def t Let_def)
  qed
  moreover have "blk_next (store64 (mem s') (q + 8) ss) q = ss" by (simp add: blk_next_def)
  ultimately show ?thesis unfolding rsp Let_def m_def[symmetric] using free by blast
qed

section \<open>A sample start\<close>

text \<open>A string literal in memory.\<close>

definition put_string :: "ptr \<Rightarrow> string \<Rightarrow> mem \<Rightarrow> mem" where
  "put_string a str m = (\<lambda>x. if in_range a (Suc (length str)) x then (map of_char str @ [0]) ! unat (x - a) else m x)"

lemma put_string_at:
  assumes "length str < INT_MAX" and "CHR 0x00 \<notin> set str"
  shows "cstr_at (put_string a str m) a (map of_char str)"
proof -
  have "unat (of_nat i :: u64) = i" if "i < Suc (length str)" for i
    using that assms(1) by (intro unat_of_nat_small) (simp add: INT_MAX_def)
  then have "bytes_at (put_string a str m) a (Suc (length str)) = map of_char str @ [0]"
    by (intro nth_equalityI) (auto simp: bytes_at_def put_string_def in_range_def simp del: upt_Suc)
  then show ?thesis using assms(2) by (auto simp: cstr_at_def of_char_zero)
qed

lemma put_string_changes: "changes (rng a (Suc (length str))) m (put_string a str m)"
  by (simp add: changes_def put_string_def rng_def)

lemma cstr_off:
  assumes "changes A m m'" and "cstr_at m a cs" and "A \<inter> rng a (Suc (length cs)) = {}" and "length cs < INT_MAX"
  shows "cstr_at m' a cs"
proof -
  have "Suc (length cs) \<le> 2 ^ 64" using assms(4) by (simp add: INT_MAX_def)
  from load_off(3)[OF assms(1,3) this] assms(2) show ?thesis by (simp add: cstr_at_def)
qed

definition start_memmap :: "memmap_entry list" where
  "start_memmap = [\<lparr>me_base = 0x1000, me_length = 0x8000, me_type = MEMMAP_USABLE\<rparr>]"

definition start_base :: sched where
  "start_base =
     \<lparr>mem = put_string 0x100 ''kernel'' (put_string 0x200 ''idle'' (\<lambda>_. 0)), trace = [], dev = \<lambda>_ _. 0,
      pmm_stack = replicate STACK_SIZE 0, pmm_stack_top = 0, pmm_free_blocks = NULL, memmap_ptr = start_memmap,
      pmm_initialized = False, pmm_used_mem = 0, pmm_free_mem = 0, pmm_total_mem = 0,
      hhdm_off = 0xffff800000000000, kernel_phys_addr = 0, kernel_virt_addr = 0, vmm_kernel_pagemap = NULL, vmm_current_pagemap = NULL,
      sched_processes_list = NULL, sched_current_process = NULL, sched_current_thread = NULL,
      next_free_pid = 0, next_thread_id = 0, idle_process = NULL\<rparr>"

definition start_sched :: sched where "start_sched = pmm_init start_base"

lemma start_pages: "usable_pages start_memmap = [0x1000, 0x2000, 0x3000, 0x4000, 0x5000, 0x6000, 0x7000, 0x8000]"
  by (simp add: usable_pages_def start_memmap_def region_pages_def MEMMAP_USABLE_def PMM_BLOCK_SIZE_def upt_rec)

lemma start_free: "pmm_ok start_sched" "free_pages start_sched = [0x8000, 0x7000, 0x6000, 0x5000, 0x4000, 0x3000, 0x2000, 0x1000]"
  using pmm_init_free_pages[of start_base]
  by (simp_all add: start_sched_def start_base_def start_pages STACK_SIZE_numeral)

lemma start_heap: "full_heap start_sched []"
  using start_free by (simp add: full_heap_def pages_ok_def start_sched_def) (simp add: start_base_def)

lemma start_area: "heap_area [] start_sched \<subseteq> {x. 0x1000 \<le> unat x}"
  by (auto simp: heap_area_def start_free rng_def in_range_nowrap)

lemma low_string:
  assumes "length str < 100" and "CHR 0x00 \<notin> set str" and "unat a + 100 \<le> 0x1000" and "cstr_at m a (map of_char str)"
    and "A \<subseteq> {x. 0x1000 \<le> unat x}"
  shows "name_at A m a (map of_char str)"
  using assms by (auto simp: name_at_def INT_MAX_def rng_def in_range_nowrap)

lemma start_names:
  "name_at (heap_area [] start_sched) (mem start_sched) 0x100 (map of_char ''kernel'')"
  "name_at (heap_area [] start_sched) (mem start_sched) 0x200 (map of_char ''idle'')"
proof -
  have m: "mem start_sched = put_string 0x100 ''kernel'' (put_string 0x200 ''idle'' (\<lambda>_. 0))"
    by (simp add: start_sched_def start_base_def)
  have k: "cstr_at (mem start_sched) 0x100 (map of_char ''kernel'')" unfolding m
    by (rule put_string_at) (simp_all add: INT_MAX_def)
  have "cstr_at (put_string 0x200 ''idle'' (\<lambda>_. 0)) 0x200 (map of_char ''idle'')"
    by (rule put_string_at) (simp_all add: INT_MAX_def)
  then have i: "cstr_at (mem start_sched) 0x200 (map of_char ''idle'')" unfolding m
    by (rule cstr_off[OF put_string_changes])
       (auto simp: INT_MAX_def intro!: rng_disj disj_range_nowrap)
  show "name_at (heap_area [] start_sched) (mem start_sched) 0x100 (map of_char ''kernel'')"
    using k start_area by (intro low_string) simp_all
  show "name_at (heap_area [] start_sched) (mem start_sched) 0x200 (map of_char ''idle'')"
    using i start_area by (intro low_string) simp_all
qed

lemma start_init:
  obtains s where "sched_init 0x100 0x200 0x300 start_sched = Some s"
    "built [0x8000, 0x7000, 0x6000, 0x5000, 0x4000] ([] @ (0x8018, [0x7018]) # [(0x6018, [0x5018])]) s"
    "free_pages s = [0x3000, 0x2000, 0x1000]" "sched_current_process s = 0x8018"
    "name_at (heap_area [0x8000, 0x7000, 0x6000, 0x5000, 0x4000] s) (mem s) 0x200 (map of_char ''idle'')"
proof -
  note names = start_names(1) _ start_names(2)
  obtain s where s: "sched_init 0x100 0x200 0x300 start_sched = Some s"
    "built ([] @ [0x8000, 0x7000, 0x6000, 0x5000, 0x4000]) [(0x8000 + 24, [0x7000 + 24]), (0x6000 + 24, [0x5000 + 24])] s"
    "free_pages s = [0x3000, 0x2000, 0x1000]" "sched_current_process s = 0x8000 + 24"
    "changes (heap_area [] start_sched) (mem start_sched) (mem s)"
    by (rule sched_init_built[OF start_heap start_free(2) names]) simp_all
  have "heap_area ([] @ [0x8000, 0x7000, 0x6000, 0x5000, 0x4000]) s = heap_area [] start_sched"
    by (rule heap_area_grow) (simp add: start_free s(3))
  with name_off[OF s(5) start_names(2) order_refl]
  have "name_at (heap_area [0x8000, 0x7000, 0x6000, 0x5000, 0x4000] s) (mem s) 0x200 (map of_char ''idle'')" by simp
  with s show thesis using that[of s] by simp
qed

theorem sched_new_drops_successors_witness:
  "\<exists>s s'. sched_init 0x100 0x200 0x300 start_sched = Some s \<and> sched_new 0x200 s = Some (0x3018, s')
     \<and> proc_list (mem s) (sched_processes_list s) [(0x8018, [0x7018]), (0x6018, [0x5018])]
     \<and> proc_list (mem s') (sched_processes_list s') [(0x8018, [0x7018]), (0x3018, [])]"
proof -
  obtain s where s: "sched_init 0x100 0x200 0x300 start_sched = Some s"
    "built [0x8000, 0x7000, 0x6000, 0x5000, 0x4000] ([] @ (0x8018, [0x7018]) # [(0x6018, [0x5018])]) s"
    "free_pages s = [0x3000, 0x2000, 0x1000]" "sched_current_process s = 0x8018"
    "name_at (heap_area [0x8000, 0x7000, 0x6000, 0x5000, 0x4000] s) (mem s) 0x200 (map of_char ''idle'')"
    by (rule start_init)
  from sched_new_drops_successors[OF s(2,4,3,5)] obtain s' where "sched_new 0x200 s = Some (0x3018, s')"
    "proc_list (mem s') (sched_processes_list s') [(0x8018, [0x7018]), (0x3018, [])]"
    by (auto simp: built_def)
  with s(1,2) show ?thesis unfolding built_def by auto
qed

theorem sched_new_thread_appends_witness:
  "\<exists>s s'. sched_init 0x100 0x200 0x300 start_sched = Some s \<and> sched_new_thread 0x6018 0x200 0x400 s = Some (0x3018, s')
     \<and> proc_list (mem s') (sched_processes_list s') [(0x8018, [0x7018]), (0x6018, [0x5018, 0x3018])]
     \<and> t_reg (mem s') 0x3018 sf_rip = 0x400"
proof -
  obtain s where s: "sched_init 0x100 0x200 0x300 start_sched = Some s"
    "built [0x8000, 0x7000, 0x6000, 0x5000, 0x4000] ([] @ (0x8018, [0x7018]) # [(0x6018, [0x5018])]) s"
    "free_pages s = [0x3000, 0x2000, 0x1000]" "sched_current_process s = 0x8018"
    "name_at (heap_area [0x8000, 0x7000, 0x6000, 0x5000, 0x4000] s) (mem s) 0x200 (map of_char ''idle'')"
    by (rule start_init)
  then have "built [0x8000, 0x7000, 0x6000, 0x5000, 0x4000] ([(0x8018, [0x7018])] @ (0x6018, [0x5018]) # []) s" by simp
  from sched_new_thread_appends[OF this s(3,5), of "0x400"] obtain s' where
    "sched_new_thread 0x6018 0x200 0x400 s = Some (0x3018, s')" "t_reg (mem s') 0x3018 sf_rip = 0x400"
    "proc_list (mem s') (sched_processes_list s') [(0x8018, [0x7018]), (0x6018, [0x5018, 0x3018])]"
    by (auto simp: built_def)
  with s(1) show ?thesis by blast
qed

text \<open>The thread pushes a return address into the kernel; the next process is then built over the thread.\<close>

theorem first_push_frees_thread_witness:
  "\<exists>s s' s''. sched_init 0x100 0x200 0x300 start_sched = Some s \<and> sched_new_thread 0x6018 0x200 0x400 s = Some (0x3018, s')
     \<and> pmm_alloc sizeof_process (s'\<lparr>mem := store64 (mem s') (t_reg (mem s') 0x3018 sf_rsp - 8) 0xffffffff80001234\<rparr>)
       = Some (0x3018, s'')"
proof -
  obtain s where s: "sched_init 0x100 0x200 0x300 start_sched = Some s"
    "built [0x8000, 0x7000, 0x6000, 0x5000, 0x4000] ([] @ (0x8018, [0x7018]) # [(0x6018, [0x5018])]) s"
    "free_pages s = [0x3000, 0x2000, 0x1000]" "sched_current_process s = 0x8018"
    "name_at (heap_area [0x8000, 0x7000, 0x6000, 0x5000, 0x4000] s) (mem s) 0x200 (map of_char ''idle'')"
    by (rule start_init)
  then have b: "built [0x8000, 0x7000, 0x6000, 0x5000, 0x4000] ([(0x8018, [0x7018])] @ (0x6018, [0x5018]) # []) s" by simp
  obtain s' where s': "sched_new_thread 0x6018 0x200 0x400 s = Some (0x3018, s')"
    by (rule sched_new_thread_built[OF b s(3,5), of "0x400"]) simp
  from first_push_frees_thread[OF b s(3,5) _ s', of "0xffffffff80001234" sizeof_process] s(1) s'
  show ?thesis by (auto simp: Let_def sizeof_process_def)
qed

end
