(* ===== verification/KernelBoot.thy ===== *)
theory KernelBoot
  imports KernelRun SchedNew
begin

text \<open>
  The boot sequence as a whole: \<open>kmain_x86_64\<close> runs every stage to its end, and what the first timer
  interrupt after it does.
\<close>

section \<open>Stages that leave memory and the kernel's structures alone\<close>

text \<open>All of the state up to the scheduler but the trace, and the system calls.\<close>

definition low :: "'a kernel_scheme \<Rightarrow> sched \<times> syscall_func option list" where
  "low s = (sched.truncate (s\<lparr>trace := []\<rparr>), syscalls s)"

lemma low_updates [simp]:
  "low (emit e s) = low s" "low (s\<lparr>trace := t\<rparr>) = low s" "low (s\<lparr>gdt := g\<rparr>) = low s" "low (s\<lparr>gdtr_size := n\<rparr>) = low s"
  "low (s\<lparr>gdtr_offset := a\<rparr>) = low s" "low (s\<lparr>idt := i\<rparr>) = low s" "low (s\<lparr>idtr_base := a\<rparr>) = low s"
  "low (s\<lparr>idtr_limit := n'\<rparr>) = low s" "low (s\<lparr>vectors := v\<rparr>) = low s" "low (s\<lparr>tss_rsp0 := a\<rparr>) = low s"
  by (simp_all add: low_def emit_def sched.defs)

lemma low_fields:
  assumes "low s' = low s"
  shows "mem s' = mem s" "dev s' = dev s" "pmm_stack s' = pmm_stack s" "pmm_free_blocks s' = pmm_free_blocks s"
    "memmap_ptr s' = memmap_ptr s" "hhdm_off s' = hhdm_off s" "kernel_phys_addr s' = kernel_phys_addr s"
    "kernel_virt_addr s' = kernel_virt_addr s" "syscalls s' = syscalls s"
  using assms by (simp_all add: low_def sched.defs)

lemma gdt_init_low: "low (gdt_init a t s) = low s"
  by (simp add: gdt_init_def gdt_set_entry_def tss_set_gate_def Let_def)

lemma pic_init_low: "low (pic_init s) = low s"
  by (simp add: pic_init_def inb_def outb_def io_wait_def Let_def)

lemma idt_fill_low: "low (fold (idt_fill tbl) vs s) = low s"
  by (induction vs arbitrary: s) (simp_all add: idt_fill_def idt_set_descriptor_def Let_def)

lemma arch_init_stage1_low: "low (arch_init_stage1 k s) = low s"
  by (simp add: arch_init_stage1_def idt_init_def Let_def pic_init_low idt_fill_low gdt_init_low)

lemma log_lines_trace: "log_lines lt msgs s = s\<lparr>trace := trace s @ map (\<lambda>msg. Logln lt ''kernel'' msg []) msgs\<rparr>"
  unfolding log_lines_def by (induction msgs arbitrary: s) (simp_all add: emit_def)

lemma log_lines_low: "low (log_lines lt msgs s) = low s"
  unfolding log_lines_def by (induction msgs arbitrary: s) simp_all

section \<open>The state the boot loader leaves\<close>

text \<open>The memory that is free at boot: the usable pages and their images in the direct map.\<close>

definition boot_area :: "limine_responses \<Rightarrow> ptr set" where
  "boot_area r = (\<Union>p \<in> set (usable_pages (memmap_response r)). rng p 4096 \<union> rng (p + hhdm_offset r) 4096)"

definition literal_in_place :: "kernel_image \<Rightarrow> limine_responses \<Rightarrow> mem \<Rightarrow> string \<Rightarrow> bool" where
  "literal_in_place k r m str \<longleftrightarrow> name_at (boot_area r) m (literal_addr k str) (map of_char str)"

text \<open>
  The conditions of the boot: a serial port that becomes ready, tables of the declared lengths, an empty heap, a memory map in order whose
  usable regions are page-aligned and lie in the direct map, the kernel's strings outside them, and
  enough pages for the page tables, the page map's own three, and the scheduler's eight.
\<close>

definition boot_ready :: "limine_responses \<Rightarrow> kernel_image \<Rightarrow> 'a kernel_scheme \<Rightarrow> bool" where
  "boot_ready r k s \<longleftrightarrow> responsive s \<and> length (syscalls s) = 512 \<and> length (pmm_stack s) = STACK_SIZE \<and> pmm_free_blocks s = NULL
     \<and> memmap_ok (memmap_response r)
     \<and> (\<forall>e \<in> set (memmap_response r). me_type e = MEMMAP_USABLE \<longrightarrow> unat (me_base e) mod 4096 = 0
          \<and> unat (me_base e) + unat (me_length e) + unat (hhdm_offset r) \<le> 2 ^ 64)
     \<and> 0xffff800000000000 \<le> hhdm_offset r \<and> unat (hhdm_offset r) + 2 ^ 32 \<le> 2 ^ 64 \<and> unat (hhdm_offset r) mod 4096 = 0
     \<and> (\<forall>str \<in> {''kernel'', ''idle'', ''Proc1'', ''proc1p1''}. literal_in_place k r (mem s) str)
     \<and> card (all_tables (init_writes (ld_symbols k) (limine_populate r s))) + 11
         \<le> min STACK_SIZE (length (usable_pages (memmap_response r)))"

definition syscall_table :: "syscall_func option list" where
  "syscall_table = (replicate 512 None)[1 := Some Syscall_write, 2 := Some Syscall_getpid]"

text \<open>The stages before memory management.\<close>

definition boot_front :: "limine_responses \<Rightarrow> kernel_image \<Rightarrow> 'a kernel_scheme \<Rightarrow> 'a kernel_scheme option" where
  "boot_front r k s = Option.bind (serio_init (literal_addr k) (limine_populate r s)) (\<lambda>(_, s1).
     syscall_init (arch_init_stage1 k (log_lines Lg_info
           [''Soaplin v0.1 - Zephyr (Milestone 1)\<newline>'', ''Copyright (C) 2024 Sipaa Projects\<newline>'',
            ''Soaplin is FOSS software distrubuted under the MIT License\<newline>''] (emit Tty_enable s1))))"

lemma polite_logged: "polite r es \<Longrightarrow> log_calls es = []"
  by (induction r es rule: polite.induct) auto

lemma serio_print_returns:
  assumes "responsive s"
  shows "\<exists>u. serio_print buf n (s\<lparr>trace := t\<rparr>) = Some (s\<lparr>trace := u\<rparr>) \<and> log_calls u = log_calls t"
proof -
  have "responsive (s\<lparr>trace := t\<rparr>)" using assms by simp
  from serio_print_loop_sends[OF this, of buf 0 "nat n"] polite_logged show ?thesis
    by (fastforce simp: serio_print_def)
qed

lemma serio_init_returns:
  assumes "responsive s"
  obtains rc t where "serio_init ad s = Some (rc, s\<lparr>trace := t\<rparr>)" "log_calls t = log_calls (trace s)"
proof -
  obtain v t1 where 1: "inb (PORT + 0) (serio_setup s) = (v, s\<lparr>trace := t1\<rparr>)" "log_calls t1 = log_calls (trace s)"
    by (simp add: inb_def serio_setup_def outb_def emit_def Let_def)
  show thesis
  proof (cases "v = 0xAE")
    case False
    with 1 show thesis using that[of 1 t1] by (simp add: serio_init_def)
  next
    case True
    obtain t2 where 2: "serio_print (ad serio_rule) 30 (outb (PORT + 4) 0x0F (s\<lparr>trace := t1\<rparr>)) = Some (s\<lparr>trace := t2\<rparr>)"
      "log_calls t2 = log_calls t1" using serio_print_returns[OF assms, of "ad serio_rule" 30 "t1 @ [Outb (PORT + 4) 0x0F]"] by (auto simp: outb_def emit_def)
    obtain t3 where 3: "serio_print (ad serio_banner) 30 (s\<lparr>trace := t2\<rparr>) = Some (s\<lparr>trace := t3\<rparr>)" "log_calls t3 = log_calls t2"
      using serio_print_returns[OF assms] by blast
    obtain t4 where 4: "serio_print (ad serio_rule) 30 (s\<lparr>trace := t3\<rparr>) = Some (s\<lparr>trace := t4\<rparr>)" "log_calls t4 = log_calls t3"
      using serio_print_returns[OF assms] by blast
    from True 1 2 3 4 show thesis using that[of 0 t4] by (simp add: serio_init_def)
  qed
qed

text \<open>What these stages log.\<close>

definition front_log :: "event list" where
  "front_log =
     [Tty_enable,
      Logln Lg_info ''kernel'' ''Soaplin v0.1 - Zephyr (Milestone 1)\<newline>'' [],
      Logln Lg_info ''kernel'' ''Copyright (C) 2024 Sipaa Projects\<newline>'' [],
      Logln Lg_info ''kernel'' ''Soaplin is FOSS software distrubuted under the MIT License\<newline>'' [],
      Logln Lg_progress ''arch/gdt'' ''A new GDT & TSS has been loaded into the CPU.\<newline>'' [],
      Logln Lg_progress ''arch/ints'' ''A new IDT has been loaded into the CPU.\<newline>'' [],
      Logln Lg_progress ''arch'' ''Stage 1 initialization complete\<newline>'' [],
      Logln Lg_info ''syscalls'' ''System calls initialized.\<newline>'' []]"

lemma arch_init_stage1_logged: "log_calls (trace (arch_init_stage1 k s)) = log_calls (trace s) @ take 3 (drop 4 front_log)"
proof -
  have fill: "trace (fold (idt_fill tbl) vs u) = trace u" for tbl vs and u :: "'a kernel_scheme"
    by (induction vs arbitrary: u) (simp_all add: idt_fill_def idt_set_descriptor_def Let_def)
  have gdt: "log_calls (trace (gdt_init a b u)) = log_calls (trace u) @ [front_log ! 4]" for a b and u :: "'a kernel_scheme"
    by (simp add: gdt_init_def gdt_set_entry_def tss_set_gate_def Let_def front_log_def)
  have pic: "log_calls (trace (pic_init u)) = log_calls (trace u)" for u :: "'a kernel_scheme"
    by (simp add: pic_init_def inb_def outb_def io_wait_def Let_def)
  show ?thesis
    by (simp add: arch_init_stage1_def idt_init_def Let_def pic fill gdt) (simp add: front_log_def)
qed

lemma boot_front_runs:
  assumes "boot_ready r k s"
  obtains s3 where "boot_front r k s = Some s3" "low s3 = low ((limine_populate r s)\<lparr>syscalls := syscall_table\<rparr>)"
    "log_calls (trace s3) = log_calls (trace s) @ front_log"
proof -
  let ?s0 = "limine_populate r s"
  have "responsive ?s0" and len: "length (syscalls ?s0) = 512"
    using assms by (simp_all add: boot_ready_def limine_populate_def responsive_def)
  then obtain rc t where 1: "serio_init (literal_addr k) ?s0 = Some (rc, ?s0\<lparr>trace := t\<rparr>)" "log_calls t = log_calls (trace ?s0)"
    using serio_init_returns by blast
  define s2 where "s2 = arch_init_stage1 k (log_lines Lg_info
           [''Soaplin v0.1 - Zephyr (Milestone 1)\<newline>'', ''Copyright (C) 2024 Sipaa Projects\<newline>'',
            ''Soaplin is FOSS software distrubuted under the MIT License\<newline>''] (emit Tty_enable (?s0\<lparr>trace := t\<rparr>)))"
  have l2: "low s2 = low ?s0" by (simp add: s2_def arch_init_stage1_low log_lines_low)
  then have "length (syscalls s2) = 512" using low_fields(9)[OF l2] len by simp
  from syscall_init_table[OF this] have "boot_front r k s = Some (s2\<lparr>syscalls := syscall_table,
      trace := trace s2 @ [Logln Lg_info ''syscalls'' ''System calls initialized.\<newline>'' []]\<rparr>)"
    by (simp add: boot_front_def 1(1) s2_def[symmetric] syscall_table_def)
  moreover have "low (s2\<lparr>syscalls := syscall_table, trace := u\<rparr>) = low (?s0\<lparr>syscalls := syscall_table\<rparr>)" for u
    using l2 by (simp add: low_def sched.defs)
  moreover have "log_calls (trace s2 @ [Logln Lg_info ''syscalls'' ''System calls initialized.\<newline>'' []]) = log_calls (trace s) @ front_log"
  proof -
    have "trace ?s0 = trace s" by (simp add: limine_populate_def)
    then show ?thesis
      by (simp add: s2_def arch_init_stage1_logged log_lines_trace 1(2)) (simp add: front_log_def)
  qed
  ultimately show thesis using that[of "s2\<lparr>syscalls := syscall_table,
      trace := trace s2 @ [Logln Lg_info ''syscalls'' ''System calls initialized.\<newline>'' []]\<rparr>"] by simp
qed

section \<open>Memory management\<close>

lemma pmm_init_more:
  "pmm.more (pmm_init s) = pmm.more s" "dev (pmm_init s) = dev s"
proof -
  have free: "pmm.more (fold pmm_freepage ps t) = pmm.more t \<and> dev (fold pmm_freepage ps t) = dev t" for ps and t :: "'a pmm_scheme"
    by (induction ps arbitrary: t) (simp_all add: pmm_freepage_def log_uninitialized_def emit_def)
  have "pmm.more (fold pmm_init_entry mm t) = pmm.more t \<and> dev (fold pmm_init_entry mm t) = dev t" for mm and t :: "'a pmm_scheme"
    by (induction mm arbitrary: t)
      (simp_all add: pmm_init_entry_def Let_def count_loop_total free_loop_fold free emit_def)
  then show "pmm.more (pmm_init s) = pmm.more s" "dev (pmm_init s) = dev s"
    by (simp_all add: pmm_init_def emit_def)
qed

lemma more_kernel:
  "pmm.more s' = pmm.more s \<Longrightarrow> hhdm_off s' = hhdm_off s \<and> kernel_phys_addr s' = kernel_phys_addr s
     \<and> kernel_virt_addr s' = kernel_virt_addr s \<and> syscalls s' = syscalls s"
  "vmm.more s' = vmm.more s \<Longrightarrow> syscalls s' = syscalls s"
  "sched.more s' = sched.more s \<Longrightarrow> syscalls s' = syscalls s" for s :: "'a kernel_scheme"
  by (cases s; cases s'; simp)+

lemma aligned_sum:
  assumes "unat a mod 4096 = 0" and "unat b mod 4096 = 0" and "unat a + unat b < 2 ^ 64"
  shows "unat (a + b :: u64) mod 4096 = 0"
  using assms by (simp add: unat_plus_small mod_add_eq[symmetric])

lemma boot_page_ok:
  assumes "boot_ready r k s" and "p \<in> set (usable_pages (memmap_response r))"
  shows "0 < unat p" "unat p mod 4096 = 0" "unat p + unat (hhdm_offset r) < 2 ^ 64"
    "page_addr (hhdm_offset r) (p + hhdm_offset r)"
proof -
  let ?h = "hhdm_offset r"
  have mm: "memmap_ok (memmap_response r)" and h: "0xffff800000000000 \<le> ?h" "unat ?h mod 4096 = 0"
    and reg: "\<And>e. e \<in> set (memmap_response r) \<Longrightarrow> me_type e = MEMMAP_USABLE \<Longrightarrow> unat (me_base e) mod 4096 = 0
          \<and> unat (me_base e) + unat (me_length e) + unat ?h \<le> 2 ^ 64"
    using assms(1) by (simp_all add: boot_ready_def)
  obtain e i where e: "e \<in> set (memmap_response r)" "me_type e = MEMMAP_USABLE"
    "i < unat (me_length e) div 4096" "p = me_base e + of_nat i * PMM_BLOCK_SIZE"
    using assms(2) by (auto simp: usable_pages_def region_pages_def)
  have u: "unat p = unat (me_base e) + i * 4096" unfolding e(4)
    by (rule unat_region_page[OF _ e(3)]) (use reg[OF e(1,2)] in simp)
  have "i * 4096 + 4096 \<le> unat (me_length e)" using e(3) by linarith
  with u reg[OF e(1,2)] show lt: "unat p + unat ?h < 2 ^ 64" by linarith
  show al: "unat p mod 4096 = 0" using u reg[OF e(1,2)] by simp
  have "0 < unat (me_base e)" using mm e(1,2) by (auto simp: memmap_ok_def Let_def)
  with u show "0 < unat p" by simp
  have "0xffff800000000000 \<le> unat ?h" using h(1) by (simp add: word_le_nat_alt)
  with lt have "unat p < 2 ^ 52" by simp
  with al aligned_sum[OF al h(2) lt] show "page_addr ?h (p + ?h)" by (simp add: page_addr_def)
qed

text \<open>Memory management on a machine that is ready.\<close>

definition boot_names :: "kernel_image \<Rightarrow> ptr set \<Rightarrow> mem \<Rightarrow> bool" where
  "boot_names k A m \<longleftrightarrow> (\<forall>str \<in> {''kernel'', ''idle'', ''Proc1'', ''proc1p1''}. name_at A m (literal_addr k str) (map of_char str))"

lemma boot_pmm_ok:
  assumes "boot_ready r k s" and "low s3 = low ((limine_populate r s)\<lparr>syscalls := syscall_table\<rparr>)"
  defines "s3' \<equiv> pmm_init s3"
  shows "direct_map_ok s3'" "set (free_pages s3') \<subseteq> set (usable_pages (memmap_response r))"
    "hhdm_off s3' = hhdm_offset r" "mem s3' = mem s" "pmm_free_blocks s3' = NULL" "syscalls s3' = syscall_table"
    "card (all_tables (init_writes (ld_symbols k) s3')) + 11 \<le> length (free_pages s3')"
    "hd (free_pages s3') + hhdm_offset r \<noteq> NULL"
proof -
  let ?mm = "memmap_response r"
  have l: "mem s3 = mem s" "pmm_stack s3 = pmm_stack s" "pmm_free_blocks s3 = pmm_free_blocks s" "memmap_ptr s3 = ?mm"
    "hhdm_off s3 = hhdm_offset r" "kernel_phys_addr s3 = physical_base r" "kernel_virt_addr s3 = virtual_base r"
    "syscalls s3 = syscall_table"
    using low_fields[OF assms(2)] by (simp_all add: limine_populate_def)
  note more = more_kernel(1)[OF pmm_init_more(1)[of s3], folded s3'_def]
  have pages: "pmm_ok s3'" "free_pages s3' = rev (take STACK_SIZE (usable_pages ?mm))"
    using pmm_init_free_pages[of s3] assms(1) by (simp_all add: s3'_def l boot_ready_def)
  show sub: "set (free_pages s3') \<subseteq> set (usable_pages ?mm)" by (auto simp: pages(2) dest: in_set_takeD)
  have "distinct (free_pages s3')"
    using distinct_usable_pages assms(1) by (simp add: pages(2) boot_ready_def)
  then show "direct_map_ok s3'"
    using pages(1) sub boot_page_ok(4)[OF assms(1)] by (auto simp: direct_map_ok_def more l)
  show "hhdm_off s3' = hhdm_offset r" "syscalls s3' = syscall_table" by (simp_all add: more l)
  show "mem s3' = mem s" "pmm_free_blocks s3' = NULL"
    using assms(1) by (simp_all add: l s3'_def boot_ready_def)
  have "init_writes (ld_symbols k) s3' = init_writes (ld_symbols k) (limine_populate r s)"
    by (simp add: init_writes_def text_writes_def rodata_writes_def data_writes_def more l limine_populate_def)
  then show room: "card (all_tables (init_writes (ld_symbols k) s3')) + 11 \<le> length (free_pages s3')"
    using assms(1) by (simp add: boot_ready_def pages(2) min.commute)
  then have "hd (free_pages s3') \<in> set (usable_pages ?mm)" using sub hd_in_set[of "free_pages s3'"] by fastforce
  note p = boot_page_ok(1,3)[OF assms(1) this]
  then have "unat (hd (free_pages s3') + hhdm_offset r) \<noteq> 0" by (simp add: unat_plus_small)
  then show "hd (free_pages s3') + hhdm_offset r \<noteq> NULL" by auto
qed

lemma name_mono: "name_at B m a cs \<Longrightarrow> A \<subseteq> B \<Longrightarrow> name_at A m a cs"
  by (auto simp: name_at_def)

lemma boot_memory:
  assumes ready: "boot_ready r k s" and "low s3 = low ((limine_populate r s)\<lparr>syscalls := syscall_table\<rparr>)"
  obtains s4 where "vmm_init (ld_symbols k) (pmm_init s3) = Some s4" "full_heap s4 []" "8 \<le> length (free_pages s4)"
    "set (free_pages s4) \<subseteq> set (usable_pages (memmap_response r))" "boot_names k (heap_area [] s4) (mem s4)"
    "vm_inv (vmm_kernel_pagemap s4) s4" "vmm_current_pagemap s4 = vmm_kernel_pagemap s4"
    "hhdm_off s4 = hhdm_offset r" "syscalls s4 = syscall_table"
    "insert (vmm_kernel_pagemap s4) (space_pages (vmm_kernel_pagemap s4) s4)
      \<subseteq> (\<lambda>p. p + hhdm_offset r) ` set (usable_pages (memmap_response r))"
    "\<forall>va. unat va < 2 ^ 32 \<longrightarrow> translation (vmm_kernel_pagemap s4) s4 (key va) = Some (page_base va OR 3)
        \<and> translation (vmm_kernel_pagemap s4) s4 (key (va + hhdm_offset r)) = Some (page_base va OR 3)"
proof -
  let ?h = "hhdm_offset r" and ?U = "set (usable_pages (memmap_response r))" and ?s3 = "pmm_init s3"
  note ok = boot_pmm_ok[OF assms]
  have h: "0xffff800000000000 \<le> ?h" "unat ?h + 2 ^ 32 \<le> 2 ^ 64" using ready by (simp_all add: boot_ready_def)
  have room: "card (all_tables (init_writes (ld_symbols k) ?s3)) + 3 \<le> length (free_pages ?s3)" using ok(7) by simp
  let ?kpm = "hd (free_pages ?s3) + ?h"
  note vr = vmm_init_runs[OF ok(1) room, unfolded ok(3), OF h ok(8)]
  obtain s4 where s4: "vmm_init (ld_symbols k) ?s3 = Some s4" "vm_inv ?kpm s4" "vmm_kernel_pagemap s4 = ?kpm"
    "vmm_current_pagemap s4 = ?kpm" "hhdm_off s4 = ?h" "kept ?kpm ?s3 s4"
    "\<forall>va. unat va < 2 ^ 32 \<longrightarrow> translation ?kpm s4 (key va) = Some (page_base va OR 3)
        \<and> translation ?kpm s4 (key (va + ?h)) = Some (page_base va OR 3)"
    "length (free_pages s4) + card (all_tables (init_writes (ld_symbols k) ?s3)) + 3 = length (free_pages ?s3)"
    using vr by blast
  have sp: "space_pages ?kpm s4 \<subseteq> (\<lambda>p. p + ?h) ` set (free_pages ?s3)"
    using s4(6) by (simp add: kept_def virtual_free_def ok(3))
  have "(\<lambda>p. p + ?h) ` set (free_pages s4) \<subseteq> space_pages ?kpm s4"
    by (auto simp: space_pages_def virtual_free_def s4(5))
  with sp have sub: "set (free_pages s4) \<subseteq> set (free_pages ?s3)" by (auto simp: image_subset_iff)
  then have U: "set (free_pages s4) \<subseteq> ?U" using ok(2) by blast
  have "pages_ok (set (free_pages s4))"
    using U boot_page_ok(1,2)[OF ready] by (auto simp: pages_ok_def)
  then have heap: "full_heap s4 []"
    using s4(2,6) ok(5) by (simp add: full_heap_def vm_inv_def kept_def)
  have "changes (boot_area r) (mem s) (mem s4)"
    unfolding changes_def
  proof (intro allI impI)
    fix x assume "x \<notin> boot_area r"
    then have "\<forall>a \<in> virtual_free ?s3. \<not> in_range a 4096 x"
      using ok(2) by (fastforce simp: boot_area_def rng_def virtual_free_def ok(3))
    with s4(6) show "mem s4 x = mem s x" using ok(4) by (simp add: kept_def)
  qed
  moreover have "heap_area [] s4 \<subseteq> boot_area r" using U by (auto simp: heap_area_def boot_area_def)
  ultimately have names: "boot_names k (heap_area [] s4) (mem s4)"
    using ready name_off[of "boot_area r" "mem s" "mem s4" "boot_area r"]
    by (auto simp: boot_names_def boot_ready_def literal_in_place_def intro: name_mono)
  have "hd (free_pages ?s3) \<in> ?U" using room ok(2) hd_in_set[of "free_pages ?s3"] by fastforce
  with sp ok(2) have "insert ?kpm (space_pages ?kpm s4) \<subseteq> (\<lambda>p. p + ?h) ` ?U" by auto
  with heap U names s4 ok(6,7) more_kernel(2)[of s4 ?s3] show thesis
    by (intro that[OF s4(1)]) (simp_all add: kept_def)
qed

section \<open>The scheduler and the last steps\<close>

text \<open>The stages after memory management.\<close>

definition boot_back :: "kernel_image \<Rightarrow> 'a kernel_scheme \<Rightarrow> 'a kernel_scheme option" where
  "boot_back k s4 =
     Option.bind (arch_init_stage2 k (log_lines Lg_progress [''Memory management initialized\<newline>''] s4)) (\<lambda>s5.
        let s6 = log_lines Lg_info [''The kernel booted successfully.\<newline>''] (log_lines Lg_warn
              [''Due to something being broken in the kernel's user mode\<newline>'',
               ''implementation, all processes with the same privilege as\<newline>'',
               ''the kernel. Please be careful on what you run here. Thanks\<newline>\<newline>''] s5)
        in Option.bind (sched_new (literal_addr k ''Proc1'') s6) (\<lambda>(proc1p, s7).
           Option.bind (sched_new_thread proc1p (literal_addr k ''proc1p1'') (proc1_addr k) s7) (\<lambda>(_, s8).
             arch_init_fini s8)))"

lemma kmain_stages:
  "kmain_x86_64 r k s = Option.bind (boot_front r k s) (\<lambda>s3.
     Option.bind (vmm_init (ld_symbols k) (pmm_init s3)) (boot_back k))"
  by (simp add: kmain_x86_64_def boot_front_def boot_back_def[abs_def] Let_def case_prod_unfold)

text \<open>What these stages log.  The threads get the next two numbers.\<close>

definition new_thread_line :: "u64 \<Rightarrow> event" where
  "new_thread_line tid = Logln Lg_info ''sched'' ''new thread %d\<newline>'' [tid]"

definition back_log :: "u64 \<Rightarrow> event list" where
  "back_log tid =
     [Logln Lg_progress ''kernel'' ''Memory management initialized\<newline>'' [], new_thread_line tid,
      Logln Lg_progress ''arch'' ''Stage 2 initialization complete\<newline>'' [],
      Logln Lg_warn ''kernel'' ''Due to something being broken in the kernel's user mode\<newline>'' [],
      Logln Lg_warn ''kernel'' ''implementation, all processes with the same privilege as\<newline>'' [],
      Logln Lg_warn ''kernel'' ''the kernel. Please be careful on what you run here. Thanks\<newline>\<newline>'' [],
      Logln Lg_info ''kernel'' ''The kernel booted successfully.\<newline>'' [], new_thread_line (tid + 1)]"

text \<open>The trace is no part of the heap or of the scheduler's structures.\<close>

lemma heap_trace [simp]:
  "free_pages (s\<lparr>trace := t\<rparr>) = free_pages s" "full_heap (s\<lparr>trace := t\<rparr>) as = full_heap s as"
  "heap_area as (s\<lparr>trace := t\<rparr>) = heap_area as s" for s :: "'a pmm_scheme"
  by (simp_all add: free_pages_def heap_area_def full_heap_def pmm_ok_def)

lemma built_trace [simp]: "built as ps (s\<lparr>trace := t\<rparr>) = built as ps s"
  by (simp add: built_def)

lemma stage2_runs:
  assumes heap: "full_heap s4 []" and q: "free_pages s4 = a # t # i # j # r # qs"
    and names: "boot_names k (heap_area [] s4) (mem s4)"
  obtains s5 where "arch_init_stage2 k (log_lines lt msgs s4) = Some s5"
    "built [a, t, i, j, r] [(a + 24, [t + 24]), (i + 24, [j + 24])] s5" "free_pages s5 = qs"
    "sched_processes_list s5 = a + 24" "sched_current_process s5 = a + 24" "sched_current_thread s5 = t + 24"
    "changes (heap_area [] s4) (mem s4) (mem s5)" "sched.more s5 = sched.more s4" "hhdm_off s5 = hhdm_off s4"
    "vmm_kernel_pagemap s5 = vmm_kernel_pagemap s4" "vmm_current_pagemap s5 = vmm_current_pagemap s4"
    "log_calls (trace s5) = log_calls (trace s4) @ map (\<lambda>msg. Logln lt ''kernel'' msg []) msgs
      @ [new_thread_line (next_thread_id s4), Logln Lg_progress ''arch'' ''Stage 2 initialization complete\<newline>'' []]"
    "next_thread_id s5 = next_thread_id s4 + 1"
proof -
  have lines: "log_calls (map (\<lambda>msg. Logln lt ''kernel'' msg []) msgs) = map (\<lambda>msg. Logln lt ''kernel'' msg []) msgs"
    by (induction msgs) simp_all
  obtain u where u: "pit_init 1000 (log_lines lt msgs s4) = Some (s4\<lparr>trace := u\<rparr>)"
    "log_calls u = log_calls (trace s4) @ map (\<lambda>msg. Logln lt ''kernel'' msg []) msgs"
    by (simp add: pit_init_def log_lines_trace outb_def emit_def Let_def lines)
  let ?s = "s4\<lparr>trace := u\<rparr>"
  have n: "name_at (heap_area [] ?s) (mem ?s) (literal_addr k ''kernel'') (map of_char ''kernel'')"
    "length (map of_char ''kernel'' :: u8 list) < 100"
    "name_at (heap_area [] ?s) (mem ?s) (literal_addr k ''idle'') (map of_char ''idle'')"
    using names by (simp_all add: boot_names_def)
  have h: "full_heap ?s []" "free_pages ?s = a # t # i # j # r # qs" using heap q by simp_all
  obtain s' where s': "sched_init (literal_addr k ''kernel'') (literal_addr k ''idle'') (idle_addr k) ?s = Some s'"
    "built ([] @ [a, t, i, j, r]) [(a + 24, [t + 24]), (i + 24, [j + 24])] s'" "free_pages s' = qs"
    "sched_processes_list s' = a + 24" "sched_current_process s' = a + 24" "sched_current_thread s' = t + 24"
    "changes (heap_area [] ?s) (mem ?s) (mem s')" "sched.more s' = sched.more ?s" "hhdm_off s' = hhdm_off ?s"
    "vmm_kernel_pagemap s' = vmm_kernel_pagemap ?s" "vmm_current_pagemap s' = vmm_current_pagemap ?s"
    "trace s' = trace ?s @ [Logln Lg_info ''sched'' ''new thread %d\<newline>'' [next_thread_id ?s]]"
    "next_thread_id s' = next_thread_id ?s + 1"
    by (rule sched_init_built[OF h n])
  have "arch_init_stage2 k (log_lines lt msgs s4)
      = Some (s'\<lparr>trace := trace s' @ [Logln Lg_progress ''arch'' ''Stage 2 initialization complete\<newline>'' []]\<rparr>)"
    by (simp add: arch_init_stage2_def u(1) s'(1) emit_def)
  then show thesis using that[of "s'\<lparr>trace := trace s' @ [Logln Lg_progress ''arch'' ''Stage 2 initialization complete\<newline>'' []]\<rparr>"] s'
    by (simp add: u(2) new_thread_line_def)
qed

lemma pit_enable_runs:
  obtains v where "pit_enable s = Some (s\<lparr>trace := trace s @ [Inb 0x21 v, Outb 0x21 (v AND NOT 1)]\<rparr>)"
proof -
  have "(ucast (ucast v AND NOT (1 :: u32)) :: u8) = v AND NOT 1" for v :: u8
    by (rule bit_word_eqI) (auto simp: bit_simps)
  then show thesis using that
    by (simp add: pit_enable_def pic_unmask_irq_def pic_line_def irq_bit_def inb_def outb_def emit_def PIC1_DATA_def Let_def)
qed

lemma boot_names_off:
  assumes "boot_names k A m" and "changes A m m'"
  shows "boot_names k A m'"
  using assms name_off[OF assms(2) _ order_refl] by (auto simp: boot_names_def)

text \<open>
  Everything after memory management.  The first five pages become the kernel's and the idle process; the next
  three \<open>Proc1\<close>, its thread and its stack.
\<close>

lemma boot_back_runs:
  assumes heap: "full_heap s4 []" and q: "free_pages s4 = a # t # i # j # r # p # q # u # qs"
    and names: "boot_names k (heap_area [] s4) (mem s4)"
  obtains s' v es where "boot_back k s4 = Some s'" "trace s' = es @ [Inb 0x21 v, Outb 0x21 (v AND NOT 1)]"
    "log_calls (trace s') = log_calls (trace s4) @ back_log (next_thread_id s4)"
    "built [a, t, i, j, r, p, q, u] [(a + 24, [t + 24]), (p + 24, [q + 24])] s'" "free_pages s' = qs"
    "sched_processes_list s' = a + 24" "sched_current_process s' = a + 24" "sched_current_thread s' = t + 24"
    "t_status (mem s') (q + 24) = READY" "t_reg (mem s') (q + 24) sf_rip = proc1_addr k"
    "t_reg (mem s') (q + 24) sf_cs = 0x08" "t_reg (mem s') (q + 24) sf_ss = 0x10" "t_reg (mem s') (q + 24) sf_rflags = 0x202"
    "changes (heap_area [] s4) (mem s4) (mem s')" "sched.more s' = sched.more s4" "hhdm_off s' = hhdm_off s4"
    "vmm_kernel_pagemap s' = vmm_kernel_pagemap s4" "vmm_current_pagemap s' = vmm_current_pagemap s4"
    "t_reg (mem s') (q + 24) sf_rsp = u + 4119" "t_reg (mem s') (q + 24) sf_rbp = 0" "blk_size (mem s') u = 4120"
proof -
  let ?K = "a + 24" and ?T = "t + 24" and ?I = "i + 24" and ?J = "j + 24" and ?P = "p + 24" and ?Q = "q + 24"
  let ?A = "heap_area [] s4" and ?as = "[a, t, i, j, r]"
  obtain s5 where 5: "arch_init_stage2 k (log_lines Lg_progress [''Memory management initialized\<newline>''] s4) = Some s5"
    "built ?as [(?K, [?T]), (?I, [?J])] s5" "free_pages s5 = p # q # u # qs" "sched_processes_list s5 = ?K"
    "sched_current_process s5 = ?K" "sched_current_thread s5 = ?T" "changes ?A (mem s4) (mem s5)"
    "sched.more s5 = sched.more s4" "hhdm_off s5 = hhdm_off s4"
    "vmm_kernel_pagemap s5 = vmm_kernel_pagemap s4" "vmm_current_pagemap s5 = vmm_current_pagemap s4"
    "log_calls (trace s5) = log_calls (trace s4) @ map (\<lambda>msg. Logln Lg_progress ''kernel'' msg []) [''Memory management initialized\<newline>'']
      @ [new_thread_line (next_thread_id s4), Logln Lg_progress ''arch'' ''Stage 2 initialization complete\<newline>'' []]"
    "next_thread_id s5 = next_thread_id s4 + 1"
    by (rule stage2_runs[OF heap q names])
  define s6 where "s6 = log_lines Lg_info [''The kernel booted successfully.\<newline>''] (log_lines Lg_warn
              [''Due to something being broken in the kernel's user mode\<newline>'',
               ''implementation, all processes with the same privilege as\<newline>'',
               ''the kernel. Please be careful on what you run here. Thanks\<newline>\<newline>''] s5)"
  obtain w where w: "s6 = s5\<lparr>trace := w\<rparr>" and log6: "log_calls w = log_calls (trace s5) @ take 4 (drop 3 (back_log 0))"
    by (simp add: s6_def log_lines_trace back_log_def)
  have a5: "heap_area ?as s6 = ?A" using heap_area_grow[of s4 ?as s5 "[]"] q 5(3) by (simp add: w)
  have n5: "boot_names k ?A (mem s6)" using boot_names_off[OF names 5(7)] by (simp add: w)
  have b6: "built ?as ([] @ (?K, [?T]) # [(?I, [?J])]) s6" using 5(2) by (simp add: w)
  have f6: "free_pages s6 = p # q # u # qs" "?K = sched_current_process s6" using 5 by (simp_all add: w)
  have n6: "name_at (heap_area ?as s6) (mem s6) (literal_addr k ''Proc1'') (map of_char ''Proc1'')"
    using n5 by (simp add: boot_names_def a5)
  obtain s7 where 7: "sched_new (literal_addr k ''Proc1'') s6 = Some (?P, s7)"
    "built (?as @ [p]) ([] @ [(?K, [?T]), (?P, [])]) s7" "free_pages s7 = q # u # qs" "beside s6 s7"
    "changes (headers (?as @ [p]) \<union> (rng ?P 152 \<union> rng (?K + 144) 8)) (mem s6) (mem s7)"
    "trace s7 = trace s6" "next_thread_id s7 = next_thread_id s6"
    by (rule sched_new_built[OF b6 f6(2,1) n6])
  have sub: "rng ?P 152 \<union> rng (?K + 144) 8 \<subseteq> (\<Union>y \<in> {?P, ?K}. rng y 336)"
    using rng_sub[of ?P ?P 152 336] rng_sub[of "?K + 144" ?K 8 336] by auto
  have c7: "changes ?A (mem s6) (mem s7)" using 7(5) by (rule area_changes[OF _ _ sub]) (use q in auto)
  have a7: "heap_area (?as @ [p]) s7 = ?A" using heap_area_grow[of s4 "?as @ [p]" s7 "[]"] q 7(3) by simp
  have n7: "name_at (heap_area (?as @ [p]) s7) (mem s7) (literal_addr k ''proc1p1'') (map of_char ''proc1p1'')"
    unfolding a7 using boot_names_off[OF n5 c7] by (simp add: boot_names_def)
  have b7: "built (?as @ [p]) ([(?K, [?T])] @ (?P, []) # []) s7" using 7(2) by simp
  obtain s8 where 8: "sched_new_thread ?P (literal_addr k ''proc1p1'') (proc1_addr k) s7 = Some (?Q, s8)"
    "built ((?as @ [p]) @ [q, u]) ([(?K, [?T])] @ (?P, [] @ [?Q]) # []) s8" "free_pages s8 = qs" "beside s7 s8"
    "changes (headers ((?as @ [p]) @ [q, u]) \<union> (rng ?Q 336 \<union> rng (link_slot ?P []) 8)) (mem s7) (mem s8)"
    "t_status (mem s8) ?Q = READY" "t_reg (mem s8) ?Q sf_rip = proc1_addr k" "t_reg (mem s8) ?Q sf_cs = 0x08"
    "t_reg (mem s8) ?Q sf_ss = 0x10" "t_reg (mem s8) ?Q sf_rflags = 0x202"
    "trace s8 = trace s7 @ [Logln Lg_info ''sched'' ''new thread %d\<newline>'' [next_thread_id s7]]"
    and regs: "t_reg (mem s8) ?Q sf_rsp = u + 4119" "t_reg (mem s8) ?Q sf_rbp = 0" "blk_size (mem s8) u = 4120"
    by (rule sched_new_thread_built[OF b7 7(3) n7])
  have c8: "changes ?A (mem s7) (mem s8)"
    using 8(5) link_slot_in[of ?P "[]"]
    by (intro area_changes[where D = "{?Q, ?P}" and bs = "(?as @ [p]) @ [q, u]"]) (use q in \<open>auto simp: link_struct_def\<close>)
  obtain v where v: "pit_enable s8 = Some (s8\<lparr>trace := trace s8 @ [Inb 0x21 v, Outb 0x21 (v AND NOT 1)]\<rparr>)"
    by (rule pit_enable_runs)
  have run: "boot_back k s4 = Some (s8\<lparr>trace := trace s8 @ [Inb 0x21 v, Outb 0x21 (v AND NOT 1)]\<rparr>)"
    unfolding boot_back_def 5(1) bind.bind_lunit Let_def s6_def[symmetric]
    by (simp add: 7(1) 8(1) arch_init_fini_def v)
  have "mem s6 = mem s5" by (simp add: w)
  note changes_same_trans[OF changes_same_trans[OF 5(7) c7[unfolded this]] c8]
  moreover have "beside s6 s8" using 7(4) 8(4) by (rule beside_trans)
  note rest = this[unfolded beside_def] and same = 5(4-6,8-11)
  moreover have "built [a, t, i, j, r, p, q, u] [(?K, [?T]), (?P, [?Q])] s8" using 8(2) by simp
  moreover have tr: "trace (s8\<lparr>trace := trace s8 @ [Inb 0x21 v, Outb 0x21 (v AND NOT 1)]\<rparr>)
      = trace s8 @ [Inb 0x21 v, Outb 0x21 (v AND NOT 1)]" by simp
  moreover have "log_calls (trace (s8\<lparr>trace := trace s8 @ [Inb 0x21 v, Outb 0x21 (v AND NOT 1)]\<rparr>))
      = log_calls (trace s4) @ back_log (next_thread_id s4)"
    using 5(12,13) by (simp add: 8(11) 7(6,7) w log6 back_log_def new_thread_line_def)
  moreover note that[OF run tr]
  ultimately show thesis using rest regs by (simp add: 8(3,6-10) same w)
qed

section \<open>The whole boot\<close>

lemma image_apart:
  assumes "boot_ready r k s" and "p \<in> set (usable_pages (memmap_response r))" "q \<in> set (usable_pages (memmap_response r))"
  shows "rng (p + hhdm_offset r) 4096 \<inter> rng q 4096 = {}"
proof -
  let ?h = "hhdm_offset r"
  note p = boot_page_ok[OF assms(1,2)] and q = boot_page_ok[OF assms(1,3)]
  have "2 ^ 63 \<le> unat ?h" using assms(1) by (simp add: boot_ready_def word_le_nat_alt)
  then have "unat q < unat (p + ?h)" using p(3) q(3) by (simp add: unat_plus_small)
  then have "p + ?h \<noteq> q" by auto
  then show ?thesis using p(4) q(2) by (intro rng_disj page_disj) (simp_all add: page_addr_def)
qed

lemma kmain_runs:
  assumes ready: "boot_ready r k s"
  obtains s' K kt P t as es v where "kmain_x86_64 r k s = Some s'" "built as [(K, [kt]), (P, [t])] s'"
    "set as \<subseteq> set (usable_pages (memmap_response r))" "sched_current_process s' = K" "sched_current_thread s' = kt"
    "t_status (mem s') t = READY" "t_reg (mem s') t sf_rip = proc1_addr k" "t_reg (mem s') t sf_cs = 0x08"
    "t_reg (mem s') t sf_ss = 0x10" "t_reg (mem s') t sf_rflags = 0x202"
    "t_reg (mem s') t sf_rsp = last as + 4119" "t_reg (mem s') t sf_rbp = 0" "blk_size (mem s') (last as) = 4120" "as \<noteq> []"
    "syscalls s' = syscall_table" "vm_inv (vmm_kernel_pagemap s') s'" "vmm_current_pagemap s' = vmm_kernel_pagemap s'"
    "\<forall>va. unat va < 2 ^ 32 \<longrightarrow> translation (vmm_kernel_pagemap s') s' (key va) = Some (page_base va OR 3)
        \<and> translation (vmm_kernel_pagemap s') s' (key (va + hhdm_offset r)) = Some (page_base va OR 3)"
    "trace s' = es @ [Inb 0x21 v, Outb 0x21 (v AND NOT 1)]"
proof -
  let ?U = "set (usable_pages (memmap_response r))" and ?h = "hhdm_offset r"
  obtain s3 where s3: "boot_front r k s = Some s3" "low s3 = low ((limine_populate r s)\<lparr>syscalls := syscall_table\<rparr>)"
    by (rule boot_front_runs[OF ready])
  obtain s4 where 4: "vmm_init (ld_symbols k) (pmm_init s3) = Some s4" "full_heap s4 []" "8 \<le> length (free_pages s4)"
    "set (free_pages s4) \<subseteq> ?U" "boot_names k (heap_area [] s4) (mem s4)"
    "vm_inv (vmm_kernel_pagemap s4) s4" "vmm_current_pagemap s4 = vmm_kernel_pagemap s4" "hhdm_off s4 = ?h" "syscalls s4 = syscall_table"
    "insert (vmm_kernel_pagemap s4) (space_pages (vmm_kernel_pagemap s4) s4) \<subseteq> (\<lambda>p. p + ?h) ` ?U"
    "\<forall>va. unat va < 2 ^ 32 \<longrightarrow> translation (vmm_kernel_pagemap s4) s4 (key va) = Some (page_base va OR 3)
        \<and> translation (vmm_kernel_pagemap s4) s4 (key (va + ?h)) = Some (page_base va OR 3)"
    by (rule boot_memory[OF ready s3(2)])
  obtain a t i j e p q u qs where q: "free_pages s4 = a # t # i # j # e # p # q # u # qs"
    using 4(3) by (auto simp: numeral_eq_Suc Suc_le_length_iff)
  obtain s' v es where s': "boot_back k s4 = Some s'" "trace s' = es @ [Inb 0x21 v, Outb 0x21 (v AND NOT 1)]"
    "built [a, t, i, j, e, p, q, u] [(a + 24, [t + 24]), (p + 24, [q + 24])] s'" "free_pages s' = qs"
    "sched_current_process s' = a + 24" "sched_current_thread s' = t + 24"
    "t_status (mem s') (q + 24) = READY" "t_reg (mem s') (q + 24) sf_rip = proc1_addr k"
    "t_reg (mem s') (q + 24) sf_cs = 0x08" "t_reg (mem s') (q + 24) sf_ss = 0x10" "t_reg (mem s') (q + 24) sf_rflags = 0x202"
    "changes (heap_area [] s4) (mem s4) (mem s')" "sched.more s' = sched.more s4" "hhdm_off s' = hhdm_off s4"
    "vmm_kernel_pagemap s' = vmm_kernel_pagemap s4" "vmm_current_pagemap s' = vmm_current_pagemap s4"
    and regs: "t_reg (mem s') (q + 24) sf_rsp = u + 4119" "t_reg (mem s') (q + 24) sf_rbp = 0" "blk_size (mem s') u = 4120"
    by (rule boot_back_runs[OF 4(2) q 4(5)])
  let ?kpm = "vmm_kernel_pagemap s4"
  have same: "mem s' x = mem s4 x" if x: "in_range ?kpm 16 x \<or> (\<exists>a \<in> space_pages ?kpm s4. in_range a 4096 x)" for x
  proof -
    have "in_range ?kpm 16 x \<Longrightarrow> in_range ?kpm 4096 x" by (simp add: in_range_def)
    then obtain p where p: "p \<in> ?U" "x \<in> rng (p + ?h) 4096" using x 4(10) by (auto simp: rng_def)
    have "x \<notin> heap_area [] s4" using image_apart[OF ready p(1)] p(2) 4(4) by (auto simp: heap_area_def)
    with s'(12) show ?thesis by (simp add: changes_def)
  qed
  have ok: "pmm_ok s'" "distinct (free_pages s')" using s'(3) by (simp_all add: built_def full_heap_def)
  have "set (free_pages s') \<subseteq> set (free_pages s4)" using q s'(4) by auto
  note stable = space_stable[OF 4(6) ok this s'(14) same]
  have run: "kmain_x86_64 r k s = Some s'" by (simp add: kmain_stages s3(1) 4(1) s'(1))
  have "set [a, t, i, j, e, p, q, u] \<subseteq> ?U" using 4(4) q by simp
  note that[OF run s'(3) this s'(5-11) _ _ _ _ _ _ _ _ s'(2)]
  then show thesis using stable regs 4(7,9,11) s'(15,16) more_kernel(3)[OF s'(13)] by simp
qed

text \<open>
  C1. The kernel boots: on every machine that is ready, \<open>kmain\<close> runs all its stages and reaches its last loop.  Then the
  kernel's address space is well-formed, loaded and maps the first 4 GiB twice; the system calls are
  installed; the scheduler's list is well-formed and holds the kernel's process and \<open>Proc1\<close>, whose
  thread is ready to start at its function, but not the idle process, which the creation of \<open>Proc1\<close> has
  dropped; and the very last thing done is to unmask the timer.
\<close>

theorem kmain_boots:
  assumes "boot_ready r k s"
  shows "\<exists>s' K kt P t as. kmain_x86_64 r k s = Some s' \<and> built as [(K, [kt]), (P, [t])] s'
    \<and> sched_current_process s' = K \<and> sched_current_thread s' = kt
    \<and> t_status (mem s') t = READY \<and> t_reg (mem s') t sf_rip = proc1_addr k
    \<and> syscalls s' = syscall_table
    \<and> vm_inv (vmm_kernel_pagemap s') s' \<and> vmm_current_pagemap s' = vmm_kernel_pagemap s'
    \<and> (\<forall>va. unat va < 2 ^ 32 \<longrightarrow> translation (vmm_kernel_pagemap s') s' (key va) = Some (page_base va OR 3)
        \<and> translation (vmm_kernel_pagemap s') s' (key (va + hhdm_offset r)) = Some (page_base va OR 3))
    \<and> (\<exists>es v. trace s' = es @ [Inb 0x21 v, Outb 0x21 (v AND NOT 1)])"
  by (rule kmain_runs[OF assms]) (intro exI conjI, assumption+)

section \<open>A sample machine\<close>

text \<open>
  One usable region of 5000 pages, a page in each section of the kernel, and the four strings below
  the region.
\<close>

definition ready_literals :: "string \<Rightarrow> ptr" where
  "ready_literals str = (if str = ''kernel'' then 0x100 else if str = ''idle'' then 0x200 else if str = ''Proc1'' then 0x300 else 0x400)"

definition ready_image :: kernel_image where
  "ready_image = \<lparr>gdt_addr = 0xffffffff80002000, tss_addr = 0xffffffff80002400, idt_addr = 0xffffffff80002800,
     isr_table_addr = 0xffffffff80000000, idle_addr = 0xffffffff80000200, proc1_addr = 0xffffffff80000300,
     literal_addr = ready_literals, ld_symbols = sample_symbols\<rparr>"

definition ready_responses :: limine_responses where
  "ready_responses = \<lparr>framebuffers_0 = NULL,
     memmap_response = [\<lparr>me_base = 0x100000, me_length = 0x1388000, me_type = MEMMAP_USABLE\<rparr>],
     physical_base = 0x200000, virtual_base = 0xffffffff80000000, hhdm_offset = 0xffff800000000000\<rparr>"

definition ready_mem :: mem where
  "ready_mem = put_string 0x100 ''kernel'' (put_string 0x200 ''idle'' (put_string 0x300 ''Proc1''
     (put_string 0x400 ''proc1p1'' (\<lambda>_. 0))))"

definition ready_kernel :: kernel where
  "ready_kernel = (sched.extend start_base blank_tables)\<lparr>mem := ready_mem, dev := (\<lambda>_ _. 0x20)\<rparr>"

lemma put_string_other:
  assumes "cstr_at m a cs" and "length cs < INT_MAX" and "disj_range b (Suc (length str)) a (Suc (length cs))"
  shows "cstr_at (put_string b str m) a cs"
  by (rule cstr_off[OF put_string_changes assms(1) rng_disj[OF assms(3)] assms(2)])

lemma ready_literals_at:
  "ready_literals ''kernel'' = 0x100" "ready_literals ''idle'' = 0x200" "ready_literals ''Proc1'' = 0x300"
  "ready_literals ''proc1p1'' = 0x400"
  by (simp_all add: ready_literals_def)

lemma ready_strings:
  assumes "str \<in> {''kernel'', ''idle'', ''Proc1'', ''proc1p1''}"
  shows "cstr_at ready_mem (ready_literals str) (map of_char str)"
proof -
  note simps = INT_MAX_def disj_range_nowrap
  have "cstr_at ready_mem 0x100 (map of_char ''kernel'')" unfolding ready_mem_def
    by (rule put_string_at) (simp_all add: simps)
  moreover have "cstr_at ready_mem 0x200 (map of_char ''idle'')" unfolding ready_mem_def
    by (rule put_string_other, rule put_string_at) (simp_all add: simps)
  moreover have "cstr_at ready_mem 0x300 (map of_char ''Proc1'')" unfolding ready_mem_def
    by (rule put_string_other, rule put_string_other, rule put_string_at) (simp_all add: simps)
  moreover have "cstr_at ready_mem 0x400 (map of_char ''proc1p1'')" unfolding ready_mem_def
    by (rule put_string_other, rule put_string_other, rule put_string_other, rule put_string_at) (simp_all add: simps)
  ultimately show ?thesis using assms by (elim insertE emptyE) (simp_all only: ready_literals_at)
qed

lemma ready_page:
  assumes "p \<in> set (usable_pages (memmap_response ready_responses))"
  shows "0x100000 \<le> unat p" "unat p < 0x1488000" "unat (p + 0xffff800000000000) = unat p + 0xffff800000000000"
proof -
  have "memmap_ok (memmap_response ready_responses)" by (simp add: memmap_ok_def ready_responses_def MEMMAP_USABLE_def)
  from usable_pages_range[OF this assms] show r: "0x100000 \<le> unat p" "unat p < 0x1488000"
    by (auto simp: ready_responses_def)
  then show "unat (p + 0xffff800000000000) = unat p + 0xffff800000000000" by (simp add: unat_plus_small)
qed

lemma ready_area: "boot_area ready_responses \<subseteq> {x. 0x1000 \<le> unat x}"
proof
  fix x assume "x \<in> boot_area ready_responses"
  then obtain p where p: "p \<in> set (usable_pages (memmap_response ready_responses))"
    "x \<in> rng p 4096 \<or> x \<in> rng (p + 0xffff800000000000) 4096"
    by (auto simp: boot_area_def ready_responses_def)
  note ready_page[OF p(1)]
  with p(2) show "x \<in> {x. 0x1000 \<le> unat x}" by (auto simp: rng_def in_range_nowrap)
qed

lemma ready_ok: "boot_ready ready_responses ready_image ready_kernel"
proof -
  have "literal_in_place ready_image ready_responses (mem ready_kernel) str"
    if "str \<in> {''kernel'', ''idle'', ''Proc1'', ''proc1p1''}" for str
    unfolding literal_in_place_def using that ready_strings[OF that] ready_area
    by (intro low_string) (auto simp: ready_kernel_def ready_image_def ready_literals_def)
  moreover have "init_writes (ld_symbols ready_image) (limine_populate ready_responses ready_kernel)
      = init_writes sample_symbols (boot_vmm 5000)"
    by (simp add: init_writes_def text_writes_def rodata_writes_def data_writes_def limine_populate_def ready_responses_def
        ready_image_def boot_vmm_def)
  moreover have "length (usable_pages (memmap_response ready_responses)) = 5000"
    by (simp add: usable_pages_def ready_responses_def region_pages_def)
  moreover have "responsive ready_kernel"
    by (auto simp: responsive_def ready_kernel_def intro!: exI[of _ 0])
  moreover have "length (syscalls ready_kernel) = 512" "length (pmm_stack ready_kernel) = STACK_SIZE" "pmm_free_blocks ready_kernel = NULL"
    by (simp_all add: ready_kernel_def sched.defs start_base_def blank_tables_def)
  moreover have "memmap_ok (memmap_response ready_responses)" by (simp add: memmap_ok_def ready_responses_def MEMMAP_USABLE_def)
  ultimately show ?thesis
    using sample_tables[of 5000] by (simp add: boot_ready_def STACK_SIZE_numeral) (simp add: ready_responses_def)
qed

theorem kmain_boots_witness:
  "\<exists>s' K kt P t as. kmain_x86_64 ready_responses ready_image ready_kernel = Some s' \<and> built as [(K, [kt]), (P, [t])] s'
    \<and> t_reg (mem s') t sf_rip = 0xffffffff80000300 \<and> translation (vmm_kernel_pagemap s') s' (key 0xfee00123) = Some 0xfee00003"
proof -
  obtain s' K kt P t as where s': "kmain_x86_64 ready_responses ready_image ready_kernel = Some s'"
    "built as [(K, [kt]), (P, [t])] s'" "t_reg (mem s') t sf_rip = proc1_addr ready_image"
    "\<forall>va. unat va < 2 ^ 32 \<longrightarrow> translation (vmm_kernel_pagemap s') s' (key va) = Some (page_base va OR 3)
        \<and> translation (vmm_kernel_pagemap s') s' (key (va + hhdm_offset ready_responses)) = Some (page_base va OR 3)"
    using kmain_boots[OF ready_ok] by (elim exE conjE) (rule that)
  have "translation (vmm_kernel_pagemap s') s' (key 0xfee00123) = Some (page_base 0xfee00123 OR 3)"
    using s'(4)[rule_format, of "0xfee00123"] by simp
  moreover have "page_base 0xfee00123 OR 3 = (0xfee00003 :: u64)" by (simp add: page_base_def)
  ultimately show ?thesis using s'(1-3) by (intro exI[of _ s'] exI[of _ K] exI[of _ kt] exI[of _ P] exI[of _ t] exI[of _ as] conjI)
      (simp_all add: ready_image_def)
qed

end
