(* ===== verification/ConsolePanic.thy ===== *)
theory ConsolePanic
  imports ConsoleLog
begin

text \<open>
  The panic screen on a working console: everything is printed and the processor is halted.
\<close>

section \<open>The texts of the screen\<close>

lemma parse_panic:
  "npf_parse_format_spec ''%s\<newline>'' = Npf_spec STRING ''\<newline>''"
  "npf_parse_format_spec ''%s\<newline>\<newline>'' = Npf_spec STRING ''\<newline>\<newline>''"
  "npf_parse_format_spec ''%s (Arg1: %d)\<newline>\<newline>'' = Npf_spec STRING '' (Arg1: %d)\<newline>\<newline>''"
  "npf_parse_format_spec ''%d)\<newline>\<newline>'' = Npf_spec DECIMAL '')\<newline>\<newline>''"
  by code_simp+

lemma printf_panic:
  fixes x :: u32
  assumes "c_string rd None p = Some bs"
  shows "printf rd ''panic! %s\<newline>'' [p] = Some (map of_char ''panic! '' @ bs @ map of_char ''\<newline>'')"
    and "printf rd ''%s\<newline>\<newline>'' [p] = Some (bs @ map of_char ''\<newline>\<newline>'')"
    and "printf rd ''*** STOP: %s (Arg1: %d)\<newline>\<newline>'' [p, ucast x]
      = Some (map of_char ''*** STOP: '' @ bs @ map of_char '' (Arg1: '' @ signed_decimal (sint x)
          @ map of_char '')\<newline>\<newline>'')"
proof -
  have "printf_text rd ''%s\<newline>'' [p] = Some (bs @ map of_char ''\<newline>'')"
    by (simp only: printf_text_string[OF parse_panic(1) assms]) (simp add: printf_text_plain')
  then show "printf rd ''panic! %s\<newline>'' [p] = Some (map of_char ''panic! '' @ bs @ map of_char ''\<newline>'')"
    using printf_text_plain[of "''panic! ''" rd "''%s\<newline>''" "[p]"] by (simp add: printf_no_nul)
  show "printf rd ''%s\<newline>\<newline>'' [p] = Some (bs @ map of_char ''\<newline>\<newline>'')"
    by (subst printf_no_nul, simp)
       (simp only: printf_text_string[OF parse_panic(2) assms], simp add: printf_text_plain')
  have "(ucast (ucast x :: u64) :: u32) = x" by (simp add: ucast_up_ucast_id is_up)
  then have "printf_text rd ''%d)\<newline>\<newline>'' [ucast x] = Some (signed_decimal (sint x) @ map of_char '')\<newline>\<newline>'')"
    by (simp add: parse_panic(4) field_text_int)
  then have "printf_text rd '' (Arg1: %d)\<newline>\<newline>'' [ucast x]
      = Some (map of_char '' (Arg1: '' @ signed_decimal (sint x) @ map of_char '')\<newline>\<newline>'')"
    using printf_text_plain[of "'' (Arg1: ''" rd "''%d)\<newline>\<newline>''" "[ucast x]"] by simp
  then have "printf_text rd ''%s (Arg1: %d)\<newline>\<newline>'' [p, ucast x]
      = Some (bs @ map of_char '' (Arg1: '' @ signed_decimal (sint x) @ map of_char '')\<newline>\<newline>'')"
    by (simp only: printf_text_string[OF parse_panic(3) assms]) simp
  then show "printf rd ''*** STOP: %s (Arg1: %d)\<newline>\<newline>'' [p, ucast x]
      = Some (map of_char ''*** STOP: '' @ bs @ map of_char '' (Arg1: '' @ signed_decimal (sint x)
          @ map of_char '')\<newline>\<newline>'')"
    using printf_text_plain[of "''*** STOP: ''" rd "''%s (Arg1: %d)\<newline>\<newline>''" "[p, ucast x]"]
    by (simp add: printf_no_nul)
qed

section \<open>The whole screen\<close>

definition stop_text :: "string \<Rightarrow> u32 \<Rightarrow> u8 list" where
  "stop_text name arg = map of_char (''*** STOP: '' @ name @ '' (Arg1: '') @ signed_decimal (sint arg) @ map of_char '')\<newline>\<newline>''"

definition screen_text :: "int \<Rightarrow> u32 \<Rightarrow> u8 list" where
  "screen_text cause arg =
     concat (map c_line panic_banner)
     @ c_line (explainations ! nat cause @ ''\<newline>\<newline>'')
     @ concat (map c_line panic_advice)
     @ (stop_text (ex_msgs ! nat cause) arg @ [0])
     @ c_line (replicate 75 CHR ''!'' @ ''\<newline>\<newline>'')"

definition panic_text :: "int \<Rightarrow> u32 \<Rightarrow> u8 list" where
  "panic_text cause arg =
     terminal_text Lg_info ''kernel'' (map of_char (''panic! '' @ ex_msgs ! nat cause @ ''\<newline>'')) @ screen_text cause arg"

definition plain :: "string \<Rightarrow> bool" where
  "plain str \<longleftrightarrow> CHR ''%'' \<notin> set str \<and> CHR 0x00 \<notin> set str \<and> length str < 2000"

lemma plain_lines: "list_all plain panic_banner" "list_all plain panic_advice"
  "plain (replicate 75 CHR ''!'' @ ''\<newline>\<newline>'')"
  by (simp_all add: plain_def panic_banner_def panic_advice_def)

lemma plain_zero: "plain str \<Longrightarrow> 0 \<notin> set (map of_char str :: u8 list)"
  by (auto simp: plain_def of_char_zero)

lemma plain_causes: "0 \<le> cause \<Longrightarrow> cause \<le> MAX_CAUSE \<Longrightarrow> plain (ex_msgs ! nat cause) \<and> plain (explainations ! nat cause)"
proof -
  assume "0 \<le> cause" "cause \<le> MAX_CAUSE"
  then have "cause = 0 \<or> cause = 1 \<or> cause = 2" by (auto simp: MAX_CAUSE_def)
  then show ?thesis by (auto simp: plain_def ex_msgs_def explainations_def)
qed

lemma prints_lines:
  "console_ok c \<Longrightarrow> list_all plain ls \<Longrightarrow> prints c (concat (map c_line ls)) [] (tty_lines ls c)"
proof (induction ls arbitrary: c)
  case Nil
  then show ?case by (simp add: prints_done)
next
  case (Cons l ls)
  have "prints c (c_line l @ concat (map c_line ls)) ([] @ []) (and_then (tty_printf l [] c) (tty_lines ls))"
    using Cons.prems
    by (intro prints_then[OF prints_plain] Cons.IH) (simp_all add: plain_def same_console_keeps)
  then show ?case by (simp add: eta_contract_eq)
qed

definition panic_literals :: "'a console_scheme \<Rightarrow> int \<Rightarrow> bool" where
  "panic_literals c cause \<longleftrightarrow> log_literals c Lg_info ''kernel''
     \<and> literal_ok c (ex_msgs ! nat cause) \<and> literal_ok c (explainations ! nat cause)"

definition arg_ok :: "'a console_scheme \<Rightarrow> ptr \<Rightarrow> bool" where
  "arg_ok c args \<longleftrightarrow> args = NULL \<or> (\<forall>x. in_range args 4 x \<longrightarrow> legible c x \<noteq> None)"

lemma panic_arg_same:
  assumes "same_console c c'" and "arg_ok c args"
  shows "panic_arg args c' = panic_arg args c"
proof (cases "args = NULL")
  case False
  have "load (mem c') args 4 = load (mem c) args 4"
  proof (rule load_cong)
    fix x assume "in_range args 4 x"
    moreover have "legible c' x = legible c x" by (simp add: same_console_keeps[OF assms(1)])
    ultimately show "mem c' x = mem c x"
      using assms(2) False by (auto simp: arg_ok_def legible_def readable_def split: if_splits)
  qed simp
  then show ?thesis by (simp add: panic_arg_def load32_def)
qed (simp add: panic_arg_def)

lemma stop_text_fits:
  assumes "plain name"
  shows "length (stop_text name arg) < 2048" and "0 \<notin> set (stop_text name arg)"
proof -
  have "sint (scast arg :: u64) = sint arg" by (simp add: sint_up_scast is_up)
  then have "length (signed_decimal (sint arg)) \<le> 23" using signed_decimal_length[of "scast arg"] by metis
  then show "length (stop_text name arg) < 2048" using assms by (simp add: plain_def stop_text_def)
  show "0 \<notin> set (stop_text name arg)"
    using plain_zero[OF assms] numeral_no_nul[of 32] by (simp add: signed_decimal_def stop_text_def)
qed

lemma panic_keeps:
  assumes "same_console c c'"
  shows "panic_literals c' cause = panic_literals c cause" and "arg_ok c' args = arg_ok c args"
  using assms by (simp_all add: panic_literals_def log_literals_same arg_ok_def same_console_keeps)

lemma panic_lines:
  assumes "console_ok c" and "panic_literals c cause" and "plain (ex_msgs ! nat cause)" and "plain (explainations ! nat cause)"
  shows "prints c (c_line (explainations ! nat cause @ ''\<newline>\<newline>'')) [] (tty_printf ''%s\<newline>\<newline>'' [lit c (explainations ! nat cause)] c)"
    and "prints c (stop_text (ex_msgs ! nat cause) (panic_arg args c) @ [0]) []
      (tty_printf ''*** STOP: %s (Arg1: %d)\<newline>\<newline>'' [lit c (ex_msgs ! nat cause), ucast (panic_arg args c)] c)"
proof -
  have lits: "c_string (legible c) None (lit c (ex_msgs ! nat cause)) = Some (map of_char (ex_msgs ! nat cause))"
    "c_string (legible c) None (lit c (explainations ! nat cause)) = Some (map of_char (explainations ! nat cause))"
    using assms(2) by (simp_all add: panic_literals_def literal_ok_def)
  show "prints c (c_line (explainations ! nat cause @ ''\<newline>\<newline>'')) [] (tty_printf ''%s\<newline>\<newline>'' [lit c (explainations ! nat cause)] c)"
    using prints_printf(1)[OF assms(1) printf_panic(2)[OF lits(2)]] assms(4) plain_zero[OF assms(4)]
    by (simp add: c_line_def plain_def)
  show "prints c (stop_text (ex_msgs ! nat cause) (panic_arg args c) @ [0]) []
      (tty_printf ''*** STOP: %s (Arg1: %d)\<newline>\<newline>'' [lit c (ex_msgs ! nat cause), ucast (panic_arg args c)] c)"
    using prints_printf(1)[OF assms(1) _ stop_text_fits[OF assms(3)]] printf_panic(3)[OF lits(1)]
    by (simp add: stop_text_def)
qed

lemma prints_screen:
  assumes "console_ok c" and "0 \<le> cause" and "cause \<le> MAX_CAUSE" and "panic_literals c cause" and "arg_ok c args"
  shows "prints c (screen_text cause (panic_arg args c)) []
     (and_then (tty_clear c) (\<lambda>c. and_then (tty_lines panic_banner c) (\<lambda>c.
      and_then (tty_printf ''%s\<newline>\<newline>'' [lit c (explainations ! nat cause)] c) (\<lambda>c. and_then (tty_lines panic_advice c) (\<lambda>c.
      and_then (tty_printf ''*** STOP: %s (Arg1: %d)\<newline>\<newline>'' [lit c (ex_msgs ! nat cause), ucast (panic_arg args c)] c) (\<lambda>c.
        tty_printf (replicate 75 CHR ''!'' @ ''\<newline>\<newline>'') [] c))))))" (is "prints c _ [] ?run")
proof -
  note pl = plain_causes[OF assms(2,3)]
  have ok: "console_ok c'" "panic_literals c' cause" "panic_arg args c' = panic_arg args c" if "same_console c c'" for c'
    using assms(1,4) panic_arg_same[OF that assms(5)] by (simp_all add: same_console_keeps[OF that] panic_keeps[OF that])
  have 1: "prints c [] [] (tty_clear c)" using assms(1) by (simp add: console_ok_def prints_tty)
  have 2: "prints c' (concat (map c_line panic_banner)) [] (tty_lines panic_banner c')"
    "prints c' (concat (map c_line panic_advice)) [] (tty_lines panic_advice c')"
    "prints c' (c_line (replicate 75 CHR ''!'' @ ''\<newline>\<newline>'')) [] (tty_printf (replicate 75 CHR ''!'' @ ''\<newline>\<newline>'') [] c')"
    if "same_console c c'" for c'
    using prints_lines[OF ok(1)[OF that]] prints_plain[OF ok(1)[OF that]] plain_lines by (simp_all add: plain_def)
  have 3: "prints c' (c_line (explainations ! nat cause @ ''\<newline>\<newline>'')) []
      (tty_printf ''%s\<newline>\<newline>'' [lit c' (explainations ! nat cause)] c')" if "same_console c c'" for c'
    using panic_lines(1)[OF ok(1)[OF that] ok(2)[OF that]] pl by simp
  have 4: "prints c' (stop_text (ex_msgs ! nat cause) (panic_arg args c) @ [0]) []
      (tty_printf ''*** STOP: %s (Arg1: %d)\<newline>\<newline>'' [lit c' (ex_msgs ! nat cause), ucast (panic_arg args c')] c')"
    if "same_console c c'" for c'
    using panic_lines(2)[OF ok(1)[OF that] ok(2)[OF that], of args] pl ok(3)[OF that] by simp
  have "prints c ([] @ screen_text cause (panic_arg args c)) ([] @ [] @ [] @ [] @ [] @ []) ?run"
    unfolding screen_text_def
    by (rule prints_next[OF same_console_refl 1])
       (rule prints_next, assumption, erule 2(1), rule prints_next, assumption, erule 3,
        rule prints_next, assumption, erule 2(2), rule prints_next, assumption, erule 4, erule 2(3))
  then show ?thesis by simp
qed

lemma panic_runs:
  assumes "console_ok c" and "\<not> logger_lock c" and "0 \<le> cause" and "cause \<le> MAX_CAUSE"
    and "panic_literals c cause" and "arg_ok c args"
  shows "\<exists>c' es. panic cause args c = Some c' \<and> trace c' = es @ [Cli, Hlt]
    \<and> shown (trace c') = shown (trace c) @ panic_text cause (panic_arg args c)"
proof -
  let ?name = "ex_msgs ! nat cause" and ?t = "map of_char (''panic! '' @ ex_msgs ! nat cause @ ''\<newline>'') :: u8 list"
  have plain: "plain ?name" using plain_causes[OF assms(3,4)] by simp
  have lits: "c_string (legible c) None (lit c ?name) = Some (map of_char ?name)" "log_literals c Lg_info ''kernel''"
    using assms(5) by (simp_all add: panic_literals_def literal_ok_def)
  obtain c1 where c1: "log_line Lg_info ''kernel'' ''panic! %s\<newline>'' [lit c ?name] c = Done c1" "same_console c c1"
    "shown (trace c1) = shown (trace c) @ terminal_text Lg_info ''kernel'' ?t"
    using prints_log_line[OF assms(1,2) lits(2), of "''panic! %s\<newline>''" "[lit c ?name]" ?t]
      printf_panic(1)[OF lits(1)] plain plain_zero[OF plain] by (auto simp: plain_def prints_def)
  have cause: "\<not> (cause < 0 \<or> int (length ex_msgs) \<le> cause)" "(if MAX_CAUSE < cause then 0 else cause) = cause"
    using assms(3,4) by (simp_all add: MAX_CAUSE_def ex_msgs_def)
  have "console_ok c1" "panic_literals c1 cause" "arg_ok c1 args" "panic_arg args c1 = panic_arg args c"
    using assms(1,5,6) panic_arg_same[OF c1(2) assms(6)]
    by (simp_all add: same_console_keeps[OF c1(2)] panic_keeps[OF c1(2)])
  with prints_screen[OF this(1) assms(3,4) this(2,3)] obtain c2 where c2: "panic_screen cause args c = Done c2"
    "shown (trace c2) = shown (trace c) @ panic_text cause (panic_arg args c)"
    using c1 unfolding panic_screen_def if_not_P[OF cause(1)] cause(2) Let_def
    by (auto simp: prints_def panic_text_def)
  then have "panic cause args c = Some (emit Hlt (emit Cli c2))" by (subst panic.simps) simp
  then show ?thesis using c2(2) by auto
qed

text \<open>
  C12. \<open>panic\<close> with one of its causes, on an enabled console whose locks are free, does print the
  whole screen (the log line, the banner, the explanation of the cause, the advice and the technical line with
  the word at \<open>args\<close>, or -1 without one) and then halts the processor with interrupts off.
\<close>

theorem panic_reports:
  assumes "console_ok c" and "\<not> logger_lock c" and "0 \<le> cause" and "cause \<le> MAX_CAUSE"
    and "panic_literals c cause" and "arg_ok c args"
  shows "\<exists>c' es. panic cause args c = Some c' \<and> trace c' = es @ [Cli, Hlt]
    \<and> shown (trace c') = shown (trace c) @ panic_text cause (panic_arg args c)"
  by (rule panic_runs[OF assms])

theorem panic_reports_witness:
  "\<exists>c' es. panic DEADLOCKED_KERNEL_COMPONENT NULL (sample_console True) = Some c' \<and> trace c' = es @ [Cli, Hlt]
    \<and> shown (trace c') = panic_text 2 (- 1)"
proof -
  have "panic_literals (sample_console True) 2"
    using sample_literals_ok[of True] sample_console_ok(2) by (simp add: panic_literals_def ex_msgs_def)
  with panic_reports[OF sample_console_ok(1), of DEADLOCKED_KERNEL_COMPONENT NULL] show ?thesis
    by (auto simp: DEADLOCKED_KERNEL_COMPONENT_def MAX_CAUSE_def arg_ok_def panic_arg_def sample_console_def)
qed

end
