(* ===== verification/KernelConsole.thy ===== *)
theory KernelConsole
  imports KernelBoot ConsolePanic
begin

text \<open>
  The kernel and its console together: what the boot logs, line by line, and what a console that is given
  these lines shows; what the screen says after an exception of the kernel.
\<close>

section \<open>Memory management\<close>

definition usable_line :: "memmap_entry \<Rightarrow> event" where
  "usable_line e = Logln Lg_info ''pmm'' ''Found an usable memory range: %p-%p\<newline>'' [me_base e, me_base e + me_length e]"

definition pmm_log :: "memmap_entry list \<Rightarrow> event list" where
  "pmm_log mm = map usable_line (filter (\<lambda>e. me_type e = MEMMAP_USABLE) mm)
     @ [Logln Lg_progress ''pmm'' ''Initialized!\<newline>'' []]"

definition vmm_log :: "event list" where
  "vmm_log =
     [Logln Lg_info ''vmm'' ''Creating the kernel page map...\<newline>'' [],
      Logln Lg_info ''vmm'' ''Mapping .text section...\<newline>'' [],
      Logln Lg_info ''vmm'' ''Mapping .rodata section...\<newline>'' [],
      Logln Lg_info ''vmm'' ''Mapping .data section...\<newline>'' [],
      Logln Lg_info ''vmm'' ''Mapping address from 0x0 to 0x100000000...\<newline>'' [],
      Logln Lg_progress ''vmm'' ''Initialized!\<newline>'' []]"

text \<open>An initialised page allocator logs nothing; the counter of threads is another component's.\<close>

definition unheard :: "'a sched_scheme \<Rightarrow> 'a sched_scheme \<Rightarrow> bool" where
  "unheard s s' \<longleftrightarrow> pmm_initialized s \<longrightarrow>
     log_calls (trace s') = log_calls (trace s) \<and> pmm_initialized s' \<and> next_thread_id s' = next_thread_id s"

lemma unheard_refl: "unheard s s"
  by (simp add: unheard_def)

lemma unheard_trans: "unheard s t \<Longrightarrow> unheard t u \<Longrightarrow> unheard s u"
  by (simp add: unheard_def)

lemma unheard_updates [simp]:
  "unheard s (s'\<lparr>mem := m\<rparr>) = unheard s s'" "unheard s (s'\<lparr>vmm_kernel_pagemap := p\<rparr>) = unheard s s'"
  "unheard s (s'\<lparr>vmm_current_pagemap := p\<rparr>) = unheard s s'"
  "unheard (s\<lparr>mem := m\<rparr>) s' = unheard s s'" 
  by (simp_all add: unheard_def)

lemma unheard_allocpage: "pmm_allocpage s = (p, s') \<Longrightarrow> unheard s s'"
  by (auto simp: unheard_def pmm_allocpage_def Let_def split: if_splits)

lemma unheard_alloc_virtual: "alloc_virtual s = (p, s') \<Longrightarrow> unheard s s'"
  by (auto simp: alloc_virtual_def split: prod.splits dest: unheard_allocpage)

lemma unheard_next_lvl: "vmm_get_next_lvl level i s = (p, s') \<Longrightarrow> unheard s s'"
  by (auto simp: vmm_get_next_lvl_def Let_def unheard_refl split: prod.splits if_splits dest: unheard_allocpage)

lemma unheard_map: "unheard s (vmm_map pm va pa fl s)"
proof -
  obtain p3 s1 where 1: "vmm_get_next_lvl (topLevel (mem s) pm) (drop_bit 39 va AND 0x1ff) s = (p3, s1)"
    by (rule prod.exhaust)
  obtain p2 s2 where 2: "vmm_get_next_lvl p3 (drop_bit 30 va AND 0x1ff) s1 = (p2, s2)" by (rule prod.exhaust)
  obtain p1 s3 where 3: "vmm_get_next_lvl p2 (drop_bit 21 va AND 0x1ff) s2 = (p1, s3)" by (rule prod.exhaust)
  have "unheard s s3" using unheard_trans[OF unheard_trans] 1 2 3 unheard_next_lvl by blast
  then show ?thesis by (simp add: vmm_map_def 1 2 3)
qed

lemma unheard_section:
  assumes "map_section a stop vb pb fl s = Some s'"
  shows "unheard s s'"
  using assms
proof (rule map_section.raw_induct[where P = "\<lambda>a stop vb pb fl s s'. unheard s s'", rotated])
  fix rec :: "u64 \<Rightarrow> u64 \<Rightarrow> u64 \<Rightarrow> u64 \<Rightarrow> u64 \<Rightarrow> 'a sched_scheme \<Rightarrow> 'a sched_scheme option" and a stop vb pb fl s s'
  assume 1: "\<And>a stop vb pb fl s s'. rec a stop vb pb fl s = Some s' \<Longrightarrow> unheard s s'"
    "(if a < stop then rec (a + PAGE_SIZE) stop vb pb fl (vmm_map (vmm_kernel_pagemap s) a (a - vb + pb) fl s)
      else Some s) = Some s'"
  show "unheard s s'"
  proof (cases "a < stop")
    case True
    with 1 have "unheard (vmm_map (vmm_kernel_pagemap s) a (a - vb + pb) fl s) s'" by simp
    then show ?thesis using unheard_trans[OF unheard_map] by blast
  qed (use 1 in \<open>simp add: unheard_refl\<close>)
qed

lemma unheard_low:
  assumes "map_low a stop s = Some s'"
  shows "unheard s s'"
  using assms
proof (rule map_low.raw_induct[where P = "\<lambda>a stop s s'. unheard s s'", rotated])
  fix rec :: "u64 \<Rightarrow> u64 \<Rightarrow> 'a sched_scheme \<Rightarrow> 'a sched_scheme option" and a stop s s'
  assume 1: "\<And>a stop s s'. rec a stop s = Some s' \<Longrightarrow> unheard s s'"
    "(if a < stop
      then let s1 = vmm_map (vmm_kernel_pagemap s) a a (1 OR 2) s;
               s2 = vmm_map (vmm_kernel_pagemap s1) (PHYSICAL_TO_VIRTUAL s1 a) a (1 OR 2) s1
           in rec (a + PAGE_SIZE) stop s2
      else Some s) = Some s'"
  let ?s1 = "vmm_map (vmm_kernel_pagemap s) a a (1 OR 2) s"
  let ?s2 = "vmm_map (vmm_kernel_pagemap ?s1) (PHYSICAL_TO_VIRTUAL ?s1 a) a (1 OR 2) ?s1"
  show "unheard s s'"
  proof (cases "a < stop")
    case True
    with 1 have "unheard ?s2 s'" by (simp add: Let_def)
    then show ?thesis using unheard_trans[OF unheard_map unheard_trans[OF unheard_map]] by blast
  qed (use 1 in \<open>simp add: unheard_refl\<close>)
qed

lemma unheard_tables: "unheard s (vmm_init_tables s)"
proof -
  obtain p1 s1 where 1: "alloc_virtual s = (p1, s1)" by (rule prod.exhaust)
  let ?s2 = "s1\<lparr>vmm_kernel_pagemap := p1, mem := zero_page p1 (mem s1)\<rparr>"
  obtain p2 s3 where 2: "alloc_virtual ?s2 = (p2, s3)" by (rule prod.exhaust)
  let ?m3 = "set_topLevel p1 p2 (mem s3)"
  let ?s4 = "s3\<lparr>mem := zero_page (topLevel ?m3 p1) ?m3\<rparr>"
  obtain p3 s5 where 3: "alloc_virtual ?s4 = (p3, s5)" by (rule prod.exhaust)
  have "unheard ?s2 s3" "unheard ?s4 s5" using unheard_alloc_virtual 2 3 by blast+
  then have "unheard s s5" using unheard_alloc_virtual[OF 1] by (simp add: unheard_def)
  then show ?thesis by (simp add: vmm_init_tables_def 1 2 3 Let_def)
qed

lemma vmm_init_logs:
  assumes "vmm_init ld s = Some s'" and "pmm_initialized s"
  shows "log_calls (trace s') = log_calls (trace s) @ vmm_log" and "next_thread_id s' = next_thread_id s"
proof -
  define e where "e i = vmm_log ! i" for i
  let ?s1 = "vmm_init_tables (emit (e 0) s)"
  obtain a b c d fl fl' fl'' s2 s3 s4 s5 where
    r: "map_section a b (kernel_virt_addr ?s1) (kernel_phys_addr ?s1) 1 (emit (e 1) ?s1) = Some s2"
    and "map_section fl fl' (kernel_virt_addr ?s1) (kernel_phys_addr ?s1) (1 OR push_bit 63 1) (emit (e 2) s2) = Some s3"
    and "map_section c d (kernel_virt_addr ?s1) (kernel_phys_addr ?s1) (1 OR 2 OR push_bit 63 1) (emit (e 3) s3) = Some s4"
    and "map_low 0 0x100000000 (emit (e 4) s4) = Some s5"
    and s': "s' = emit (e 5) (vmm_load_pagemap (vmm_kernel_pagemap s5) s5)"
    using assms(1) by (auto simp: vmm_init_def Let_def e_def vmm_log_def split: bind_splits)
  then have "unheard (emit (e 1) ?s1) s2" "unheard (emit (e 2) s2) s3" "unheard (emit (e 3) s3) s4" "unheard (emit (e 4) s4) s5"
    using unheard_section unheard_low by blast+
  moreover have "unheard s5 (vmm_load_pagemap (vmm_kernel_pagemap s5) s5)"
    by (simp add: unheard_def vmm_load_pagemap_def Let_def) (simp add: emit_def)
  moreover have "pmm_initialized (emit v u) = pmm_initialized u \<and> next_thread_id (emit v u) = next_thread_id u"
    for v and u :: "'a sched_scheme" by (simp add: emit_def)
  ultimately have "log_calls (trace s') = log_calls (trace s) @ concat (map (\<lambda>i. log_calls [e i]) [0, 1, 2, 3, 4, 5])"
    "next_thread_id s' = next_thread_id s"
    using assms(2) unheard_tables[of "emit (e 0) s"] by (simp_all add: unheard_def s')
  then show "log_calls (trace s') = log_calls (trace s) @ vmm_log" "next_thread_id s' = next_thread_id s"
    by (simp_all add: e_def vmm_log_def)
qed

lemma pmm_init_logs:
  "log_calls (trace (pmm_init s)) = log_calls (trace s) @ pmm_log (memmap_ptr s)"
  "pmm_initialized (pmm_init s)" "pmm.more (pmm_init s) = pmm.more s"
proof -
  let ?ok = "\<lambda>(t :: 'a pmm_scheme) t'. pmm_initialized t \<longrightarrow> pmm_initialized t' \<and> trace t' = trace t"
  have free: "?ok t (fold pmm_freepage ps t)" for ps and t :: "'a pmm_scheme"
    by (induction ps arbitrary: t) (simp_all add: pmm_freepage_def)
  have "pmm_initialized (pmm_init_entry e t) \<and> log_calls (trace (pmm_init_entry e t))
      = log_calls (trace t) @ map usable_line (filter (\<lambda>e. me_type e = MEMMAP_USABLE) [e])"
    if t: "pmm_initialized t" for e and t :: "'a pmm_scheme"
  proof -
    define u where "u = (if me_type e \<noteq> MEMMAP_RESERVED then count_loop (me_length e) t else t)"
    define v where "v = logln Lg_info ''pmm'' ''Found an usable memory range: %p-%p\<newline>'' [me_base e, me_base e + me_length e] u"
    have u: "pmm_initialized u" "trace u = trace t" using t by (simp_all add: u_def count_loop_total)
    then have "pmm_initialized v" by (simp add: v_def emit_def)
    with u free[of v "region_pages (me_base e) (me_length e)"] show ?thesis
      by (simp add: pmm_init_entry_def Let_def u_def[symmetric] v_def[symmetric] free_loop_fold)
        (simp add: v_def usable_line_def)
  qed
  then have "pmm_initialized t \<Longrightarrow> pmm_initialized (fold pmm_init_entry mm t) \<and> log_calls (trace (fold pmm_init_entry mm t))
      = log_calls (trace t) @ map usable_line (filter (\<lambda>e. me_type e = MEMMAP_USABLE) mm)" for mm and t :: "'a pmm_scheme"
    by (induction mm arbitrary: t) simp_all
  from this[of "s\<lparr>pmm_stack_top := 0, pmm_initialized := True\<rparr>" "memmap_ptr s"]
  show "log_calls (trace (pmm_init s)) = log_calls (trace s) @ pmm_log (memmap_ptr s)" "pmm_initialized (pmm_init s)"
    by (simp_all add: pmm_init_def pmm_log_def) (simp add: emit_def)
  show "pmm.more (pmm_init s) = pmm.more s" by (rule pmm_init_more)
qed

section \<open>The boot\<close>

definition boot_log :: "limine_responses \<Rightarrow> u64 \<Rightarrow> event list" where
  "boot_log r tid = front_log @ pmm_log (memmap_response r) @ vmm_log @ back_log tid"

lemma kmain_logs:
  assumes ready: "boot_ready r k s"
  obtains s' where "kmain_x86_64 r k s = Some s'"
    "log_calls (trace s') = log_calls (trace s) @ boot_log r (next_thread_id s)"
proof -
  obtain s3 where s3: "boot_front r k s = Some s3" "low s3 = low ((limine_populate r s)\<lparr>syscalls := syscall_table\<rparr>)"
    "log_calls (trace s3) = log_calls (trace s) @ front_log"
    by (rule boot_front_runs[OF ready])
  obtain s4 where 4: "vmm_init (ld_symbols k) (pmm_init s3) = Some s4" "full_heap s4 []" "8 \<le> length (free_pages s4)"
    "boot_names k (heap_area [] s4) (mem s4)"
    by (rule boot_memory[OF ready s3(2)])
  obtain a t i j e p q u qs where q: "free_pages s4 = a # t # i # j # e # p # q # u # qs"
    using 4(3) by (auto simp: numeral_eq_Suc Suc_le_length_iff)
  obtain s' where s': "boot_back k s4 = Some s'" "log_calls (trace s') = log_calls (trace s4) @ back_log (next_thread_id s4)"
    by (rule boot_back_runs[OF 4(2) q 4(4)])
  have run: "kmain_x86_64 r k s = Some s'" by (simp add: kmain_stages s3(1) 4(1) s'(1))
  have "memmap_ptr s3 = memmap_response r" using low_fields(5)[OF s3(2)] by (simp add: limine_populate_def)
  moreover have "next_thread_id s3 = next_thread_id s" using s3(2) by (simp add: low_def sched.defs limine_populate_def)
  moreover have "next_thread_id (pmm_init s3) = next_thread_id s3"
    using pmm_init_logs(3)[of s3] by (cases s3; cases "pmm_init s3") simp
  moreover note v = vmm_init_logs[OF 4(1) pmm_init_logs(2)]
  ultimately have "log_calls (trace s') = log_calls (trace s) @ boot_log r (next_thread_id s)"
    by (simp add: s'(2) v pmm_init_logs(1) s3(3) boot_log_def)
  with run show thesis by (rule that)
qed

section \<open>A console that makes these calls\<close>

text \<open>
  The kernel's trace records the calls; here a console carries them out, from the first one on.
  \<open>f\<close> is what the emulator's initialisation returns.
\<close>

fun replay :: "(framebuffer \<Rightarrow> ptr) \<Rightarrow> event list \<Rightarrow> 'a console_scheme \<Rightarrow> 'a console_scheme outcome" where
  "replay f [] c = Done c"
| "replay f (Tty_enable # es) c = and_then (tty_enable f c) (replay f es)"
| "replay f (Logln lt cmp msg args # es) c = and_then (log_line lt cmp msg args c) (replay f es)"
| "replay f (_ # es) c = Stuck"

text \<open>A line of the log as a reader has it: its type, its component and its text.\<close>

type_synonym log_text = "logtype \<times> string \<times> u8 list"

definition reads_as :: "event \<Rightarrow> log_text \<Rightarrow> bool" where
  "reads_as e l \<longleftrightarrow> (\<exists>lt cmp msg args t. e = Logln lt cmp msg args \<and> l = (lt, cmp, t)
     \<and> (\<forall>rd. printf rd msg args = Some t) \<and> length t < 2048 \<and> 0 \<notin> set t)"

definition on_terminal :: "log_text list \<Rightarrow> u8 list" where
  "on_terminal ls = concat (map (\<lambda>(lt, cmp, t). terminal_text lt cmp t) ls)"

definition on_serial :: "log_text list \<Rightarrow> u8 list" where
  "on_serial ls = concat (map (\<lambda>(lt, cmp, t). serial_text lt cmp t) ls)"

definition literals_of :: "'a console_scheme \<Rightarrow> log_text list \<Rightarrow> bool" where
  "literals_of c ls \<longleftrightarrow> (\<forall>(lt, cmp, t) \<in> set ls. log_literals c lt cmp)"

lemma replay_prints:
  assumes "list_all2 reads_as es ls"
  shows "console_ok c \<Longrightarrow> \<not> logger_lock c \<Longrightarrow> literals_of c ls \<Longrightarrow>
    prints c (on_terminal ls) (on_serial ls) (replay f es c)"
  using assms
proof (induction arbitrary: c rule: list_all2_induct)
  case Nil
  then show ?case by (simp add: on_terminal_def on_serial_def prints_done)
next
  case (Cons e es l ls)
  obtain lt cmp msg args t where e: "e = Logln lt cmp msg args" "l = (lt, cmp, t)"
    "printf (legible c) msg args = Some t" "length t < 2048" "0 \<notin> set t"
    using Cons.hyps(1) by (auto simp: reads_as_def)
  have lit: "log_literals c lt cmp" "literals_of c ls" using Cons.prems(3) by (simp_all add: literals_of_def e(2))
  have rest: "prints c' (on_terminal ls) (on_serial ls) (replay f es c')" if "same_console c c'" for c'
    using Cons.IH[of c'] Cons.prems(1,2) lit(2) log_literals_same[OF that]
    by (simp add: same_console_keeps[OF that] literals_of_def)
  from prints_then[OF prints_log_line[OF Cons.prems(1,2) lit(1) e(3-5)] rest] show ?case
    by (simp add: e(1,2) on_terminal_def on_serial_def)
qed

text \<open>A console before \<open>tty_enable\<close>.\<close>

definition console_fresh :: "(framebuffer \<Rightarrow> ptr) \<Rightarrow> 'a console_scheme \<Rightarrow> bool" where
  "console_fresh f c \<longleftrightarrow> \<not> tty_enabled c \<and> \<not> tty_lock c \<and> \<not> logger_lock c \<and> ftctx c = NULL
     \<and> f (read_framebuffer (mem c) (framebuf c)) \<noteq> NULL \<and> stack_buf c \<noteq> NULL \<and> responsive c"

lemma tty_enable_fresh:
  assumes "console_fresh f c"
  obtains c1 where "tty_enable f c = Done c1" "console_ok c1" "\<not> logger_lock c1" "literals_of c1 ls = literals_of c ls"
    "shown (trace c1) = shown (trace c)" "sent (trace c1) = sent (trace c)"
proof -
  let ?c1 = "emit Term_clear (emit (Term_init (framebuf c))
    (c\<lparr>ftctx := f (read_framebuffer (mem c) (framebuf c)), tty_enabled := True\<rparr>))"
  have "tty_enable f c = Done ?c1"
    using assms by (simp add: console_fresh_def tty_enable_def tty_acquire_free fb_get_def term_call_def tty_release_def
        spinlock_release_def atomic_clear_def emit_def)
  moreover have "console_ok ?c1" "\<not> logger_lock ?c1"
    using assms by (simp_all add: console_fresh_def console_ok_def tty_ready_def responsive_def emit_def)
  moreover have "legible ?c1 = legible c" "lit ?c1 = lit c" by (simp_all add: legible_def emit_def)
  then have "literals_of ?c1 ls = literals_of c ls" by (simp add: literals_of_def log_literals_def literal_ok_def)
  ultimately show thesis by (intro that[of ?c1]) simp_all
qed

section \<open>The texts of the boot\<close>

definition plain_text :: "event \<Rightarrow> log_text" where
  "plain_text e = (case e of Logln lt cmp msg args \<Rightarrow> (lt, cmp, map of_char msg))"

lemma reads_plain:
  assumes "CHR ''%'' \<notin> set msg" and "CHR 0x00 \<notin> set msg" and "length msg < 2048"
  shows "reads_as (Logln lt cmp msg []) (plain_text (Logln lt cmp msg []))"
proof -
  have "0 \<notin> set (map of_char msg :: u8 list)" using assms(2) by (auto simp: of_char_zero)
  with assms show ?thesis by (simp add: reads_as_def plain_text_def printf_no_nul printf_text_plain')
qed

definition hex_address :: "u64 \<Rightarrow> u8 list" where
  "hex_address a = map of_char ''0x'' @ numeral_text 32 16 (unat a)"

definition decimal_int :: "u64 \<Rightarrow> u8 list" where
  "decimal_int x = signed_decimal (sint (ucast x :: u32))"

lemma parse_log_specs:
  "npf_parse_format_spec ''%p-%p\<newline>'' = Npf_spec (npf_spec_init\<lparr>conv_spec := NPF_FMT_SPEC_CONV_POINTER\<rparr>) ''-%p\<newline>''"
  "npf_parse_format_spec ''%p\<newline>'' = Npf_spec (npf_spec_init\<lparr>conv_spec := NPF_FMT_SPEC_CONV_POINTER\<rparr>) ''\<newline>''"
  "npf_parse_format_spec ''%d\<newline>'' = Npf_spec DECIMAL ''\<newline>''"
  by code_simp+

lemma field_pointer:
  "field_text rd (npf_spec_init\<lparr>conv_spec := NPF_FMT_SPEC_CONV_POINTER\<rparr>) (x # args) = Some (hex_address x, args)"
  by (simp add: field_text_eq star_args_def conv_text_def)
     (simp add: npf_spec_init_def npf_pad_c_def field_body_def layout_def hex_address_def)

lemma printf_range:
  "printf rd ''Found an usable memory range: %p-%p\<newline>'' [a, b]
    = Some (map of_char ''Found an usable memory range: '' @ hex_address a @ map of_char ''-'' @ hex_address b @ map of_char ''\<newline>'')"
proof -
  have "printf_text rd ''%p\<newline>'' [b] = Some (hex_address b @ map of_char ''\<newline>'')"
    by (subst printf_text.simps) (simp add: parse_log_specs(2) field_pointer)
  then have "printf_text rd ''-%p\<newline>'' [b] = Some (map of_char ''-'' @ hex_address b @ map of_char ''\<newline>'')"
    using printf_text_plain[of "''-''" rd "''%p\<newline>''" "[b]"] by simp
  then have "printf_text rd ''%p-%p\<newline>'' [a, b] = Some (hex_address a @ map of_char ''-'' @ hex_address b @ map of_char ''\<newline>'')"
    by (subst printf_text.simps) (simp add: parse_log_specs(1) field_pointer)
  then show ?thesis
    using printf_text_plain[of "''Found an usable memory range: ''" rd "''%p-%p\<newline>''" "[a, b]"]
    by (subst printf_no_nul) simp_all
qed

lemma printf_thread: "printf rd ''new thread %d\<newline>'' [x] = Some (map of_char ''new thread '' @ decimal_int x @ map of_char ''\<newline>'')"
proof -
  have "printf_text rd ''%d\<newline>'' [x] = Some (decimal_int x @ map of_char ''\<newline>'')"
    by (subst printf_text.simps) (simp add: parse_log_specs(3) field_text_int decimal_int_def)
  then show ?thesis
    using printf_text_plain[of "''new thread ''" rd "''%d\<newline>''" "[x]"] by (subst printf_no_nul) simp_all
qed

lemma hex_address_plain: "0 \<notin> set (hex_address a)" "length (hex_address a) \<le> 24"
proof -
  have "digit_char 32 (of_nat d) \<noteq> 0" if "d < 16" for d
  proof -
    have "\<forall>d \<in> set [0..<16]. digit_char 32 (of_nat d) \<noteq> 0" by code_simp
    with that show ?thesis by simp
  qed
  then show "0 \<notin> set (hex_address a)"
    using digits_below[of 16] by (force simp: hex_address_def numeral_text_def)
  have "length (numeral_text 32 16 (unat a)) \<le> 22" by (intro numeral_length_buffer unat_lt64) simp
  then show "length (hex_address a) \<le> 24" by (simp add: hex_address_def)
qed

lemma decimal_int_plain: "0 \<notin> set (decimal_int x)" "length (decimal_int x) \<le> 23"
proof -
  have "sint (scast (ucast x :: u32) :: u64) = sint (ucast x :: u32)" by (rule sint_up_scast) (simp add: is_up)
  with signed_decimal_length[of "scast (ucast x :: u32)"] show "length (decimal_int x) \<le> 23" by (simp add: decimal_int_def)
  show "0 \<notin> set (decimal_int x)" by (simp add: decimal_int_def signed_decimal_def numeral_no_nul)
qed

text \<open>The lines a reader sees.\<close>

definition range_text :: "memmap_entry \<Rightarrow> log_text" where
  "range_text e = (Lg_info, ''pmm'', map of_char ''Found an usable memory range: '' @ hex_address (me_base e)
     @ map of_char ''-'' @ hex_address (me_base e + me_length e) @ map of_char ''\<newline>'')"

definition thread_text :: "u64 \<Rightarrow> log_text" where
  "thread_text tid = (Lg_info, ''sched'', map of_char ''new thread '' @ decimal_int tid @ map of_char ''\<newline>'')"

definition boot_lines :: "limine_responses \<Rightarrow> u64 \<Rightarrow> log_text list" where
  "boot_lines r tid =
     map plain_text (tl front_log)
     @ map range_text (filter (\<lambda>e. me_type e = MEMMAP_USABLE) (memmap_response r))
     @ map plain_text (Logln Lg_progress ''pmm'' ''Initialized!\<newline>'' [] # vmm_log)
     @ plain_text (hd (back_log tid)) # thread_text tid # map plain_text (take 5 (drop 2 (back_log tid)))
     @ [thread_text (tid + 1)]"

lemma reads_range: "reads_as (usable_line e) (range_text e)"
  using hex_address_plain[of "me_base e"] hex_address_plain[of "me_base e + me_length e"]
  by (simp add: reads_as_def usable_line_def range_text_def printf_range)

lemma reads_thread: "reads_as (new_thread_line tid) (thread_text tid)"
  using decimal_int_plain[of tid] by (simp add: reads_as_def new_thread_line_def thread_text_def printf_thread)

lemma reads_all: "\<forall>e \<in> set es. reads_as e (g e) \<Longrightarrow> list_all2 reads_as es (map g es)"
  by (induction es) simp_all

lemma boot_log_reads: "boot_log r tid = Tty_enable # tl (boot_log r tid)" "list_all2 reads_as (tl (boot_log r tid)) (boot_lines r tid)"
proof -
  let ?u = "filter (\<lambda>e. me_type e = MEMMAP_USABLE) (memmap_response r)"
  have log: "boot_log r tid = Tty_enable # tl front_log @ map usable_line ?u
      @ (Logln Lg_progress ''pmm'' ''Initialized!\<newline>'' [] # vmm_log)
      @ hd (back_log tid) # new_thread_line tid # take 5 (drop 2 (back_log tid)) @ [new_thread_line (tid + 1)]"
    by (simp add: boot_log_def front_log_def pmm_log_def back_log_def)
  then show "boot_log r tid = Tty_enable # tl (boot_log r tid)" by simp
  have "\<forall>e \<in> set (tl front_log). reads_as e (plain_text e)"
    by (simp add: front_log_def reads_plain)
  moreover have "\<forall>e \<in> set (Logln Lg_progress ''pmm'' ''Initialized!\<newline>'' [] # vmm_log). reads_as e (plain_text e)"
    by (simp add: vmm_log_def reads_plain)
  moreover have "\<forall>e \<in> set (hd (back_log tid) # take 5 (drop 2 (back_log tid))). reads_as e (plain_text e)"
    by (simp add: back_log_def reads_plain)
  moreover have "list_all2 reads_as (map usable_line ?u) (map range_text ?u)"
    by (simp add: list_all2_map1 list_all2_map2 list.rel_refl reads_range)
  ultimately show "list_all2 reads_as (tl (boot_log r tid)) (boot_lines r tid)"
    unfolding log boot_lines_def list.sel
    by (intro list_all2_appendI reads_all list_all2_Cons[THEN iffD2] conjI) (simp_all add: reads_thread)
qed

text \<open>The strings that the logger reads from memory during the boot.\<close>

definition boot_literals :: "string list" where
  "boot_literals = [''kernel'', ''arch/gdt'', ''arch/ints'', ''arch'', ''syscalls'', ''pmm'', ''vmm'', ''sched'',
     ''info'', ''progress'', ''warn'', '': '']"

lemma boot_literals_enough:
  assumes "\<forall>str \<in> set boot_literals. literal_ok c str"
  shows "literals_of c (boot_lines r tid)"
proof -
  have app: "literals_of c (xs @ ys) = (literals_of c xs \<and> literals_of c ys)" for xs ys
    by (simp add: literals_of_def ball_Un)
  have one: "log_literals c lt cmp"
    if "lt \<in> {Lg_info, Lg_progress, Lg_warn}" "cmp \<in> set (take 8 boot_literals)" for lt cmp
    using assms that by (auto simp: boot_literals_def log_literals_def)
  have "literals_of c (map plain_text (tl front_log))"
    "literals_of c (map plain_text (Logln Lg_progress ''pmm'' ''Initialized!\<newline>'' [] # vmm_log))"
    "literals_of c (plain_text (hd (back_log tid)) # thread_text tid # map plain_text (take 5 (drop 2 (back_log tid)))
       @ [thread_text (tid + 1)])"
    by (simp_all add: literals_of_def plain_text_def front_log_def vmm_log_def back_log_def thread_text_def one boot_literals_def)
  moreover have "literals_of c (map range_text es)" for es
    by (auto simp: literals_of_def range_text_def one boot_literals_def)
  ultimately show ?thesis unfolding boot_lines_def app by blast
qed

text \<open>
  C8. The output of the boot.  On a machine that is ready, with a console whose terminal is not yet enabled,
  \<open>kmain\<close> boots, and the calls of \<open>tty_enable\<close> and of the logger that it makes, carried out by the
  console, write exactly these lines, in this order, to the terminal and to the serial line: the
  banner, the tables, every usable memory range, the page map's stages, the two threads with their numbers, and the
  farewell.  The console is left working, with its locks free.
\<close>

theorem boot_output:
  assumes "boot_ready r k s" and "console_fresh f c" and "\<forall>str \<in> set boot_literals. literal_ok c str"
  shows "\<exists>s' es c'. kmain_x86_64 r k s = Some s' \<and> log_calls (trace s') = log_calls (trace s) @ es
    \<and> replay f es c = Done c' \<and> tty_ready c' \<and> \<not> logger_lock c'
    \<and> shown (trace c') = shown (trace c) @ on_terminal (boot_lines r (next_thread_id s))
    \<and> sent (trace c') = sent (trace c) @ on_serial (boot_lines r (next_thread_id s))"
proof -
  let ?es = "boot_log r (next_thread_id s)" and ?ls = "boot_lines r (next_thread_id s)"
  obtain s' where s': "kmain_x86_64 r k s = Some s'" "log_calls (trace s') = log_calls (trace s) @ ?es"
    by (rule kmain_logs[OF assms(1)])
  obtain c1 where c1: "tty_enable f c = Done c1" "console_ok c1" "\<not> logger_lock c1" "literals_of c1 ?ls"
    "shown (trace c1) = shown (trace c)" "sent (trace c1) = sent (trace c)"
    using tty_enable_fresh[OF assms(2), of ?ls] boot_literals_enough[OF assms(3)] by metis
  note reads = boot_log_reads[of r "next_thread_id s"]
  have "replay f ?es c = replay f (tl ?es) c1" by (subst reads(1)) (simp add: c1(1))
  moreover obtain c' where "replay f (tl ?es) c1 = Done c'" "same_console c1 c'"
    "shown (trace c') = shown (trace c) @ on_terminal ?ls" "sent (trace c') = sent (trace c) @ on_serial ?ls"
    using replay_prints[OF reads(2) c1(2-4), of f] c1(5,6) by (auto simp: prints_def)
  moreover from this(2) have "tty_ready c'" "\<not> logger_lock c'"
    using c1(2,3) by (simp_all add: same_console_keeps console_ok_def)
  ultimately show ?thesis using s' by auto
qed

text \<open>The sample machine, and the sample console before its terminal is enabled.\<close>

lemma ready_range: "range_text (hd (memmap_response ready_responses))
    = (Lg_info, ''pmm'', map of_char ''Found an usable memory range: 0x100000-0x1488000\<newline>'')"
proof -
  have "numeral_text 32 16 0x100000 = map of_char ''100000''" "numeral_text 32 16 0x1488000 = map of_char ''1488000''"
    by (simp_all add: numeral_text_def digits.simps digit_char_def)
  then show ?thesis by (simp add: range_text_def ready_responses_def hex_address_def)
qed

definition fresh_console :: console where
  "fresh_console = (sample_console False)\<lparr>ftctx := NULL\<rparr>"

lemma fresh_console_ok:
  "console_fresh (\<lambda>_. 0x50000) fresh_console" "\<forall>str \<in> set boot_literals. literal_ok fresh_console str"
proof -
  show "console_fresh (\<lambda>_. 0x50000) fresh_console"
    by (auto simp: console_fresh_def fresh_console_def sample_console_def responsive_def intro!: exI[of _ 0])
  have "set boot_literals \<subseteq> set sample_literals" by (simp add: boot_literals_def sample_literals_def)
  then have "\<forall>str \<in> set boot_literals. literal_ok (sample_console False) str" using sample_literal by blast
  then show "\<forall>str \<in> set boot_literals. literal_ok fresh_console str"
    by (simp add: fresh_console_def literal_ok_def legible_def)
qed

theorem boot_output_witness:
  "\<exists>s' c'. kmain_x86_64 ready_responses ready_image ready_kernel = Some s'
    \<and> replay (\<lambda>_. 0x50000) (log_calls (trace s')) fresh_console = Done c'
    \<and> shown (trace c') = on_terminal (boot_lines ready_responses (next_thread_id ready_kernel))
    \<and> boot_lines ready_responses (next_thread_id ready_kernel) ! 7
      = (Lg_info, ''pmm'', map of_char ''Found an usable memory range: 0x100000-0x1488000\<newline>'')"
proof -
  have "trace ready_kernel = []" by (simp add: ready_kernel_def sched.defs start_base_def)
  moreover have "boot_lines ready_responses tid ! 7 = range_text (hd (memmap_response ready_responses))" for tid
    by (simp add: boot_lines_def front_log_def ready_responses_def)
  moreover have "trace fresh_console = []" by (simp add: fresh_console_def sample_console_def)
  ultimately show ?thesis
    using boot_output[OF ready_ok fresh_console_ok] by (simp add: ready_range) blast
qed

section \<open>An exception of the kernel\<close>

text \<open>The screen reads the low four bytes of the saved vector.\<close>

lemma load_split: "load m a (j + k) = load m a j + 256 ^ j * load m (a + of_nat j) k"
  by (induction j arbitrary: a) (simp_all add: algebra_simps)

lemma load32_load64: "load32 m a = ucast (load64 m a)"
proof -
  define n where "n = load m a 8"
  have "n = load m a 4 + 2 ^ 32 * load m (a + 4) 4" using load_split[of m a 4 4] by (simp add: n_def)
  moreover have "load m a 4 < 2 ^ 32" using load_bound[of m a 4] by simp
  ultimately have "load m a 4 = n mod 2 ^ 32" by simp
  moreover have "n < 2 ^ 64" using load_bound[of m a 8] by (simp add: n_def)
  ultimately show ?thesis unfolding load32_def load64_def n_def[symmetric]
    by (simp add: word_unat_eq_iff unsigned_ucast_eq take_bit_eq_mod unat_of_nat)
qed

text \<open>
  C13. An exception while the kernel's own page map is loaded: the handler switches interrupts off and panics, and the
  panic, on a working console over the same memory, prints the whole screen, names the cause
  \<open>KMODE_CPU_EXCEPTION\<close>, gives the number of the exception in decimal as its argument and halts the
  processor with interrupts off.
\<close>

theorem kernel_exception_reports:
  assumes "sf_get sf sf_vector s < 32" and "vmm_current_pagemap s = vmm_kernel_pagemap s"
    and "mem c = mem s" and "console_ok c" and "\<not> logger_lock c" and "sf + sf_vector \<noteq> NULL"
    and "panic_literals c KMODE_CPU_EXCEPTION" and "arg_ok c (sf + sf_vector)"
  shows "\<exists>c' es. interrupt_handler sf s = Some (Panics KMODE_CPU_EXCEPTION (sf + sf_vector) (emit Cli s))
    \<and> panic KMODE_CPU_EXCEPTION (sf + sf_vector) c = Some c' \<and> trace c' = es @ [Cli, Hlt]
    \<and> shown (trace c') = shown (trace c) @ panic_text KMODE_CPU_EXCEPTION (ucast (sf_get sf sf_vector s))"
proof -
  have "interrupt_handler sf s = Some (Panics KMODE_CPU_EXCEPTION (sf + sf_vector) (emit Cli s))"
    using assms(1,2) by (simp add: interrupt_handler_def Let_def sf_get_def emit_def)
  moreover have "panic_arg (sf + sf_vector) c = ucast (sf_get sf sf_vector s)"
    using assms(3,6) by (simp add: panic_arg_def sf_get_def load32_load64)
  moreover have "0 \<le> KMODE_CPU_EXCEPTION" "KMODE_CPU_EXCEPTION \<le> MAX_CAUSE"
    by (simp_all add: KMODE_CPU_EXCEPTION_def MAX_CAUSE_def)
  ultimately show ?thesis using panic_runs[OF assms(4,5) _ _ assms(7,8)] by simp
qed

text \<open>An exception 0 over memory that is zero.\<close>

theorem kernel_exception_reports_witness:
  "\<exists>c' es. panic KMODE_CPU_EXCEPTION 0x20078 (sample_console True) = Some c' \<and> trace c' = es @ [Cli, Hlt]
    \<and> shown (trace c') = panic_text 1 0"
proof -
  let ?s = "ready_kernel\<lparr>mem := console_mem\<rparr>" and ?c = "sample_console True"
  have zero: "console_mem x = 0" if "0x20000 \<le> unat x" for x
  proof -
    have "unat (x - 0x10000) = unat x - 0x10000" using that by (subst unat_sub) (simp_all add: word_le_nat_alt)
    moreover have "length sample_literals = 16" by (simp add: sample_literals_def)
    moreover have "256 \<le> (unat x - 0x10000) div 256" using that by (simp add: less_eq_div_iff_mult_less_eq)
    ultimately show ?thesis by (simp add: console_mem_def Let_def)
  qed
  have "load (\<lambda>_. 0) a n = 0" for a n by (induction n arbitrary: a) simp_all
  then have "load console_mem 0x20078 8 = 0"
    using load_cong[of 8 "0x20078" console_mem "\<lambda>_. 0"] zero by (simp add: in_range_nowrap)
  then have v: "sf_get 0x20000 sf_vector ?s = 0" by (simp add: sf_get_def sf_vector_def load64_def)
  have "panic_literals ?c KMODE_CPU_EXCEPTION"
    using sample_literal sample_console_ok(2)
    by (simp add: panic_literals_def KMODE_CPU_EXCEPTION_def ex_msgs_def sample_literals_def)
  moreover have "arg_ok ?c (0x20000 + sf_vector)"
    by (auto simp: arg_ok_def sample_legible in_range_nowrap sf_vector_def)
  moreover have "mem ?c = mem ?s" "\<not> logger_lock ?c" "trace ?c = []" by (simp_all add: sample_console_def)
  moreover have "vmm_current_pagemap ?s = vmm_kernel_pagemap ?s"
    by (simp add: ready_kernel_def sched.defs start_base_def)
  ultimately show ?thesis
    using kernel_exception_reports[of "0x20000" ?s ?c] v sample_console_ok(1)
    by (simp add: sf_vector_def) (simp add: KMODE_CPU_EXCEPTION_def)
qed

end
