(* ===== verification/KernelTick.thy ===== *)
theory KernelTick
  imports KernelBoot
begin

text \<open>
  The timer after the boot: the structures the boot has built satisfy the invariant of the scheduler, so
  every timer interrupt returns, the first one enters the first process, and from then on the kernel's
  thread and the process take turns, each resumed with the registers of its last interruption.
\<close>

section \<open>From the boot to the round robin\<close>

text \<open>The bytes of the structures.\<close>

definition struct_area :: "(ptr \<times> ptr list) list \<Rightarrow> ptr set" where
  "struct_area ps = (\<Union>x \<in> set (structs ps). rng x 336)"

text \<open>The structures lie behind the headers of distinct pages.\<close>

definition placed :: "ptr set \<Rightarrow> (ptr \<times> ptr list) list \<Rightarrow> bool" where
  "placed P ps \<longleftrightarrow> pages_ok P \<and> distinct (structs ps) \<and> (\<forall>x \<in> set (structs ps). x - 24 \<in> P)"

lemma built_placed: "built as ps s \<Longrightarrow> placed (set as) ps"
  by (auto simp: built_def full_heap_def pages_ok_def placed_def)

lemma struct_in: "t \<in> threads_of ps \<Longrightarrow> t \<in> set (structs ps)" "p \<in> fst ` set ps \<Longrightarrow> p \<in> set (structs ps)"
  by (auto simp: threads_of_def structs_def)

lemma struct_area_in: "x \<in> set (structs ps) \<Longrightarrow> n \<le> 336 \<Longrightarrow> rng x n \<subseteq> struct_area ps"
  using rng_sub[of x x n 336] by (auto simp: struct_area_def)

lemma placed_apart:
  assumes "placed P ps" and "rng sf 176 \<inter> struct_area ps = {}"
  shows "layout_apart sf ps"
proof -
  have P: "pages_ok P" and st: "distinct (structs ps)" "\<And>x. x \<in> set (structs ps) \<Longrightarrow> x - 24 \<in> P"
    using assms(1) by (simp_all add: placed_def)
  have ne: "t \<noteq> p" if "t \<in> threads_of ps" "p \<in> fst ` set ps" for t p
    using st(1) that by (auto simp: structs_def threads_of_def)
  have apart: "disj_range x n y k"
    if "x \<in> set (structs ps)" "y \<in> set (structs ps)" "x \<noteq> y" "0 < n" "0 < k" "n \<le> 4072" "k \<le> 4072" for x y n k
    using that struct_apart[OF P st(2,2)] by (intro rng_disjD) auto
  have frame: "disj_range sf 176 x n" if "x \<in> set (structs ps)" "0 < n" "n \<le> 336" for x n
    using struct_area_in[OF that(1,3)] assms(2) that(2) by (intro rng_disjD) auto
  have "distinct (map fst ps)" "distinct (concat (map snd ps))" using st(1) by (simp_all add: structs_def)
  then show ?thesis unfolding layout_apart_def using apart frame struct_in ne by simp
qed

text \<open>Code that leaves the structures alone leaves the list, the registers and the states of the threads alone.\<close>

lemma code_keeps:
  assumes "changes (- struct_area ps) m m'"
  shows "proc_list m' l ps = proc_list m l ps" and "x \<in> set (structs ps) \<Longrightarrow> t_status m' x = t_status m x"
    and "x \<in> set (structs ps) \<Longrightarrow> t_frame m' x = t_frame m x"
proof -
  have off: "- struct_area ps \<inter> rng x 336 = {}" if "x \<in> set (structs ps)" for x
    using struct_area_in[OF that, of 336] by auto
  note same = struct_off[OF assms off]
  show "proc_list m' l ps = proc_list m l ps" using same struct_in by (intro proc_list_cong) auto
  show "x \<in> set (structs ps) \<Longrightarrow> t_status m' x = t_status m x" "x \<in> set (structs ps) \<Longrightarrow> t_frame m' x = t_frame m x"
    using same by simp_all
qed

text \<open>Equal bytes at two addresses load equally.\<close>

lemma load_bytes:
  assumes "\<And>j. j < n \<Longrightarrow> m (a + of_nat j) = m' (b + of_nat j)"
  shows "load m a n = load m' b n"
  using assms
proof (induction n arbitrary: a b)
  case (Suc n)
  have "load m (a + 1) n = load m' (b + 1) n"
    using Suc.prems[of "Suc j" for j] by (intro Suc.IH) (simp add: add.assoc)
  with Suc.prems[of 0] show ?case by simp
qed simp

lemma load64_bytes:
  assumes "bytes_at m a n = bytes_at m' b n" and "i + 8 \<le> n"
  shows "load64 m (a + of_nat i) = load64 m' (b + of_nat i)"
proof -
  have at: "m (a + of_nat j) = m' (b + of_nat j)" if "j < n" for j
    using arg_cong[OF assms(1), of "\<lambda>l. l ! j"] that by (simp add: bytes_at_def)
  have "load m (a + of_nat i) 8 = load m' (b + of_nat i) 8"
    using at[of "i + j" for j] assms(2) by (intro load_bytes) (simp add: add.assoc)
  then show ?thesis by (simp add: load64_def)
qed

section \<open>A timer interrupt\<close>

lemma schedule_syscalls: "schedule sf s = Some s' \<Longrightarrow> syscalls s' = syscalls s" for s :: "'a kernel_scheme"
  by (auto simp: schedule_def Let_def split: bind_splits)

lemma timer_runs:
  assumes "sched_inv sf ps s" and "sf_get sf sf_vector s = 32"
  obtains s' where "interrupt_handler sf s = Some (Returned s')" "view_schedule ps (view_of sf ps s) = Some (view_of sf ps s')"
    "sched_inv sf ps s'" "sched_processes_list s' = sched_processes_list s" "syscalls s' = syscalls s"
proof -
  have "sched_inv sf ps (emit Cli s)" using assms(1) by (simp add: sched_inv_trace)
  then obtain s1 where s1: "schedule sf (emit Cli s) = Some s1"
    "view_schedule ps (view_of sf ps (emit Cli s)) = Some (view_of sf ps s1)" "sched_inv sf ps s1"
    "sched_processes_list s1 = sched_processes_list (emit Cli s)"
    by (rule schedule_view)
  have same: "view_of sf ps (finish_interrupt sf s1) = view_of sf ps s1" "sched_inv sf ps (finish_interrupt sf s1) = sched_inv sf ps s1"
    by (simp_all add: finish_interrupt_trace view_of_def sched_inv_def cong del: if_weak_cong)
  have "sf_get sf sf_vector (emit Cli s) = 32" using assms(2) by (simp add: sf_get_def)
  then have "interrupt_handler sf s = Some (Returned (finish_interrupt sf s1))"
    by (simp add: interrupt_handler_def Let_def s1(1))
  then show thesis
    by (rule that) (use s1(2-4) schedule_syscalls[OF s1(1)] in \<open>simp_all add: same sched_inv_trace\<close>,
      simp_all add: finish_interrupt_trace emit_def)
qed

text \<open>The kernel's process and one more, both with a live thread: they take turns.\<close>

lemma turn:
  assumes "ps = [(K, [kt]), (P, [t])]" and "distinct (structs ps)"
    and "(v_proc v, v_thread v, q, u) \<in> {(K, kt, P, t), (P, t, K, kt)}" and "v_status v u \<noteq> DEAD"
    and "view_schedule ps v = Some v'"
  shows "v_proc v' = q" "v_thread v' = u" "v_frame v' = v_context v u" "v_context v' (v_thread v) = v_frame v"
    "v_status v' kt \<noteq> DEAD \<and> v_status v' t \<noteq> DEAD"
proof -
  have "K \<noteq> P" "kt \<noteq> t" using assms(1,2) by (auto simp: structs_def)
  with assms show "v_proc v' = q" "v_thread v' = u" "v_frame v' = v_context v u" "v_context v' (v_thread v) = v_frame v"
    "v_status v' kt \<noteq> DEAD \<and> v_status v' t \<noteq> DEAD"
    by (auto simp: view_schedule_def ring_def Let_def split: if_splits)
qed

section \<open>Runs after the boot\<close>

text \<open>
  \<open>ticked H s0 n s\<close>: from \<open>s0\<close> the kernel has come to \<open>s\<close> with \<open>n\<close> timer interrupts, between which code ran that
  wrote no byte of \<open>H\<close>; the frame of an interrupt, on the stack of the interrupted code, lies outside
  \<open>H\<close> too.
\<close>

inductive ticked :: "ptr set \<Rightarrow> 'a kernel_scheme \<Rightarrow> nat \<Rightarrow> 'a kernel_scheme \<Rightarrow> bool" for H s0 where
  ticked_start: "ticked H s0 0 s0"
| ticked_code: "ticked H s0 n s \<Longrightarrow> changes (- H) (mem s) m \<Longrightarrow> ticked H s0 n (s\<lparr>mem := m, trace := tr\<rparr>)"
| ticked_timer: "ticked H s0 n s \<Longrightarrow> rng sf 176 \<inter> H = {} \<Longrightarrow> sf_get sf sf_vector s = 32
    \<Longrightarrow> interrupt_handler sf s = Some (Returned s') \<Longrightarrow> ticked H s0 (Suc n) s'"

text \<open>What holds after \<open>n\<close> interrupts: whose turn it is, and that both threads live.\<close>

definition turns :: "ptr \<Rightarrow> ptr \<Rightarrow> ptr \<Rightarrow> ptr \<Rightarrow> 'a kernel_scheme \<Rightarrow> nat \<Rightarrow> 'a kernel_scheme \<Rightarrow> bool" where
  "turns K kt P t s0 n s \<longleftrightarrow> proc_list (mem s) (sched_processes_list s) [(K, [kt]), (P, [t])]
     \<and> (sched_current_process s, sched_current_thread s) = (if even n then (K, kt) else (P, t))
     \<and> (if even n then t_status (mem s) t \<noteq> DEAD else t_status (mem s) kt \<noteq> DEAD)
     \<and> (n = 0 \<longrightarrow> t_frame (mem s) t = t_frame (mem s0) t)"

lemma turns_inv:
  assumes "placed A [(K, [kt]), (P, [t])]" and "turns K kt P t s0 n s" and "rng sf 176 \<inter> struct_area [(K, [kt]), (P, [t])] = {}"
  shows "sched_inv sf [(K, [kt]), (P, [t])] s"
proof -
  let ?ps = "[(K, [kt]), (P, [t])]"
  have "(sched_current_process s, sched_current_thread s) = (if even n then (K, kt) else (P, t))" using assms(2) by (simp add: turns_def)
  then have "\<exists>ts. (sched_current_process s, ts) \<in> set ?ps \<and> sched_current_thread s \<in> set ts" by (cases "even n") auto
  moreover have "proc_list (mem s) (sched_processes_list s) ?ps" using assms(2) by (simp add: turns_def del: proc_list.simps)
  ultimately show ?thesis using placed_apart[OF assms(1,3)] unfolding sched_inv_def by blast
qed

text \<open>A timer interrupt keeps it, switches, and saves and restores the registers.\<close>

lemma turns_timer:
  assumes pl: "placed A [(K, [kt]), (P, [t])]" and "turns K kt P t s0 n s" and "rng sf 176 \<inter> struct_area [(K, [kt]), (P, [t])] = {}"
    and "sf_get sf sf_vector s = 32"
  obtains s' where "interrupt_handler sf s = Some (Returned s')" "turns K kt P t s0 (Suc n) s'"
    "bytes_at (mem s') sf 176 = t_frame (mem s) (sched_current_thread s')"
    "t_frame (mem s') (sched_current_thread s) = bytes_at (mem s) sf 176" "syscalls s' = syscalls s"
proof -
  let ?ps = "[(K, [kt]), (P, [t])]" and ?v = "view_of sf [(K, [kt]), (P, [t])]"
  define q where "q = (if even n then P else K)"
  define u where "u = (if even n then t else kt)"
  have T: "threads_of ?ps = {kt, t}" by (auto simp: threads_of_def)
  obtain s' where s': "interrupt_handler sf s = Some (Returned s')" "view_schedule ?ps (?v s) = Some (?v s')"
    "sched_inv sf ?ps s'" "sched_processes_list s' = sched_processes_list s" "syscalls s' = syscalls s"
    by (rule timer_runs[OF turns_inv[OF assms(1-3)] assms(4)])
  have d: "distinct (structs ?ps)" using pl by (simp add: placed_def)
  have who: "(sched_current_process s, sched_current_thread s) = (if even n then (K, kt) else (P, t))"
    "t_status (mem s) u \<noteq> DEAD" using assms(2) by (simp_all add: turns_def u_def split: if_splits)
  then have "(v_proc (?v s), v_thread (?v s), q, u) \<in> {(K, kt, P, t), (P, t, K, kt)}" "v_status (?v s) u \<noteq> DEAD"
    by (simp_all add: view_of_def T q_def u_def split: if_splits)
  note v = turn[OF refl d this s'(2)]
  have cur: "sched_current_thread s \<in> {kt, t}" "u \<in> {kt, t}"
    using who(1) by (simp_all add: u_def split: if_splits)
  have "proc_list (mem s') (sched_processes_list s') ?ps" using s'(3) by (simp add: sched_inv_def)
  then have "turns K kt P t s0 (Suc n) s'"
    using v(1,2,5) by (simp add: turns_def view_of_def T q_def u_def del: proc_list.simps)
  moreover have "sched_current_thread s' = u" using v(2) by (simp add: view_of_def)
  then have "bytes_at (mem s') sf 176 = t_frame (mem s) (sched_current_thread s')"
    "t_frame (mem s') (sched_current_thread s) = bytes_at (mem s) sf 176"
    using v(3,4) cur by (auto simp: view_of_def T)
  ultimately show thesis using s'(5) by (rule that[OF s'(1)])
qed

lemma ticked_turns:
  assumes "placed A [(K, [kt]), (P, [t])]" and "turns K kt P t s0 0 s0" and "ticked H s0 n s" and "struct_area [(K, [kt]), (P, [t])] \<subseteq> H"
  shows "turns K kt P t s0 n s"
  using assms(3)
proof induction
  case ticked_start
  show ?case by (rule assms(2))
next
  case (ticked_code n s m tr)
  have "changes (- struct_area [(K, [kt]), (P, [t])]) (mem s) m"
    using ticked_code.hyps(2) assms(4) by (auto elim: changes_mono)
  note keep = code_keeps[OF this]
  from ticked_code.IH show ?case by (simp add: turns_def keep structs_def del: proc_list.simps)
next
  case (ticked_timer n s sf s')
  have "rng sf 176 \<inter> struct_area [(K, [kt]), (P, [t])] = {}" using ticked_timer.hyps(2) assms(4) by auto
  from turns_timer[OF assms(1) ticked_timer.IH this ticked_timer.hyps(3)] ticked_timer.hyps(4) show ?case by auto
qed

text \<open>
  The structures of the two processes and of their first threads, as the list in memory gives them.  The stacks of the
  threads are not among them: a frame on the stack of an interrupted thread is apart from them.
\<close>

definition boot_structs :: "'a sched_scheme \<Rightarrow> ptr set" where
  "boot_structs s = (let K = sched_current_process s; P = p_next (mem s) K
     in \<Union>x \<in> {K, P, p_threads (mem s) K, p_threads (mem s) P}. rng x 336)"

lemma boot_table:
  assumes "boot_ready r k s" and "kmain_x86_64 r k s = Some s0"
  shows "syscalls s0 = syscall_table"
  by (rule kmain_runs[OF assms(1)]) (use assms(2) in simp)

lemma boot_turns:
  assumes "boot_ready r k s" and "kmain_x86_64 r k s = Some s0"
  obtains K kt P t A where "placed A [(K, [kt]), (P, [t])]" "boot_structs s0 = struct_area [(K, [kt]), (P, [t])]" "turns K kt P t s0 0 s0"
    "A \<subseteq> set (usable_pages (memmap_response r))" "sched_current_process s0 = K" "p_next (mem s0) K = P" "t_reg (mem s0) t sf_rip = proc1_addr k" "t_reg (mem s0) t sf_cs = 0x08"
    "t_reg (mem s0) t sf_ss = 0x10" "t_reg (mem s0) t sf_rflags = 0x202"
    "\<exists>stack \<in> A. t_reg (mem s0) t sf_rsp = stack + 4119 \<and> blk_size (mem s0) stack = 4120" "t_reg (mem s0) t sf_rbp = 0"
proof -
  obtain s' K kt P t as where s': "kmain_x86_64 r k s = Some s'" "built as [(K, [kt]), (P, [t])] s'"
    "set as \<subseteq> set (usable_pages (memmap_response r))" "sched_current_process s' = K" "sched_current_thread s' = kt"
    "t_status (mem s') t = READY" "t_reg (mem s') t sf_rip = proc1_addr k" "t_reg (mem s') t sf_cs = 0x08"
    "t_reg (mem s') t sf_ss = 0x10" "t_reg (mem s') t sf_rflags = 0x202" "t_reg (mem s') t sf_rbp = 0"
    and stack: "t_reg (mem s') t sf_rsp = last as + 4119" "blk_size (mem s') (last as) = 4120" "as \<noteq> []"
    by (rule kmain_runs[OF assms(1)])
  have "s' = s0" using s'(1) assms(2) by simp
  note s' = s'[unfolded this] and stack = stack[unfolded this]
  have top: "\<exists>x \<in> set as. t_reg (mem s0) t sf_rsp = x + 4119 \<and> blk_size (mem s0) x = 4120"
    using stack last_in_set by blast
  have pl: "proc_list (mem s0) (sched_processes_list s0) [(K, [kt]), (P, [t])]" using s'(2) by (simp add: built_def)
  then have "turns K kt P t s0 0 s0" "p_next (mem s0) K = P" using s'(4-6) by (simp_all add: turns_def)
  moreover have "boot_structs s0 = struct_area [(K, [kt]), (P, [t])]"
    using pl s'(4) by (auto simp: boot_structs_def struct_area_def structs_def Let_def)
  ultimately show thesis by (rule that[OF built_placed[OF s'(2)] _ _ s'(3,4) _ s'(7-10) top s'(11), rotated])
qed

text \<open>The first interrupt: the frame then starts \<open>Proc1\<close>.\<close>

lemma first_tick:
  assumes "boot_ready r k s" and "kmain_x86_64 r k s = Some s0" and "ticked (boot_structs s0) s0 0 s1"
    and "rng sf 176 \<inter> boot_structs s0 = {}" and "sf_get sf sf_vector s1 = 32"
  shows "\<exists>s2. interrupt_handler sf s1 = Some (Returned s2)
    \<and> sched_current_process s2 = p_next (mem s0) (sched_current_process s0)
    \<and> syscalls s2 = syscalls s1 \<and> sf_get sf sf_rip s2 = proc1_addr k \<and> sf_get sf sf_cs s2 = 0x08 \<and> sf_get sf sf_ss s2 = 0x10 \<and> sf_get sf sf_rflags s2 = 0x202
    \<and> sf_get sf sf_rbp s2 = 0
    \<and> (\<exists>stack \<in> set (usable_pages (memmap_response r)). sf_get sf sf_rsp s2 = stack + 24 + 4095 \<and> blk_size (mem s0) stack = 4096 + 24)
    \<and> t_frame (mem s2) (sched_current_thread s1) = bytes_at (mem s1) sf 176"
proof -
  obtain K kt P t A where b: "placed A [(K, [kt]), (P, [t])]" "boot_structs s0 = struct_area [(K, [kt]), (P, [t])]" "turns K kt P t s0 0 s0"
    "A \<subseteq> set (usable_pages (memmap_response r))" "sched_current_process s0 = K" "p_next (mem s0) K = P" and regs: "t_reg (mem s0) t sf_rip = proc1_addr k"
    "t_reg (mem s0) t sf_cs = 0x08" "t_reg (mem s0) t sf_ss = 0x10" "t_reg (mem s0) t sf_rflags = 0x202"
    "\<exists>stack \<in> A. t_reg (mem s0) t sf_rsp = stack + 4119 \<and> blk_size (mem s0) stack = 4120" "t_reg (mem s0) t sf_rbp = 0"
    by (rule boot_turns[OF assms(1,2)])
  have sf: "rng sf 176 \<inter> struct_area [(K, [kt]), (P, [t])] = {}" using assms(4) by (simp add: b(2))
  have now: "turns K kt P t s0 0 s1" by (rule ticked_turns[OF b(1,3) assms(3)]) (simp add: b(2))
  obtain s2 where s2: "interrupt_handler sf s1 = Some (Returned s2)" "turns K kt P t s0 (Suc 0) s2"
    "bytes_at (mem s2) sf 176 = t_frame (mem s1) (sched_current_thread s2)"
    "t_frame (mem s2) (sched_current_thread s1) = bytes_at (mem s1) sf 176" "syscalls s2 = syscalls s1"
    by (rule turns_timer[OF b(1) now sf assms(5)])
  have "bytes_at (mem s2) sf 176 = bytes_at (mem s0) (t_context t) 176"
    using s2(2,3) now by (simp add: turns_def t_frame_def)
  from load64_bytes[OF this] have reg: "load64 (mem s2) (sf + of_nat i) = t_reg (mem s0) t (of_nat i)" if "i + 8 \<le> 176" for i
    using that by (simp add: t_reg_def)
  have "sf_get sf sf_rip s2 = proc1_addr k" "sf_get sf sf_cs s2 = 0x08" "sf_get sf sf_ss s2 = 0x10" "sf_get sf sf_rflags s2 = 0x202"
    using regs reg[of 136] reg[of 144] reg[of 168] reg[of 152]
    by (simp_all add: sf_get_def sf_rip_def sf_cs_def sf_ss_def sf_rflags_def)
  moreover have "sf_get sf sf_rbp s2 = 0" "sf_get sf sf_rsp s2 = t_reg (mem s0) t sf_rsp"
    using regs(6) reg[of 64] reg[of 160] by (simp_all add: sf_get_def sf_rbp_def sf_rsp_def)
  moreover obtain stack where "stack \<in> set (usable_pages (memmap_response r))" "t_reg (mem s0) t sf_rsp = stack + 4119"
    "blk_size (mem s0) stack = 4120" using regs(5) b(4) by blast
  ultimately show ?thesis using s2(1,2,4,5) b(5,6)
    by (intro exI[of _ s2] conjI bexI[of _ stack]) (auto simp: turns_def)
qed

text \<open>
  C14. After the boot the kernel's process and \<open>Proc1\<close> take turns for ever: after any number of timer interrupts, with
  any code in between that leaves the scheduler's structures alone, the next one returns, switches to the
  other of the two processes, loads the registers of its thread as they were saved last and saves those of
  the interrupted thread.
\<close>

theorem ticks_alternate:
  assumes "boot_ready r k s" and "kmain_x86_64 r k s = Some s0" and "ticked (boot_structs s0) s0 n s1"
    and "rng sf 176 \<inter> boot_structs s0 = {}" and "sf_get sf sf_vector s1 = 32"
  shows "\<exists>s2. interrupt_handler sf s1 = Some (Returned s2)
    \<and> sched_current_process s2 = (if even n then p_next (mem s0) (sched_current_process s0) else sched_current_process s0)
    \<and> sched_current_process s2 \<noteq> sched_current_process s1
    \<and> bytes_at (mem s2) sf 176 = t_frame (mem s1) (sched_current_thread s2)
    \<and> t_frame (mem s2) (sched_current_thread s1) = bytes_at (mem s1) sf 176"
proof -
  obtain K kt P t A where b: "placed A [(K, [kt]), (P, [t])]" "boot_structs s0 = struct_area [(K, [kt]), (P, [t])]" "turns K kt P t s0 0 s0"
    "A \<subseteq> set (usable_pages (memmap_response r))" "sched_current_process s0 = K" "p_next (mem s0) K = P"
    by (rule boot_turns[OF assms(1,2)])
  have sf: "rng sf 176 \<inter> struct_area [(K, [kt]), (P, [t])] = {}" using assms(4) by (simp add: b(2))
  have now: "turns K kt P t s0 n s1" by (rule ticked_turns[OF b(1,3) assms(3)]) (simp add: b(2))
  obtain s2 where s2: "interrupt_handler sf s1 = Some (Returned s2)" "turns K kt P t s0 (Suc n) s2"
    "bytes_at (mem s2) sf 176 = t_frame (mem s1) (sched_current_thread s2)"
    "t_frame (mem s2) (sched_current_thread s1) = bytes_at (mem s1) sf 176" "syscalls s2 = syscalls s1"
    by (rule turns_timer[OF b(1) now sf assms(5)])
  have "K \<noteq> P" using b(1) by (simp add: placed_def structs_def)
  moreover have "sched_current_process s2 = (if even n then P else K)" "sched_current_process s1 = (if even n then K else P)"
    using s2(2) now by (simp_all add: turns_def split: if_splits)
  ultimately show ?thesis using s2(1,3,4) b(5,6) by (intro exI[of _ s2]) (simp split: if_splits)
qed

section \<open>A sample run\<close>

text \<open>The machine of \<open>ready_kernel\<close> after its boot, with the frame of an interrupt below the usable region.\<close>

lemma ready_frame:
  assumes "kmain_x86_64 ready_responses ready_image ready_kernel = Some s0" and "unat sf + 176 \<le> 0x100000"
  shows "rng sf 176 \<inter> boot_structs s0 = {}"
proof -
  obtain K kt P t A where b: "placed A [(K, [kt]), (P, [t])]" "boot_structs s0 = struct_area [(K, [kt]), (P, [t])]"
    "A \<subseteq> set (usable_pages (memmap_response ready_responses))"
    by (rule boot_turns[OF ready_ok assms(1)])
  have "0x100000 \<le> unat y" if y: "y \<in> boot_structs s0" for y
  proof -
    obtain x where x: "x - 24 \<in> A" "y \<in> rng x 336" using y b(1) by (auto simp: b(2) struct_area_def placed_def)
    have "y \<in> rng (x - 24) 4096" using x(2) rng_sub[of x "x - 24" 336 4096] by auto
    then show ?thesis using ready_page(1,2)[of "x - 24"] x(1) b(3) by (auto simp: rng_def in_range_nowrap)
  qed
  moreover have "unat y < 0x100000" if "y \<in> rng sf 176" for y :: u64
    using that assms(2) by (auto simp: rng_def in_range_nowrap)
  ultimately show ?thesis by fastforce
qed

lemma ready_interrupt:
  obtains s0 m where "kmain_x86_64 ready_responses ready_image ready_kernel = Some s0"
    "ticked (boot_structs s0) s0 0 (s0\<lparr>mem := m, trace := []\<rparr>)"
    "sf_get 0x9000 sf_vector (s0\<lparr>mem := m, trace := []\<rparr>) = 32"
proof -
  obtain s0 where s0: "kmain_x86_64 ready_responses ready_image ready_kernel = Some s0"
    by (rule kmain_runs[OF ready_ok])
  let ?H = "boot_structs s0" and ?m = "store64 (mem s0) (0x9000 + sf_vector) 32"
  have "rng (0x9000 + sf_vector) 8 \<subseteq> rng 0x9000 176" by (intro rng_sub) (simp add: sf_vector_def)
  then have "rng (0x9000 + sf_vector) 8 \<subseteq> - ?H" using ready_frame[OF s0, of "0x9000"] by auto
  then have "changes (- ?H) (mem s0) ?m" by (intro changes_stores) simp_all
  from ticked_code[OF ticked_start this] have "ticked ?H s0 0 (s0\<lparr>mem := ?m, trace := []\<rparr>)" .
  moreover have "sf_get 0x9000 sf_vector (s0\<lparr>mem := ?m, trace := []\<rparr>) = 32" by (simp add: sf_get_def mem_simps)
  ultimately show thesis by (rule that[OF s0])
qed

theorem ticks_alternate_witness:
  "\<exists>s0 s1 s2. kmain_x86_64 ready_responses ready_image ready_kernel = Some s0 \<and> ticked (boot_structs s0) s0 0 s1
    \<and> interrupt_handler 0x9000 s1 = Some (Returned s2) \<and> sched_current_process s2 \<noteq> sched_current_process s1"
proof -
  obtain s0 m where s0: "kmain_x86_64 ready_responses ready_image ready_kernel = Some s0"
    "ticked (boot_structs s0) s0 0 (s0\<lparr>mem := m, trace := []\<rparr>)"
    "sf_get 0x9000 sf_vector (s0\<lparr>mem := m, trace := []\<rparr>) = 32"
    by (rule ready_interrupt)
  obtain s2 where s2: "interrupt_handler 0x9000 (s0\<lparr>mem := m, trace := []\<rparr>) = Some (Returned s2)"
    "sched_current_process s2 \<noteq> sched_current_process (s0\<lparr>mem := m, trace := []\<rparr>)"
    using ticks_alternate[OF ready_ok s0(1,2) ready_frame[OF s0(1), of "0x9000", simplified] s0(3)] by (elim exE conjE) (rule that)
  with s0(1,2) show ?thesis by (intro exI conjI)
qed

end
