(* ===== verification/KernelUser.thy ===== *)
theory KernelUser
  imports KernelTick
begin

text \<open>
  Interrupts at the level of the processor's registers: the stubs of \<^verbatim>\<open>arch/x86_64/interrupts.asm\<close>, the system
  call of a process and the first process (\<^verbatim>\<open>kmain-x86_64.c\<close>).
\<close>

section \<open>Registers and frames\<close>

text \<open>The registers that the structure \<open>stackframe\<close> has fields for.\<close>

record registers =
  reg_r15 :: u64
  reg_r14 :: u64
  reg_r13 :: u64
  reg_r12 :: u64
  reg_r11 :: u64
  reg_r10 :: u64
  reg_r9 :: u64
  reg_r8 :: u64
  reg_rbp :: u64
  reg_rdi :: u64
  reg_rsi :: u64
  reg_rdx :: u64
  reg_rcx :: u64
  reg_rbx :: u64
  reg_rax :: u64
  reg_rip :: u64
  reg_cs :: u64
  reg_rflags :: u64
  reg_rsp :: u64
  reg_ss :: u64

text \<open>The words that the processor and a stub push, from the last one, at the lowest address, to the first.\<close>

definition frame_words :: "u64 \<Rightarrow> u64 \<Rightarrow> registers \<Rightarrow> u64 list" where
  "frame_words vec err q =
     [reg_r15 q, reg_r14 q, reg_r13 q, reg_r12 q, reg_r11 q, reg_r10 q, reg_r9 q, reg_r8 q, reg_rbp q, reg_rdi q, reg_rsi q,
      reg_rdx q, reg_rcx q, reg_rbx q, reg_rax q, vec, err, reg_rip q, reg_cs q, reg_rflags q, reg_rsp q, reg_ss q]"

text \<open>What the pops of a stub and \<open>iretq\<close> make of such words.\<close>

definition words_registers :: "(nat \<Rightarrow> u64) \<Rightarrow> registers" where
  "words_registers w =
     \<lparr>reg_r15 = w 0, reg_r14 = w 1, reg_r13 = w 2, reg_r12 = w 3, reg_r11 = w 4, reg_r10 = w 5, reg_r9 = w 6, reg_r8 = w 7,
      reg_rbp = w 8, reg_rdi = w 9, reg_rsi = w 10, reg_rdx = w 11, reg_rcx = w 12, reg_rbx = w 13, reg_rax = w 14,
      reg_rip = w 17, reg_cs = w 18, reg_rflags = w 19, reg_rsp = w 20, reg_ss = w 21\<rparr>"

fun store_words :: "ptr \<Rightarrow> u64 list \<Rightarrow> mem \<Rightarrow> mem" where
  "store_words a [] m = m"
| "store_words a (w # ws) m = store_words (a + 8) ws (store64 m a w)"

definition load_word :: "mem \<Rightarrow> ptr \<Rightarrow> nat \<Rightarrow> u64" where
  "load_word m a i = load64 m (a + 8 * of_nat i)"

text \<open>
  An interrupt without a change of privilege: the processor aligns the stack to 16 bytes and pushes five
  words, the stub the rest (an error code of its own, where the processor gives none), calls the handler
  with the address of the frame, and pops.  Everything below the frame is the handler's own stack.  The result is
  \<open>None\<close> where the handler panics or is undefined.
\<close>

definition frame_at :: "registers \<Rightarrow> ptr" where
  "frame_at q = (reg_rsp q AND NOT 15) - 176"

definition isr_stub :: "u64 \<Rightarrow> u64 \<Rightarrow> registers \<Rightarrow> 'a kernel_scheme \<Rightarrow> (registers \<times> 'a kernel_scheme) option" where
  "isr_stub vec err q s =
     (let sf = frame_at q; s1 = s\<lparr>mem := store_words sf (frame_words vec err q) (mem s)\<rparr>
      in case interrupt_handler sf s1 of
           Some (Returned s2) \<Rightarrow> Some (words_registers (load_word (mem s2) sf), s2)
         | _ \<Rightarrow> None)"

section \<open>The first process\<close>

text \<open>The loop over the variable arguments: six of them are read.\<close>

fun syscall_params :: "nat \<Rightarrow> va_list \<Rightarrow> u64 list option" where
  "syscall_params 0 args = Some []"
| "syscall_params (Suc n) args =
     Option.bind (va_arg args) (\<lambda>(param, args1).
       map_option (\<lambda>params. (if param = NULL then 0 else param) # params) (syscall_params n args1))"

text \<open>\<open>q\<close>: the registers at the assembly statement, apart from those it loads.\<close>

definition execute_syscall :: "u64 \<Rightarrow> va_list \<Rightarrow> registers \<Rightarrow> 'a kernel_scheme \<Rightarrow> (u64 \<times> registers \<times> 'a kernel_scheme) option" where
  "execute_syscall num args q s =
     Option.bind (syscall_params 6 args) (\<lambda>params.
       map_option (\<lambda>(q1, s1). (reg_rax q1, q1, s1))
         (isr_stub 0x80 0 (q\<lparr>reg_rax := num, reg_rdi := params ! 0, reg_rsi := params ! 1, reg_rdx := params ! 2,
            reg_r10 := params ! 3, reg_r8 := params ! 4, reg_r9 := params ! 5\<rparr>) s))"

text \<open>
  The first process up to its endless loop.  It passes three arguments; \<open>behind\<close> is what a variadic function finds
  behind them.
\<close>

definition greeting :: string where "greeting = ''Hello World from Proc1 (thread 0) !\<newline>''"

definition proc1_thread1 :: "kernel_image \<Rightarrow> va_list \<Rightarrow> registers \<Rightarrow> 'a kernel_scheme \<Rightarrow> (u64 \<times> registers \<times> 'a kernel_scheme) option" where
  "proc1_thread1 k behind q s = execute_syscall 1 ([1, literal_addr k greeting, 35] @ behind) q s"

text \<open>A second thread, which nothing creates.\<close>

definition proc1_thread2 :: "'a kernel_scheme \<Rightarrow> 'a kernel_scheme" where
  "proc1_thread2 s = logln Lg_info ''proc1'' ''hi from second thread\<newline>'' [] s"

section \<open>Words of a frame\<close>

lemma store_words_changes: "8 * length ws \<le> n \<Longrightarrow> n < 2 ^ 64 \<Longrightarrow> changes (rng a n) m (store_words a ws m)"
proof (induction ws arbitrary: a m n)
  case (Cons w ws)
  have "rng (a + 8) (n - 8) \<subseteq> rng a n" using Cons.prems by (intro rng_sub) simp
  moreover have "changes (rng (a + 8) (n - 8)) (store64 m a w) (store_words (a + 8) ws (store64 m a w))"
    using Cons.prems by (intro Cons.IH) simp_all
  moreover have "changes (rng a n) m (store64 m a w)"
    using rng_sub[of a a 8 n] Cons.prems by (intro changes_stores) simp_all
  ultimately show ?case by (auto simp: changes_def)
qed simp

lemma load_store_words:
  assumes "i < length ws" and "8 * length ws < 2 ^ 64"
  shows "load_word (store_words a ws m) a i = ws ! i"
  using assms
proof (induction ws arbitrary: a m i)
  case (Cons w ws)
  show ?case
  proof (cases i)
    case 0
    have "rng (a + 8) (8 * length ws) \<inter> rng a 8 = {}"
      using Cons.prems(2) by (intro rng_disj, subst disj_range_shift(3)) (simp add: disj_range_iff)
    from load_off(1)[OF store_words_changes[OF order_refl] this] Cons.prems(2) 0 show ?thesis by (simp add: load_word_def)
  next
    case (Suc j)
    have "a + 8 * of_nat (Suc j) = (a + 8) + 8 * of_nat j" by (simp add: algebra_simps)
    with Cons.IH[where i = j and a = "a + 8" and m = "store64 m a w"] Cons.prems Suc show ?thesis by (simp add: load_word_def add.assoc)
  qed
qed simp

lemma frame_words_length [simp]: "length (frame_words vec err q) = 22"
  by (simp add: frame_words_def)

lemma frame_words_loads: "i < 22 \<Longrightarrow> load_word (store_words a (frame_words vec err q) m) a i = frame_words vec err q ! i"
  by (rule load_store_words) simp_all

lemma frame_words_changes: "changes (rng a 176) m (store_words a (frame_words vec err q) m)"
  by (rule store_words_changes) simp_all

text \<open>The registers of a frame are those that were pushed.\<close>

lemma words_registers_cong:
  assumes "\<And>i. i < 22 \<Longrightarrow> w i = w' i"
  shows "words_registers w = words_registers w'"
  using assms by (simp add: words_registers_def)

lemma frame_round_trip: "words_registers (\<lambda>i. frame_words vec err q ! i) = q"
  by (simp add: words_registers_def frame_words_def eval_nat_numeral)

lemma pushed_registers:
  "words_registers (load_word (store_words a (frame_words vec err q) m) a) = q"
  by (rule trans[OF words_registers_cong[where w' = "\<lambda>i. frame_words vec err q ! i"] frame_round_trip]) (rule frame_words_loads)

text \<open>The fields of the frame by their offsets.\<close>

lemma frame_words_nth:
  "frame_words vec err q ! 9 = reg_rdi q" "frame_words vec err q ! 10 = reg_rsi q" "frame_words vec err q ! 11 = reg_rdx q"
  "frame_words vec err q ! 14 = reg_rax q" "frame_words vec err q ! 15 = vec"
  by (simp_all add: frame_words_def)

lemma pushed_fields:
  fixes s :: "'a machine_scheme"
  assumes "mem s = store_words sf (frame_words vec err q) m"
  shows "sf_get sf sf_rdi s = reg_rdi q" "sf_get sf sf_rsi s = reg_rsi q" "sf_get sf sf_rdx s = reg_rdx q"
    "sf_get sf sf_rax s = reg_rax q" "sf_get sf sf_vector s = vec"
proof -
  have at: "sf_get sf (8 * of_nat i) s = frame_words vec err q ! i" if "i < 22" for i
    using frame_words_loads[OF that, of sf vec err q m] by (simp add: sf_get_def load_word_def assms)
  have "8 * of_nat 9 = sf_rdi" "8 * of_nat 10 = sf_rsi" "8 * of_nat 11 = sf_rdx" "8 * of_nat 14 = sf_rax" "8 * of_nat 15 = sf_vector"
    by (simp_all add: sf_rdi_def sf_rsi_def sf_rdx_def sf_rax_def sf_vector_def)
  then show "sf_get sf sf_rdi s = reg_rdi q" "sf_get sf sf_rsi s = reg_rsi q" "sf_get sf sf_rdx s = reg_rdx q"
    "sf_get sf sf_rax s = reg_rax q" "sf_get sf sf_vector s = vec"
    using at[of 9] at[of 10] at[of 11] at[of 14] at[of 15] by (simp_all only: frame_words_nth)
qed

section \<open>The greeting\<close>

text \<open>A write system call from a stub: the bytes are printed and every register comes back.\<close>

lemma write_call:
  fixes err :: u64
  assumes "syscalls s ! 1 = Some Syscall_write" and "reg_rax q = 1" and "reg_rdi q = 1" and "reg_rsi q = buf"
    and "buf \<noteq> NULL" and "reg_rdx q = of_nat n" and "n < 2 ^ 31" and "rng (frame_at q) 176 \<inter> rng buf n = {}"
  defines "m \<equiv> store_words (frame_at q) (frame_words 0x80 err q) (mem s)"
  shows "isr_stub 0x80 err q s = Some (q, s\<lparr>mem := m, trace := trace s @ Cli # map (\<lambda>b. Tty_print [b]) (bytes_at (mem s) buf n)
    @ [Sti, Outb 0xA0 0x20, Outb 0x20 0x20]\<rparr>)"
proof -
  let ?s1 = "s\<lparr>mem := m\<rparr>"
  have f: "mem ?s1 = store_words (frame_at q) (frame_words 0x80 err q) (mem s)" by (simp add: m_def)
  have table: "syscalls ?s1 ! 1 = Some Syscall_write" using assms(1) by simp
  have run: "interrupt_handler (frame_at q) ?s1 = Some (Returned (?s1\<lparr>trace := trace ?s1 @ Cli # map (\<lambda>b. Tty_print [b]) (bytes_at (mem ?s1) buf n)
    @ [Sti, Outb 0xA0 0x20, Outb 0x20 0x20]\<rparr>))"
    by (rule syscall_write_runs[OF table]) (simp_all add: pushed_fields[OF f] assms(2-6), simp add: assms(7)[simplified])
  have "bytes_at m buf n = bytes_at (mem s) buf n"
    using load_off(3)[OF frame_words_changes assms(8)] assms(7) by (simp add: m_def)
  moreover have "words_registers (load_word m (frame_at q)) = q" by (simp add: m_def pushed_registers)
  ultimately show ?thesis using run by (simp add: isr_stub_def Let_def m_def)
qed

lemma syscall_params_take: "n \<le> length args \<Longrightarrow> syscall_params n args = Some (take n args)"
proof (induction n arbitrary: args)
  case (Suc n)
  then show ?case by (cases args) simp_all
qed simp

lemma syscall_params_short: "length args < n \<Longrightarrow> syscall_params n args = None"
proof (induction n arbitrary: args)
  case (Suc n)
  then show ?case by (cases args) simp_all
qed simp

lemma bytes_at_take: "k \<le> n \<Longrightarrow> bytes_at m a k = take k (bytes_at m a n)"
  by (simp add: bytes_at_def take_map)

lemma greeting_length: "length greeting = 36"
  by (simp add: greeting_def)

text \<open>The registers at the trap of \<open>proc1_thread1\<close>.\<close>

definition greeting_registers :: "kernel_image \<Rightarrow> va_list \<Rightarrow> registers \<Rightarrow> registers" where
  "greeting_registers k behind q = q\<lparr>reg_rax := 1, reg_rdi := 1, reg_rsi := literal_addr k greeting, reg_rdx := 35,
     reg_r10 := behind ! 0, reg_r8 := behind ! 1, reg_r9 := behind ! 2\<rparr>"

lemma greeting_registers_fields:
  "reg_rax (greeting_registers k behind q) = 1" "reg_rdi (greeting_registers k behind q) = 1"
  "reg_rsi (greeting_registers k behind q) = literal_addr k greeting" "reg_rdx (greeting_registers k behind q) = 35"
  "frame_at (greeting_registers k behind q) = frame_at q"
  by (simp_all add: greeting_registers_def frame_at_def)

text \<open>
  C16. \<open>Proc1\<close> greets through interrupt 128: with the table of system calls in place it prints its text but for the
  last character, the line break, since it passes a length of 35 for 36 characters; it gets 1 back, the number of the call, and all registers as they
  were at the trap.  If no three words lie behind its three arguments the call is undefined, since six are read.
\<close>

theorem proc1_greets:
  assumes "syscalls s = syscall_table" and "literal_addr k greeting \<noteq> NULL"
    and "cstr_at (mem s) (literal_addr k greeting) (map of_char greeting)"
    and "rng (frame_at q) 176 \<inter> rng (literal_addr k greeting) 35 = {}"
  shows "proc1_thread1 k behind q s =
    (if length behind < 3 then None
     else Some (1, greeting_registers k behind q,
       s\<lparr>mem := store_words (frame_at q) (frame_words 0x80 0 (greeting_registers k behind q)) (mem s),
         trace := trace s @ Cli # map (\<lambda>c. Tty_print [of_char c]) (butlast greeting) @ [Sti, Outb 0xA0 0x20, Outb 0x20 0x20]\<rparr>))"
proof (cases "length behind < 3")
  case True
  then show ?thesis by (simp add: proc1_thread1_def execute_syscall_def syscall_params_short)
next
  case False
  let ?q = "greeting_registers k behind q" and ?a = "literal_addr k greeting"
  obtain x y z rest where b: "behind = x # y # z # rest" using False
    by (metis Suc_le_length_iff not_less numeral_3_eq_3)
  have "bytes_at (mem s) ?a 35 = take 35 (map of_char greeting @ [0])"
    using assms(3) bytes_at_take[of 35 "Suc (length greeting)" "mem s" ?a] by (simp add: cstr_at_def greeting_length)
  then have "bytes_at (mem s) ?a 35 = map of_char (butlast greeting)"
    by (simp add: take_map greeting_length butlast_conv_take)
  with write_call[of s ?q ?a 35 0] assms(2,4) have "isr_stub 0x80 0 ?q s = Some (?q,
       s\<lparr>mem := store_words (frame_at q) (frame_words 0x80 0 ?q) (mem s),
         trace := trace s @ Cli # map (\<lambda>c. Tty_print [of_char c]) (butlast greeting) @ [Sti, Outb 0xA0 0x20, Outb 0x20 0x20]\<rparr>)"
    by (simp add: greeting_registers_fields assms(1) syscall_table_def comp_def)
  moreover have "q\<lparr>reg_rax := 1, reg_rdi := 1, reg_rsi := ?a, reg_rdx := 35, reg_r10 := x, reg_r8 := y, reg_r9 := z\<rparr> = ?q"
    by (simp add: greeting_registers_def b)
  moreover have "syscall_params 6 ([1, ?a, 35] @ behind) = Some [1, ?a, 35, x, y, z]"
    by (simp add: syscall_params_take b)
  ultimately show ?thesis using False
    by (simp add: proc1_thread1_def execute_syscall_def greeting_registers_fields)
qed

section \<open>From the boot to the first process\<close>

lemma ticked_zero:
  assumes "ticked H s0 n s" and "n = 0"
  shows "syscalls s = syscalls s0 \<and> sched_current_thread s = sched_current_thread s0"
  using assms by induction simp_all

lemma load_word_bytes:
  assumes "bytes_at m a 176 = bytes_at m' b 176" and "i < 22"
  shows "load_word m a i = load_word m' b i"
  using load64_bytes[OF assms(1), of "8 * i"] assms(2) by (simp add: load_word_def)

text \<open>
  C7. The boot hands over to \<open>Proc1\<close>: whatever ran after it without writing the scheduler's structures, the first
  timer interrupt returns with the processor at the function of \<open>Proc1\<close>, with the segments and flags of a new
  thread, a frame pointer of 0 and the stack pointer at the last byte of the thread's own block of 4096 bytes, with
  the system calls installed, and the interrupted registers are all saved in the kernel's thread.
\<close>

theorem first_tick_enters_proc1:
  assumes "boot_ready r k s" and "kmain_x86_64 r k s = Some s0" and "ticked (boot_structs s0) s0 0 s1"
    and "rng (frame_at q) 176 \<inter> boot_structs s0 = {}"
  shows "\<exists>q2 s2. isr_stub 32 0 q s1 = Some (q2, s2)
    \<and> sched_current_process s2 = p_next (mem s0) (sched_current_process s0) \<and> syscalls s2 = syscall_table
    \<and> reg_rip q2 = proc1_addr k \<and> reg_cs q2 = 0x08 \<and> reg_ss q2 = 0x10 \<and> reg_rflags q2 = 0x202
    \<and> reg_rbp q2 = 0
    \<and> (\<exists>stack \<in> set (usable_pages (memmap_response r)). reg_rsp q2 = stack + 24 + 4095 \<and> blk_size (mem s0) stack = 4096 + 24)
    \<and> words_registers (load_word (mem s2) (t_context (sched_current_thread s0))) = q"
proof -
  let ?sf = "frame_at q" and ?m = "store_words (frame_at q) (frame_words 32 0 q) (mem s1)"
  let ?s1 = "s1\<lparr>mem := ?m, trace := trace s1\<rparr>"
  have same: "?s1 = s1\<lparr>mem := ?m\<rparr>" by (cases s1) simp
  have "changes (- boot_structs s0) (mem s1) ?m"
    using frame_words_changes[of ?sf "mem s1" 32 0 q] assms(4) by (auto elim!: changes_mono)
  then have t: "ticked (boot_structs s0) s0 0 ?s1" by (rule ticked_code[OF assms(3)])
  have v: "sf_get ?sf sf_vector ?s1 = 32" by (rule pushed_fields(5)) simp
  obtain s2 where s2: "interrupt_handler ?sf ?s1 = Some (Returned s2)"
    "sched_current_process s2 = p_next (mem s0) (sched_current_process s0)" "syscalls s2 = syscalls ?s1"
    "sf_get ?sf sf_rip s2 = proc1_addr k" "sf_get ?sf sf_cs s2 = 0x08" "sf_get ?sf sf_ss s2 = 0x10" "sf_get ?sf sf_rflags s2 = 0x202"
    "sf_get ?sf sf_rbp s2 = 0"
    "\<exists>stack \<in> set (usable_pages (memmap_response r)). sf_get ?sf sf_rsp s2 = stack + 24 + 4095 \<and> blk_size (mem s0) stack = 4096 + 24"
    "t_frame (mem s2) (sched_current_thread ?s1) = bytes_at (mem ?s1) ?sf 176"
    using first_tick[OF assms(1,2) t assms(4) v] by (elim exE conjE) (rule that)
  let ?q2 = "words_registers (load_word (mem s2) ?sf)"
  have run: "isr_stub 32 0 q s1 = Some (?q2, s2)" using s2(1) by (simp add: isr_stub_def Let_def same)
  have regs: "reg_rip ?q2 = proc1_addr k" "reg_cs ?q2 = 0x08" "reg_ss ?q2 = 0x10" "reg_rflags ?q2 = 0x202"
    "reg_rbp ?q2 = 0"
    "\<exists>stack \<in> set (usable_pages (memmap_response r)). reg_rsp ?q2 = stack + 24 + 4095 \<and> blk_size (mem s0) stack = 4096 + 24"
    using s2(4-9) by (simp_all add: words_registers_def load_word_def sf_get_def sf_rip_def sf_cs_def sf_ss_def sf_rflags_def
        sf_rbp_def sf_rsp_def)
  note now = ticked_zero[OF t refl]
  have "syscalls s0 = syscall_table" by (rule boot_table[OF assms(1,2)])
  with s2(3) now have table: "syscalls s2 = syscall_table" by simp
  have "bytes_at (mem s2) (t_context (sched_current_thread s0)) 176 = bytes_at ?m ?sf 176"
    using s2(10) now by (simp add: t_frame_def)
  from words_registers_cong[OF load_word_bytes[OF this]]
  have "words_registers (load_word (mem s2) (t_context (sched_current_thread s0))) = words_registers (load_word ?m ?sf)" .
  also have "\<dots> = q" by (rule pushed_registers)
  finally have "words_registers (load_word (mem s2) (t_context (sched_current_thread s0))) = q" .
  with run s2(2) table regs show ?thesis by (intro exI conjI)
qed

section \<open>A sample greeting\<close>

definition user_image :: kernel_image where
  "user_image = ready_image\<lparr>literal_addr := \<lambda>_. 0x500\<rparr>"

definition user_kernel :: kernel where
  "user_kernel = ready_kernel\<lparr>mem := put_string 0x500 greeting (\<lambda>_. 0), syscalls := syscall_table\<rparr>"

definition sample_registers :: registers where
  "sample_registers = (words_registers of_nat)\<lparr>reg_rsp := 0x9008\<rparr>"

lemma sample_frame: "frame_at sample_registers = 0x8F50"
  by (simp add: frame_at_def sample_registers_def)

theorem first_tick_enters_proc1_witness:
  "\<exists>s0 q2 s2. kmain_x86_64 ready_responses ready_image ready_kernel = Some s0
    \<and> isr_stub 32 0 sample_registers s0 = Some (q2, s2) \<and> reg_rip q2 = 0xffffffff80000300
    \<and> reg_rbx (words_registers (load_word (mem s2) (t_context (sched_current_thread s0)))) = 13"
proof -
  obtain s0 where s0: "kmain_x86_64 ready_responses ready_image ready_kernel = Some s0"
    by (rule kmain_runs[OF ready_ok])
  have "rng (frame_at sample_registers) 176 \<inter> boot_structs s0 = {}"
    by (rule ready_frame[OF s0]) (simp add: sample_frame)
  from first_tick_enters_proc1[OF ready_ok s0 ticked_start this] obtain q2 s2 where
    s2: "isr_stub 32 0 sample_registers s0 = Some (q2, s2)" "reg_rip q2 = proc1_addr ready_image"
    "words_registers (load_word (mem s2) (t_context (sched_current_thread s0))) = sample_registers"
    by (elim exE conjE) (rule that)
  have "reg_rip q2 = 0xffffffff80000300" using s2(2) by (simp add: ready_image_def)
  moreover have "reg_rbx (words_registers (load_word (mem s2) (t_context (sched_current_thread s0)))) = 13"
    unfolding s2(3) by (simp add: sample_registers_def words_registers_def)
  ultimately show ?thesis using s0 s2(1) by (intro exI conjI)
qed

theorem proc1_greets_witness:
  "\<exists>q s'. proc1_thread1 user_image [7, 8, 9] sample_registers user_kernel = Some (1, q, s') \<and> reg_r9 q = 9
    \<and> trace s' = Cli # map (\<lambda>c. Tty_print [of_char c]) ''Hello World from Proc1 (thread 0) !'' @ [Sti, Outb 0xA0 0x20, Outb 0x20 0x20]"
proof -
  have "cstr_at (mem user_kernel) (literal_addr user_image greeting) (map of_char greeting)"
    unfolding user_kernel_def user_image_def kernel_image.simps machine.simps
    by (simp, rule put_string_at) (simp_all add: greeting_def INT_MAX_def)
  moreover have "rng (frame_at sample_registers) 176 \<inter> rng (literal_addr user_image greeting) 35 = {}"
    by (rule rng_disj) (simp add: sample_frame user_image_def disj_range_iff)
  moreover have "trace user_kernel = []" by (simp add: user_kernel_def ready_kernel_def sched.defs start_base_def)
  ultimately show ?thesis
    using proc1_greets[of user_kernel user_image sample_registers "[7, 8, 9]"]
    by (simp add: user_kernel_def user_image_def greeting_registers_def greeting_def)
qed

end
