(* ===== verification/Spec2Isabelle.thy ===== *)
theory Spec2Isabelle
  imports PmmRealloc NpfFormat ConsoleMargin KernelConsole KernelUser
begin

text \<open>
  A verification library for the Soaplin kernel (\<^verbatim>\<open>kernel/src\<close>), a small x86-64 operating
  system kernel in C.

  \<^bold>\<open>The program.\<close>  \<open>kmain\<close> (\<^verbatim>\<open>kmain-x86_64.c\<close>) takes over what the boot loader answers
  (\<^verbatim>\<open>boot/limine.c\<close>), starts the serial port and the terminal, loads descriptor tables and
  interrupt controllers (\<^verbatim>\<open>arch/x86_64\<close>), builds the page allocator and the kernel's page
  tables (\<^verbatim>\<open>mm\<close>), starts the scheduler and unmasks the timer.  From then on it runs in its
  interrupt handler: the timer switches threads, interrupt 128 is a system call, an exception
  panics.  Everything prints through the logger, which formats with \<^verbatim>\<open>tpf/npf.h\<close> and
  writes to the terminal and the serial line under spin locks.

  \<^bold>\<open>State.\<close>  Memory is one function from 64-bit addresses to bytes (theories \<open>Memory\<close> and
  \<open>MemOp\<close>): the heap's block headers, page tables, threads and processes live in it at the offsets
  of the C structures, so that overlap and wrap-around are those of the code.  It is one flat memory: accesses do not go
  through the page tables, so a physical page and its image in the direct map are different bytes, and the theorems about
  the boot keep the pages used under the one address apart from those used under the other.  Effects on the outside
  (port accesses, privileged instructions, calls of the logger and the terminal) are events of an ordered trace, and a device is
  an arbitrary function of that trace (\<open>Machine\<close>).  The globals of the components extend the record \<open>machine\<close> in the order
  the components build on each other: \<open>pmm\<close>, \<open>vmm\<close>, \<open>sched\<close>, \<open>cpu\<close>, \<open>kernel\<close>, and beside them
  \<open>console\<close>.  Integers are words of their width; an operation that may not return, or has no
  defined behaviour at some input, returns an option.

  \<^bold>\<open>Theories and code.\<close>
  \<^item> \<open>Prelude\<close>, \<open>Memory\<close>: words, address ranges, loads and stores; the collections \<open>mem_simps\<close> and \<open>frame_simps\<close>.
  \<^item> \<open>MemOp\<close>: \<^verbatim>\<open>mm/memop.c\<close>, \<^verbatim>\<open>sys/string.c\<close>.  \<open>Machine\<close>: \<^verbatim>\<open>arch/x86_64/io.c\<close>.
  \<^item> \<open>PageAllocator\<close> (the contract of a page allocator as a locale), \<open>Pmm\<close>, \<open>PmmHeap\<close>, \<open>PmmRealloc\<close>: \<^verbatim>\<open>mm/pmm.c\<close>.
  \<^item> \<open>AddressSpace\<close> (address spaces as a locale), \<open>Vmm\<close>, \<open>VmmInit\<close>, \<open>VmmSpaces\<close>: \<^verbatim>\<open>mm/vmm.c\<close>.
  \<^item> \<open>Dispatcher\<close> (the contract of a context switch as a locale), \<open>Sched\<close>, \<open>SchedRing\<close>, \<open>SchedBoot\<close>,
    \<open>SchedNew\<close>: \<^verbatim>\<open>arch/x86_64/sched.c\<close>.
  \<^item> \<open>Npf\<close> (the code), \<open>NpfText\<close> (the reference and the contract of a character sink),
    \<open>NpfBuffer\<close>, \<open>NpfFormat\<close>: \<^verbatim>\<open>tpf/npf.h\<close>.
  \<^item> \<open>Spinlock\<close>: \<^verbatim>\<open>core/lock/spinlock.c\<close>.  \<open>Serio\<close>: \<^verbatim>\<open>dev/serio.c\<close>, \<^verbatim>\<open>dev/i8042\<close>.
  \<^item> \<open>Console\<close>, \<open>ConsoleLog\<close>, \<open>ConsoleMargin\<close>, \<open>ConsolePanic\<close>: \<^verbatim>\<open>dev/tty.c\<close>, \<^verbatim>\<open>dev/fb.c\<close>, \<^verbatim>\<open>sys/log.c\<close>, \<^verbatim>\<open>sys/panic.c\<close>.
  \<^item> \<open>Cpu\<close>, \<open>CpuTables\<close>: \<^verbatim>\<open>arch/x86_64/gdt.c\<close>, \<^verbatim>\<open>pic.c\<close>, \<^verbatim>\<open>pit.c\<close>, and the tables of \<^verbatim>\<open>interrupts.c\<close>.
  \<^item> \<open>Kernel\<close>, \<open>KernelRun\<close>: the handler of \<^verbatim>\<open>interrupts.c\<close>, \<^verbatim>\<open>core/syscall\<close>,
    \<^verbatim>\<open>arch.c\<close>, \<^verbatim>\<open>boot/limine.c\<close>, \<open>kmain\<close>.
  \<^item> \<open>KernelBoot\<close>, \<open>KernelTick\<close>: the boot as a whole, and the timer after it.
  \<^item> \<open>KernelConsole\<close>: the boot and the exceptions of the kernel with the console that carries out their output.
  \<^item> \<open>KernelUser\<close>: the stubs of \<^verbatim>\<open>arch/x86_64/interrupts.asm\<close>, and the first process of
    \<^verbatim>\<open>kmain-x86_64.c\<close> with its system call.
\<close>

text \<open>
  \<^bold>\<open>What the lemmas show.\<close>
  \<^item> Page allocator: after \<open>pmm_init\<close> the free stack is the usable pages, up to the 32768 it has room for, and no sequence
    of calls hands out a page twice (through the locale of \<open>PageAllocator\<close>); the counters.
  \<^item> Heap: \<open>heap_inv\<close> (a list of disjoint blocks over the pages handed out), kept by \<open>pmm_alloc\<close>,
    \<open>pmm_free\<close> and (for strings) \<open>pmm_realloc\<close>, with fresh results and every other block's bytes unchanged; where the code leaves
    that contract (requests above a page, merging across pages).
  \<^item> Paging: \<open>vmm_map\<close> and \<open>vmm_unmap\<close> refine the update of a partial function from pages to
    entries; \<open>vmm_init\<close> returns and sets up the low memory and the sections with their access rights, which a second
    mapping of the same frames does not have; new address spaces share the kernel half; exhaustion.
  \<^item> Scheduler: \<open>schedule\<close> returns and refines a round robin over processes; threads resume with
    the frame they had; every process gets its turn; what a thread list's order costs.  Runs are sequences of turns, each
    with code that leaves the structures alone and an interrupt whose frame lies at an address of its own.  The
    constructors keep \<open>built\<close> (the list of processes and threads, each structure on a page of its own
    behind a heap header): \<open>sched_init\<close> establishes it, \<open>sched_new\<close> drops the successors of the current
    process, \<open>sched_new_thread\<close> appends, and the stack it makes reaches into the heap.
  \<^item> Printing: \<open>npf_vsnprintf\<close> writes the text that a reference definition, free of buffers and
    integer widths, gives to format and arguments; specifications and decimals read back; the
    conversion buffer is never overrun.
  \<^item> Locks and console: mutual exclusion over interleavings; when an acquisition panics; what a log line and the panic
    screen write, and the deadlocks that keep a panic from ever halting the processor.
  \<^item> Interrupts: gates and segments as the processor reads them; every interrupt that is not an exception, and no system
    call beyond the table, returns, acknowledged, and switches threads for the timer only; an exception in another address space
    than the kernel's is undefined; a system call prints its buffer.
  \<^item> The whole: \<open>kmain\<close> reaches its last loop from every state that is \<open>boot_ready\<close>; the first
    timer interrupt then enters the first process, which takes turns with the kernel's own from there on (\<open>ticked\<close>, a step relation of
    timer interrupts and of code between them), and greets through interrupt 128.
  \<^item> Kernel and console: the lines the boot writes to terminal and serial line, all of them and in order; the screen
    after an exception of the kernel, down to the number of the exception.

  \<^bold>\<open>Bounds.\<close>  Loops are structural or carry a measure; those that may run for ever are partial functions
  into option, and where they end that is proved (of the round robin, of the serial
  port, of the heap).  There is no fuel.  Strings are shorter than \<open>2 ^ 31\<close> where the code counts
  them in an \<open>int\<close>.

  \<^bold>\<open>Interfaces.\<close>  The locales are \<open>page_allocator\<close>, \<open>address_space\<close> and its extensions, \<open>dispatcher\<close> and
  \<open>npf_sink\<close>; each is interpreted on the functions of the code in the component that provides it.

  \<^bold>\<open>Concurrency.\<close>  The kernel runs on one processor, and its handler with interrupts off; components are modelled as
  sequential, save for the lock itself, which is a step relation over any number of processors.
  At the level of \<open>Kernel\<close> a log line is one event; the console theories say what it does, and \<open>KernelConsole\<close>
  has a console carry out the events of a trace (\<open>replay\<close>), on a memory of its own.

  \<^bold>\<open>Boot conditions.\<close>  \<open>boot_ready\<close> asks for a serial port that answers, page-aligned usable regions in order and inside the
  direct map (what the boot protocol documents), the kernel's strings outside of them, and enough pages for the
  page tables, the page map's own three, and the eight of the scheduler; \<open>ready_ok\<close> gives a machine with 5000 pages that meets it.

  \<^bold>\<open>Not modelled.\<close>  The assembly of \<^verbatim>\<open>helper.asm\<close> and the loading of tables are events; \<open>sched_ctxswitch\<close> is called by
  nobody.  flanterm and \<^verbatim>\<open>limine.h\<close> are not part of the repository: calls of the former are events,
  \<open>flanterm_fb_init\<close> is a parameter and the fields of its context that \<open>tty_set_margin\<close> uses a record; the latter's
  responses are an argument.  The font is data.  The idle thread is known by its address.  The interrupted code between
  timer interrupts is any code that leaves the scheduler's structures alone.  What lies below an interrupt's frame, the handler's own C stack, is not modelled.
\<close>

end
